(* ===== verification/Prelude.thy ===== *)
theory Prelude
  imports Main "HOL-Library.Word" "HOL-Library.Char_ord" "HOL-Library.List_Lexorder"
    "HOL-Library.Code_Target_Nat"
begin

text \<open>
  Shared vocabulary of the development.

  A Rust \<open>str\<close> or byte slice is a \<open>string\<close>: a HOL \<open>char\<close> is one 8-bit byte, so
  \<open>length\<close> counts UTF-8 bytes as \<open>str::len\<close> does and the lexicographic order on \<open>string\<close>
  is the byte order of Rust's \<open>Ord for str\<close>. Results of fallible code are sums with the
  error on the left; \<open>rbind\<close> is the \<open>?\<close> operator. A \<open>BTreeMap<String, V>\<close> is an
  association list sorted strictly by key, in iteration order.
\<close>

named_theorems res_simps
named_theorems slice_simps

section \<open>Results\<close>

definition rbind :: "'e + 'a \<Rightarrow> ('a \<Rightarrow> 'e + 'b) \<Rightarrow> 'e + 'b" where
  "rbind r f = (case r of Inl e \<Rightarrow> Inl e | Inr x \<Rightarrow> f x)"

lemma rbind_simps [simp, res_simps]:
  "rbind (Inl e) f = Inl e"
  "rbind (Inr x) f = f x"
  by (simp_all add: rbind_def)

lemma rbind_eq_Inr [simp]: "rbind r f = Inr y \<longleftrightarrow> (\<exists>x. r = Inr x \<and> f x = Inr y)"
  by (cases r) auto

lemma rbind_eq_Inl [simp]:
  "rbind r f = Inl e \<longleftrightarrow> r = Inl e \<or> (\<exists>x. r = Inr x \<and> f x = Inl e)"
  by (cases r) auto

text \<open>\<open>iter().map(f).collect::<Result<Vec<_>>>()\<close>: the first error ends it.\<close>

fun collect_results :: "('a \<Rightarrow> 'e + 'b) \<Rightarrow> 'a list \<Rightarrow> 'e + 'b list" where
  "collect_results f [] = Inr []"
| "collect_results f (x # xs) =
     rbind (f x) (\<lambda>y. rbind (collect_results f xs) (\<lambda>ys. Inr (y # ys)))"

text \<open>\<open>for x in xs { f(x)?; } Ok(())\<close> for a check \<open>f\<close> without state.\<close>

definition try_all :: "('a \<Rightarrow> 'e + unit) \<Rightarrow> 'a list \<Rightarrow> 'e + unit" where
  "try_all f xs = foldr (\<lambda>x r. rbind (f x) (\<lambda>_. r)) xs (Inr ())"

lemma try_all_simps [simp, res_simps]:
  "try_all f [] = Inr ()"
  "try_all f (x # xs) = rbind (f x) (\<lambda>_. try_all f xs)"
  by (simp_all add: try_all_def)

lemma try_all_cong [fundef_cong]:
  "xs = ys \<Longrightarrow> (\<And>x. x \<in> set ys \<Longrightarrow> f x = g x) \<Longrightarrow> try_all f xs = try_all g ys"
  by (induction ys arbitrary: xs) auto

lemma try_all_Inr [simp]: "try_all f xs = Inr u \<longleftrightarrow> (\<forall>x \<in> set xs. f x = Inr ())"
  by (induction xs) auto

lemma try_all_map: "try_all f (map g xs) = try_all (\<lambda>x. f (g x)) xs"
  by (induction xs) simp_all

section \<open>ASCII classes and case folding\<close>

abbreviation byte :: "char \<Rightarrow> nat" where
  "byte c \<equiv> of_char c"

definition is_ascii_digit :: "char \<Rightarrow> bool" where
  "is_ascii_digit c \<longleftrightarrow> 48 \<le> byte c \<and> byte c \<le> 57"

definition is_ascii_alphabetic :: "char \<Rightarrow> bool" where
  "is_ascii_alphabetic c \<longleftrightarrow> 65 \<le> byte c \<and> byte c \<le> 90 \<or> 97 \<le> byte c \<and> byte c \<le> 122"

definition is_ascii_alphanumeric :: "char \<Rightarrow> bool" where
  "is_ascii_alphanumeric c \<longleftrightarrow> is_ascii_alphabetic c \<or> is_ascii_digit c"

text \<open>Rust's \<open>u8::is_ascii_whitespace\<close>: space, tab, line feed, form feed, carriage return.\<close>

definition is_ascii_whitespace :: "char \<Rightarrow> bool" where
  "is_ascii_whitespace c \<longleftrightarrow> byte c \<in> {32, 9, 10, 12, 13}"

definition to_lower :: "char \<Rightarrow> char" where
  "to_lower c = (if 65 \<le> byte c \<and> byte c \<le> 90 then char_of (byte c + 32) else c)"

definition to_upper :: "char \<Rightarrow> char" where
  "to_upper c = (if 97 \<le> byte c \<and> byte c \<le> 122 then char_of (byte c - 32) else c)"

definition to_ascii_lowercase :: "string \<Rightarrow> string" where
  "to_ascii_lowercase s = map to_lower s"

definition to_ascii_uppercase :: "string \<Rightarrow> string" where
  "to_ascii_uppercase s = map to_upper s"

definition eq_ignore_ascii_case :: "string \<Rightarrow> string \<Rightarrow> bool" where
  "eq_ignore_ascii_case s t \<longleftrightarrow> to_ascii_lowercase s = to_ascii_lowercase t"

lemma byte_less [simp]: "byte c < 256"
  using of_char_mod_256 [of c, where ?'a = nat] by (metis mod_less_divisor zero_less_numeral)

lemma to_lower_idem [simp]: "to_lower (to_lower c) = to_lower c"
  by (simp add: to_lower_def)

lemma to_ascii_lowercase_idem [simp]:
  "to_ascii_lowercase (to_ascii_lowercase s) = to_ascii_lowercase s"
  by (simp add: to_ascii_lowercase_def)

lemma length_to_ascii_lowercase [simp]: "length (to_ascii_lowercase s) = length s"
  by (simp add: to_ascii_lowercase_def)

lemma eq_ignore_ascii_case_refl [simp]: "eq_ignore_ascii_case s s"
  by (simp add: eq_ignore_ascii_case_def)

lemma eq_ignore_ascii_case_sym: "eq_ignore_ascii_case s t \<longleftrightarrow> eq_ignore_ascii_case t s"
  by (auto simp: eq_ignore_ascii_case_def)

section \<open>Slices\<close>

text \<open>\<open>subslice b i j\<close> is \<open>b[i..j]\<close> for \<open>i \<le> j \<le> b.len()\<close>.\<close>

definition subslice :: "'a list \<Rightarrow> nat \<Rightarrow> nat \<Rightarrow> 'a list" where
  "subslice b i j = take (j - i) (drop i b)"

definition starts_with :: "'a list \<Rightarrow> 'a list \<Rightarrow> bool" where
  "starts_with p b \<longleftrightarrow> take (length p) b = p"

lemma slice_self [simp, slice_simps]: "subslice b i i = []"
  by (simp add: subslice_def)

lemma length_slice [slice_simps]: "j \<le> length b \<Longrightarrow> length (subslice b i j) = j - i"
  by (simp add: subslice_def)

lemma slice_append: "i \<le> j \<Longrightarrow> j \<le> k \<Longrightarrow> subslice b i j @ subslice b j k = subslice b i k"
proof -
  assume "i \<le> j" "j \<le> k"
  then have "drop j b = drop (j - i) (drop i b)" and "k - i = (j - i) + (k - j)"
    by simp_all
  then show ?thesis
    unfolding subslice_def by (simp only: take_add)
qed

lemma slice_drop: "subslice b i (length b) = drop i b"
  by (simp add: subslice_def)

lemma drop_eq_slice_append: "i \<le> j \<Longrightarrow> drop i b = subslice b i j @ drop j b"
  unfolding subslice_def by (metis add_diff_inverse_nat append_take_drop_id drop_drop add.commute not_less)

lemma slice_of_drop: "drop i b = xs @ ys \<Longrightarrow> subslice b i (i + length xs) = xs"
  by (simp add: subslice_def)

lemma drop_append_eq: "xs @ ys = drop i b \<Longrightarrow> ys = drop (i + length xs) b"
  by (metis add.commute append_eq_conv_conj drop_drop)

section \<open>Prefix scans\<close>

lemma exI2: "P x y \<Longrightarrow> \<exists>x y. P x y"
  by blast

lemma list_all_takeWhile [simp]: "list_all P (takeWhile P xs)"
  by (induction xs) auto

lemma takeWhile_prefix: "\<exists>rest. xs = takeWhile P xs @ rest"
  by (metis takeWhile_dropWhile_id)

lemma drop_Cons_iff: "drop i b = c # cs \<longleftrightarrow> i < length b \<and> b ! i = c \<and> drop (Suc i) b = cs"
  by (metis Cons_nth_drop_Suc drop_eq_Nil2 leI list.inject list.simps(3))

section \<open>Trimming\<close>

text \<open>
  \<open>str::trim\<close>: the UTF-8 encodings of the characters with the Unicode property White_Space,
  removed from both ends.
\<close>

definition whitespace_chars :: "string list" where
  "whitespace_chars =
     map (\<lambda>n. [char_of n]) [9, 10, 11, 12, 13, 32 :: nat] @
     map (map char_of)
       ([[0xC2, 0x85], [0xC2, 0xA0], [0xE1, 0x9A, 0x80]] @
        map (\<lambda>n. [0xE2, 0x80, n]) [0x80 ..< 0x8B] @
        [[0xE2, 0x80, 0xA8], [0xE2, 0x80, 0xA9], [0xE2, 0x80, 0xAF], [0xE2, 0x81, 0x9F],
         [0xE3, 0x80, 0x80 :: nat]])"

definition leading_len :: "string list \<Rightarrow> string \<Rightarrow> nat" where
  "leading_len ws s = (case find (\<lambda>w. starts_with w s) ws of None \<Rightarrow> 0 | Some w \<Rightarrow> length w)"

function strip_leading :: "string list \<Rightarrow> string \<Rightarrow> string" where
  "strip_leading ws s =
     (if s = [] \<or> leading_len ws s = 0 then s else strip_leading ws (drop (leading_len ws s) s))"
  by pat_completeness auto
termination
  by (relation "measure (\<lambda>(ws, s). length s)") auto

declare strip_leading.simps [simp del]

definition trim :: "string \<Rightarrow> string" where
  "trim s = rev (strip_leading (map rev whitespace_chars) (rev (strip_leading whitespace_chars s)))"

end
