(* ===== verification/Tokens.thy ===== *)
theory Tokens
  imports Prelude
begin

text \<open>
  The FastQL tokenizer (\<open>fastdb/parser/src/lib.rs\<close>, \<open>tokenize\<close>) and its delimiter
  check. Every \<open>while\<close> of the source that only advances the cursor is a scan over the rest
  of the input; the outer loop is \<open>lex_loop\<close>, which stops because each iteration
  advances the cursor. The lemmas show that the tokens tile the input: they are ordered and
  disjoint, only white space and comments lie between them, the text of a token is what its
  span says, and token boundaries never split a UTF-8 sequence.
\<close>

section \<open>Data\<close>

datatype syntax_error = SyntaxError (offset: nat) (message: string)

datatype kind = KWord | KIdentifier | KString | KParameter | KNumber | KSymbol

record token =
  tok_kind :: kind
  tok_text :: string
  tok_start :: nat
  tok_end :: nat

abbreviation MAX_INPUT_BYTES :: nat where
  "MAX_INPUT_BYTES \<equiv> 16777216"

abbreviation MAX_TOKENS :: nat where
  "MAX_TOKENS \<equiv> 262144"

text \<open>The local variables of \<open>tokenize\<close>.\<close>

record lexer =
  lx_i :: nat
  lx_out :: "token list"
  lx_object_depth :: nat
  lx_array_depth :: nat
  lx_paren_depth :: nat
  lx_patch_expression :: bool
  lx_statement_start :: nat

definition lexer_init :: lexer where
  "lexer_init = \<lparr>lx_i = 0, lx_out = [], lx_object_depth = 0, lx_array_depth = 0,
     lx_paren_depth = 0, lx_patch_expression = False, lx_statement_start = 0\<rparr>"

section \<open>Scans\<close>

text \<open>Bytes the block comment loop skips before it meets \<open>*/\<close> or the last byte.\<close>

fun comment_len :: "string \<Rightarrow> nat" where
  "comment_len (c # d # cs) =
     (if c = CHR ''*'' \<and> d = CHR ''/'' then 0 else Suc (comment_len (d # cs)))"
| "comment_len _ = 0"

text \<open>
  The quote loop after the opening byte: the decoded text and the bytes consumed, closing
  quote included, or \<open>None\<close> when the input ends first. \<open>doubles\<close> is \<open>open != b'['\<close>.
\<close>

fun scan_quote :: "char \<Rightarrow> bool \<Rightarrow> string \<Rightarrow> (string \<times> nat) option" where
  "scan_quote close doubles [] = None"
| "scan_quote close doubles (c # cs) =
     (if c = close then
        (case cs of
           d # ds \<Rightarrow>
             if doubles \<and> d = close
             then map_option (\<lambda>(text, n). (close # text, n + 2)) (scan_quote close doubles ds)
             else Some ([], 1)
         | [] \<Rightarrow> Some ([], 1))
      else map_option (\<lambda>(text, n). (c # text, n + 1)) (scan_quote close doubles cs))"

definition parameter_byte :: "char \<Rightarrow> char \<Rightarrow> bool" where
  "parameter_byte open c \<longleftrightarrow> is_ascii_alphanumeric c \<or> c = CHR ''_'' \<or> 128 \<le> byte c \<or>
     open = CHR ''$'' \<and> c = CHR '':''"

fun scan_number :: "char \<Rightarrow> string \<Rightarrow> string" where
  "scan_number previous [] = []"
| "scan_number previous (c # cs) =
     (if is_ascii_digit c \<or> c \<in> {CHR ''.'', CHR ''e'', CHR ''E''} \<or>
         c \<in> {CHR ''+'', CHR ''-''} \<and> previous \<in> {CHR ''e'', CHR ''E''}
      then c # scan_number c cs else [])"

definition word_start :: "char \<Rightarrow> bool" where
  "word_start c \<longleftrightarrow> is_ascii_alphabetic c \<or> c = CHR ''_'' \<or> 128 \<le> byte c"

definition word_byte :: "char \<Rightarrow> bool" where
  "word_byte c \<longleftrightarrow> is_ascii_alphanumeric c \<or> c \<in> {CHR ''_'', CHR ''$''} \<or> 128 \<le> byte c"

text \<open>
  The \<open>match b[i]\<close> that scans one token at \<open>c # cs\<close>: its kind, its text and the
  bytes it takes, or the unterminated quote error. \<open>brackets\<close> is
  \<open>object_depth > 0 || array_depth > 0 || patch_expression\<close>.
\<close>

definition scan_token ::
  "bool \<Rightarrow> char \<Rightarrow> string \<Rightarrow> (kind \<times> string \<times> nat) option" where
  "scan_token brackets c cs =
     (if c = CHR ''['' \<and> brackets then Some (KSymbol, ''['', 1)
      else if c \<in> {CHR 0x27, CHR 0x22, CHR 0x60, CHR ''[''} then
        map_option
          (\<lambda>(text, n). (if c = CHR 0x27 then KString else KIdentifier, text, n + 1))
          (scan_quote (if c = CHR ''['' then CHR '']'' else c) (c \<noteq> CHR ''['') cs)
      else if c \<in> {CHR ''$'', CHR ''@'', CHR ''?''} then
        (let t = c # takeWhile (parameter_byte c) cs in Some (KParameter, t, length t))
      else if is_ascii_digit c then
        (let t = c # scan_number c cs in Some (KNumber, t, length t))
      else if word_start c then
        (let t = c # takeWhile word_byte cs in Some (KWord, t, length t))
      else Some (KSymbol, [c], 1))"

section \<open>Bookkeeping after a token\<close>

definition track_depths :: "token \<Rightarrow> lexer \<Rightarrow> lexer" where
  "track_depths t s =
     (if tok_kind t = KSymbol then
        (if tok_text t = ''['' then s\<lparr>lx_array_depth := lx_array_depth s + 1\<rparr>
         else if tok_text t = '']'' then s\<lparr>lx_array_depth := lx_array_depth s - 1\<rparr>
         else if tok_text t = ''('' then s\<lparr>lx_paren_depth := lx_paren_depth s + 1\<rparr>
         else if tok_text t = '')'' then s\<lparr>lx_paren_depth := lx_paren_depth s - 1\<rparr>
         else if tok_text t = ''{'' then s\<lparr>lx_object_depth := lx_object_depth s + 1\<rparr>
         else if tok_text t = ''}'' then s\<lparr>lx_object_depth := lx_object_depth s - 1\<rparr>
         else s)
      else s)"

text \<open>
  \<open>statement\<close> is \<open>&out[statement_start..]\<close>, not empty here because it ends with the
  token just pushed. The indices 0 and 2 are read under the length tests of the source.
\<close>

definition patch_opens :: "token list \<Rightarrow> bool" where
  "patch_opens statement \<longleftrightarrow>
     tok_kind (statement ! 0) = KWord \<and> eq_ignore_ascii_case (tok_text (statement ! 0)) ''UPDATE'' \<and>
     (length statement = 3 \<or>
      (length statement = 5 \<or> length statement = 6) \<and> tok_text (statement ! 2) = '':'')"

definition track_patch :: "token \<Rightarrow> lexer \<Rightarrow> lexer" where
  "track_patch t s =
     (if lx_object_depth s = 0 \<and> lx_array_depth s = 0 \<and> lx_paren_depth s = 0 then
        (if tok_kind t = KSymbol \<and> tok_text t = '';'' then
           s\<lparr>lx_patch_expression := False, lx_statement_start := length (lx_out s)\<rparr>
         else if tok_kind t = KWord then
           (if eq_ignore_ascii_case (tok_text t) ''WHERE'' \<or>
               eq_ignore_ascii_case (tok_text t) ''RETURNING''
            then s\<lparr>lx_patch_expression := False\<rparr>
            else if eq_ignore_ascii_case (tok_text t) ''PATCH'' \<and>
                    patch_opens (drop (lx_statement_start s) (lx_out s))
            then s\<lparr>lx_patch_expression := True\<rparr>
            else s)
         else s)
      else s)"

definition push_token :: "token \<Rightarrow> lexer \<Rightarrow> lexer" where
  "push_token t s =
     (let s1 = track_depths t s;
          s2 = s1\<lparr>lx_out := lx_out s1 @ [t], lx_i := tok_end t\<rparr>
      in track_patch t s2)"

section \<open>The loop\<close>

definition lex_step :: "string \<Rightarrow> lexer \<Rightarrow> syntax_error + lexer" where
  "lex_step b s =
     (let i = lx_i s in
      case drop i b of
        [] \<Rightarrow> Inr s
      | c # cs \<Rightarrow>
          if is_ascii_whitespace c then Inr (s\<lparr>lx_i := i + 1\<rparr>)
          else if starts_with ''--'' (c # cs) then
            Inr (s\<lparr>lx_i := i + length (takeWhile (\<lambda>d. d \<noteq> CHR 0x0A) (c # cs))\<rparr>)
          else if starts_with ''/*'' (c # cs) then
            (let j = i + 2 + comment_len (drop (i + 2) b) in
             if j + 1 = length b \<or> j = length b
             then Inl (SyntaxError i ''unterminated comment'')
             else Inr (s\<lparr>lx_i := j + 2\<rparr>))
          else if length (lx_out s) = MAX_TOKENS then
            Inl (SyntaxError i ''input token limit exceeded (262144)'')
          else
            (case scan_token
                (0 < lx_object_depth s \<or> 0 < lx_array_depth s \<or> lx_patch_expression s) c cs of
               None \<Rightarrow> Inl (SyntaxError i ''unterminated quote'')
             | Some (k, text, n) \<Rightarrow>
                 Inr (push_token
                   \<lparr>tok_kind = k, tok_text = text, tok_start = i, tok_end = i + n\<rparr> s)))"

lemma push_token_i [simp]: "lx_i (push_token t s) = tok_end t"
  by (auto simp: push_token_def track_patch_def track_depths_def Let_def)

lemma push_token_out [simp]: "lx_out (push_token t s) = lx_out s @ [t]"
  by (auto simp: push_token_def track_patch_def track_depths_def Let_def)

lemma scan_token_pos: "scan_token br c cs = Some (k, text, n) \<Longrightarrow> 0 < n"
  by (auto simp: scan_token_def Let_def split: if_splits)

lemma lex_step_progress:
  assumes "lx_i s < length b" and "lex_step b s = Inr s'"
  shows "lx_i s < lx_i s'"
proof -
  obtain c cs where d: "drop (lx_i s) b = c # cs"
    using assms(1) by (metis Cons_nth_drop_Suc)
  have line: "starts_with ''--'' (c # cs) \<Longrightarrow>
      0 < length (takeWhile (\<lambda>d. d \<noteq> CHR 0x0A) (c # cs))"
    by (auto simp: starts_with_def)
  show ?thesis
    using assms(2) line
    by (auto simp: lex_step_def Let_def d dest: scan_token_pos
        split: if_split_asm option.split_asm simp del: takeWhile.simps)
qed

function lex_loop :: "string \<Rightarrow> lexer \<Rightarrow> syntax_error + token list" where
  "lex_loop b s =
     (if lx_i s < length b then
        (case lex_step b s of Inl e \<Rightarrow> Inl e | Inr s' \<Rightarrow> lex_loop b s')
      else Inr (lx_out s))"
  by pat_completeness auto
termination
  by (relation "measure (\<lambda>(b, s). length b - lx_i s)")
     (auto intro: diff_less_mono2 lex_step_progress)

declare lex_loop.simps [simp del]

definition tokenize :: "string \<Rightarrow> syntax_error + token list" where
  "tokenize input =
     (if MAX_INPUT_BYTES < length input
      then Inl (SyntaxError 0 ''input byte limit exceeded (16777216)'')
      else lex_loop input lexer_init)"

section \<open>Lexemes\<close>

text \<open>\<open>str::replace(q, qq)\<close>: the quoting the frontend applies to embedded text.\<close>

definition double_quote :: "char \<Rightarrow> string \<Rightarrow> string" where
  "double_quote q text = concat (map (\<lambda>c. if c = q then [q, q] else [c]) text)"

lemma double_quote_simps [simp]:
  "double_quote q [] = []"
  "double_quote q (c # cs) = (if c = q then [q, q] else [c]) @ double_quote q cs"
  by (simp_all add: double_quote_def)

text \<open>The source spellings a token of a given kind and text may have.\<close>

fun lexeme :: "kind \<Rightarrow> string \<Rightarrow> string \<Rightarrow> bool" where
  "lexeme KString text src \<longleftrightarrow> src = CHR 0x27 # double_quote CHR 0x27 text @ [CHR 0x27]"
| "lexeme KIdentifier text src \<longleftrightarrow>
     (\<exists>q \<in> {CHR 0x22, CHR 0x60}. src = q # double_quote q text @ [q]) \<or>
     src = CHR ''['' # text @ [CHR '']''] \<and> CHR '']'' \<notin> set text"
| "lexeme KParameter text src \<longleftrightarrow> src = text \<and>
     (case text of [] \<Rightarrow> False | c # cs \<Rightarrow>
        c \<in> {CHR ''$'', CHR ''@'', CHR ''?''} \<and> list_all (parameter_byte c) cs)"
| "lexeme KNumber text src \<longleftrightarrow> src = text \<and>
     (case text of [] \<Rightarrow> False | c # cs \<Rightarrow> is_ascii_digit c \<and> scan_number c cs = cs)"
| "lexeme KWord text src \<longleftrightarrow> src = text \<and>
     (case text of [] \<Rightarrow> False | c # cs \<Rightarrow> word_start c \<and> list_all word_byte cs)"
| "lexeme KSymbol text src \<longleftrightarrow> src = text \<and> length text = 1 \<and> \<not> word_start (hd text)"

lemma lexeme_nonempty: "lexeme k text src \<Longrightarrow> src \<noteq> []"
  by (cases k) (auto split: list.splits)

lemma scan_quote_doubles:
  "scan_quote q True cs = Some (w, n) \<Longrightarrow>
   \<exists>rest. cs = double_quote q w @ q # rest \<and> n = length (double_quote q w) + 1"
proof (induction q True cs arbitrary: w n rule: scan_quote.induct)
  case (2 q c cs)
  show ?case
  proof (cases "c = q")
    case False
    with "2.prems" obtain w' m where
      "scan_quote q True cs = Some (w', m)" and eq: "w = c # w'" "n = m + 1"
      by auto
    with "2.hyps"(2) [OF False] False show ?thesis by fastforce
  next
    case True
    show ?thesis
    proof (cases "\<exists>ds. cs = q # ds")
      case False
      with True "2.prems" show ?thesis by (auto split: list.splits if_splits)
    next
      case t: True
      then obtain ds where ds: "cs = q # ds" by blast
      with True "2.prems" obtain w' m where
        "scan_quote q True ds = Some (w', m)" and eq: "w = q # w'" "n = m + 2"
        by auto
      with "2.hyps"(1) [OF True ds] show ?thesis using True ds by fastforce
    qed
  qed
qed simp

lemma scan_quote_bracket:
  "scan_quote q False cs = Some (w, n) \<Longrightarrow>
   \<exists>rest. cs = w @ q # rest \<and> n = length w + 1 \<and> q \<notin> set w"
proof (induction q False cs arbitrary: w n rule: scan_quote.induct)
  case (2 q c cs)
  show ?case
  proof (cases "c = q")
    case True
    with "2.prems" show ?thesis by (auto split: list.splits)
  next
    case False
    with "2.prems" obtain w' m where
      "scan_quote q False cs = Some (w', m)" and eq: "w = c # w'" "n = m + 1"
      by auto
    with "2.hyps"(2) [OF False] False show ?thesis by fastforce
  qed
qed simp

lemma scan_number_idem: "scan_number p (scan_number p cs) = scan_number p cs"
  by (induction p cs rule: scan_number.induct) auto

lemma scan_number_prefix: "\<exists>rest. cs = scan_number p cs @ rest"
  by (induction p cs rule: scan_number.induct) auto

lemma prefix_lexemeI:
  "xs = src @ rest \<Longrightarrow> n = length src \<Longrightarrow> lexeme k w src \<Longrightarrow>
   \<exists>src rest. xs = src @ rest \<and> n = length src \<and> lexeme k w src"
  by blast

text \<open>Every scanned token is a prefix of the input spelled as its kind allows.\<close>

lemma scan_token_lexeme:
  assumes "scan_token br c cs = Some (k, w, n)"
  shows "\<exists>src rest. c # cs = src @ rest \<and> n = length src \<and> lexeme k w src"
proof -
  consider
      (bracket) "c = CHR ''[''" "br"
    | (quote) "c \<in> {CHR 0x27, CHR 0x22, CHR 0x60}"
    | (square) "c = CHR ''[''" "\<not> br"
    | (parameter) "c \<in> {CHR ''$'', CHR ''@'', CHR ''?''}"
    | (plain) "c \<notin> {CHR 0x27, CHR 0x22, CHR 0x60, CHR ''['', CHR ''$'', CHR ''@'', CHR ''?''}"
    by blast
  then show ?thesis
  proof cases
    case bracket
    with assms show ?thesis
      by (auto simp: scan_token_def word_start_def is_ascii_alphabetic_def)
  next
    case quote
    then have "scan_token br c cs = map_option
          (\<lambda>(w, n). (if c = CHR 0x27 then KString else KIdentifier, w, n + 1))
          (scan_quote c True cs)"
      by (auto simp: scan_token_def)
    with assms obtain m where m: "scan_quote c True cs = Some (w, m)" "n = m + 1"
      and k: "k = (if c = CHR 0x27 then KString else KIdentifier)"
      by auto
    from scan_quote_doubles [OF m(1)] obtain rest where
      "c # cs = (c # double_quote c w @ [c]) @ rest" "m = length (double_quote c w) + 1"
      by auto
    with m(2) k quote show ?thesis
      by (intro prefix_lexemeI [of _ "c # double_quote c w @ [c]" rest]) auto
  next
    case square
    with assms obtain m where m: "scan_quote CHR '']'' False cs = Some (w, m)" "n = m + 1"
      and k: "k = KIdentifier"
      by (auto simp: scan_token_def)
    from scan_quote_bracket [OF m(1)] obtain rest where
      "cs = w @ CHR '']'' # rest" "m = length w + 1" "CHR '']'' \<notin> set w"
      by auto
    with square m(2) k show ?thesis
      by (intro prefix_lexemeI [of _ "c # w @ [CHR '']'']" rest]) auto
  next
    case parameter
    obtain rest where "cs = takeWhile (parameter_byte c) cs @ rest"
      using takeWhile_prefix by blast
    with assms parameter show ?thesis
      by (intro prefix_lexemeI [of _ "c # takeWhile (parameter_byte c) cs" rest])
        (auto simp: scan_token_def Let_def)
  next
    case plain
    then have st: "scan_token br c cs =
       (if is_ascii_digit c then Some (KNumber, c # scan_number c cs, Suc (length (scan_number c cs)))
        else if word_start c then
          Some (KWord, c # takeWhile word_byte cs, Suc (length (takeWhile word_byte cs)))
        else Some (KSymbol, [c], 1))"
      by (simp add: scan_token_def Let_def)
    obtain r1 r2 where r: "cs = scan_number c cs @ r1" "cs = takeWhile word_byte cs @ r2"
      using takeWhile_prefix scan_number_prefix by metis
    consider (digit) "is_ascii_digit c" | (word) "\<not> is_ascii_digit c" "word_start c"
      | (symbol) "\<not> is_ascii_digit c" "\<not> word_start c"
      by blast
    then show ?thesis
    proof cases
      case digit
      with assms st r(1) show ?thesis
        by (intro prefix_lexemeI [of _ "c # scan_number c cs" r1]) (auto simp: scan_number_idem)
    next
      case word
      with assms st r(2) show ?thesis
        by (intro prefix_lexemeI [of _ "c # takeWhile word_byte cs" r2])
          auto
    next
      case symbol
      with assms st show ?thesis
        by (intro prefix_lexemeI [of _ "[c]" cs]) auto
    qed
  qed
qed

section \<open>Layout\<close>

text \<open>
  \<open>layout rest ts i\<close>: the input suffix \<open>rest\<close> at offset \<open>i\<close> reads as the tokens
  \<open>ts\<close> with only white space, line comments and block comments around them. A line
  comment stops before a line feed or at the end; a block comment stops at its first \<open>*/\<close>.
\<close>

inductive layout :: "string \<Rightarrow> token list \<Rightarrow> nat \<Rightarrow> bool" where
  layout_end: "layout [] [] i"
| layout_space: "is_ascii_whitespace c \<Longrightarrow> layout rest ts (i + 1) \<Longrightarrow> layout (c # rest) ts i"
| layout_line:
    "CHR 0x0A \<notin> set body \<Longrightarrow> rest = [] \<or> hd rest = CHR 0x0A \<Longrightarrow>
     layout rest ts (i + 2 + length body) \<Longrightarrow> layout (''--'' @ body @ rest) ts i"
| layout_block:
    "comment_len (body @ ''*/'') = length body \<Longrightarrow>
     layout rest ts (i + 4 + length body) \<Longrightarrow> layout (''/*'' @ body @ ''*/'' @ rest) ts i"
| layout_token:
    "lexeme (tok_kind t) (tok_text t) src \<Longrightarrow> tok_start t = i \<Longrightarrow> tok_end t = i + length src \<Longrightarrow>
     layout rest ts (tok_end t) \<Longrightarrow> layout (src @ rest) (t # ts) i"

lemma comment_len_split:
  "comment_len xs + 1 < length xs \<Longrightarrow>
   \<exists>body rest. xs = body @ ''*/'' @ rest \<and> length body = comment_len xs \<and>
     comment_len (body @ ''*/'') = length body"
proof (induction xs rule: comment_len.induct)
  case (1 c d cs)
  show ?case
  proof (cases "c = CHR ''*'' \<and> d = CHR ''/''")
    case True
    then show ?thesis by (intro exI2 [where x = "[]" and y = cs]) auto
  next
    case False
    with 1 obtain body rest where
      b: "d # cs = body @ ''*/'' @ rest" "length body = comment_len (d # cs)"
        "comment_len (body @ ''*/'') = length body"
      by auto
    moreover have "c # d # cs = (c # body) @ ''*/'' @ rest"
      using b(1) by simp
    moreover have "length (c # body) = comment_len (c # d # cs)"
      using b(2) False by simp
    moreover have "comment_len ((c # body) @ ''*/'') = length (c # body)"
    proof (cases body)
      case Nil
      with b(1) False show ?thesis by simp
    next
      case (Cons x xs)
      with b(1) have "x = d" by simp
      with Cons b(3) False show ?thesis by auto
    qed
    ultimately show ?thesis by blast
  qed
qed auto

lemma comment_len_le: "comment_len xs \<le> length xs - 1"
  by (induction xs rule: comment_len.induct) auto

lemma line_comment_split:
  assumes "starts_with ''--'' xs"
  shows "\<exists>body rest. xs = ''--'' @ body @ rest \<and> CHR 0x0A \<notin> set body \<and>
    (rest = [] \<or> hd rest = CHR 0x0A) \<and>
    length (takeWhile (\<lambda>d. d \<noteq> CHR 0x0A) xs) = 2 + length body"
proof -
  let ?P = "\<lambda>d. d \<noteq> CHR 0x0A"
  from assms obtain ys where xs: "xs = ''--'' @ ys"
    unfolding starts_with_def by (metis append_take_drop_id)
  have "CHR 0x0A \<notin> set (takeWhile ?P ys)"
    using set_takeWhileD [of "CHR 0x0A" ?P ys] by auto
  moreover have "dropWhile ?P ys = [] \<or> hd (dropWhile ?P ys) = CHR 0x0A"
    using hd_dropWhile [of ?P ys] by auto
  moreover have "xs = ''--'' @ takeWhile ?P ys @ dropWhile ?P ys"
    by (simp add: xs)
  ultimately show ?thesis
    by (intro exI2 [where x = "takeWhile ?P ys" and y = "dropWhile ?P ys"]) (auto simp: xs)
qed

text \<open>The four things one iteration of the loop can do.\<close>

lemma lex_step_cases:
  assumes "lx_i s < length b" and "lex_step b s = Inr s'"
  obtains (space) c rest where "drop (lx_i s) b = [c] @ rest" "is_ascii_whitespace c"
      "s' = s\<lparr>lx_i := lx_i s + 1\<rparr>"
    | (line) body rest where "drop (lx_i s) b = (''--'' @ body) @ rest" "CHR 0x0A \<notin> set body"
      "rest = [] \<or> hd rest = CHR 0x0A" "s' = s\<lparr>lx_i := lx_i s + 2 + length body\<rparr>"
    | (block) body rest where "drop (lx_i s) b = (''/*'' @ body @ ''*/'') @ rest"
      "comment_len (body @ ''*/'') = length body" "s' = s\<lparr>lx_i := lx_i s + 4 + length body\<rparr>"
    | (token) c cs br k w src rest where "drop (lx_i s) b = c # cs"
      "scan_token br c cs = Some (k, w, length src)" "c # cs = src @ rest" "lexeme k w src"
      "length (lx_out s) \<noteq> MAX_TOKENS"
      "s' = push_token \<lparr>tok_kind = k, tok_text = w, tok_start = lx_i s,
              tok_end = lx_i s + length src\<rparr> s"
proof -
  let ?i = "lx_i s"
  obtain c cs where d: "drop ?i b = c # cs"
    using assms(1) by (metis Cons_nth_drop_Suc)
  have dd: "drop (?i + n) b = drop n (c # cs)" for n
    by (simp add: d [symmetric] add.commute)
  consider "is_ascii_whitespace c"
    | (line) "\<not> is_ascii_whitespace c" "starts_with ''--'' (c # cs)"
    | (block) "\<not> is_ascii_whitespace c" "\<not> starts_with ''--'' (c # cs)" "starts_with ''/*'' (c # cs)"
    | (tok) "\<not> is_ascii_whitespace c" "\<not> starts_with ''--'' (c # cs)"
        "\<not> starts_with ''/*'' (c # cs)"
    by blast
  then show thesis
  proof cases
    case 1
    with assms(2) d show thesis by (intro space [of c cs]) (simp_all add: lex_step_def Let_def)
  next
    case line
    with assms(2) d have "s' = s\<lparr>lx_i := ?i + length (takeWhile (\<lambda>d. d \<noteq> CHR 0x0A) (c # cs))\<rparr>"
      by (simp add: lex_step_def Let_def)
    moreover from line_comment_split [OF line(2)] obtain body rest where
      "c # cs = ''--'' @ body @ rest" "CHR 0x0A \<notin> set body" "rest = [] \<or> hd rest = CHR 0x0A"
      "length (takeWhile (\<lambda>d. d \<noteq> CHR 0x0A) (c # cs)) = 2 + length body"
      by blast
    ultimately show thesis using d
      by (intro that(2) [of body rest]) (simp_all del: takeWhile.simps)
  next
    case block
    let ?j = "?i + 2 + comment_len (drop (?i + 2) b)"
    from block assms(2) d have s': "s' = s\<lparr>lx_i := ?j + 2\<rparr>" and "?j + 1 \<noteq> length b" "?j \<noteq> length b"
      by (auto simp: lex_step_def Let_def split: if_split_asm)
    moreover from block(3) d have len: "?i + 2 \<le> length b"
      unfolding starts_with_def by (cases cs) (auto dest!: arg_cong [of _ _ length])
    ultimately have "comment_len (drop (?i + 2) b) + 1 < length (drop (?i + 2) b)"
      using comment_len_le [of "drop (?i + 2) b"] by auto
    from comment_len_split [OF this] obtain body rest where
      r: "drop (?i + 2) b = body @ ''*/'' @ rest" "length body = comment_len (drop (?i + 2) b)"
        "comment_len (body @ ''*/'') = length body"
      by blast
    have "c # cs = ''/*'' @ drop (?i + 2) b"
      using block(3) dd [of 2] unfolding starts_with_def
      by (metis append_take_drop_id length_Cons list.size(3) numeral_2_eq_2 One_nat_def)
    with r d s' show thesis by (intro that(3) [of body rest]) simp_all
  next
    case tok
    with assms(2) d obtain k w n where
      st: "scan_token (0 < lx_object_depth s \<or> 0 < lx_array_depth s \<or> lx_patch_expression s) c cs
            = Some (k, w, n)"
      and s': "s' = push_token \<lparr>tok_kind = k, tok_text = w, tok_start = ?i, tok_end = ?i + n\<rparr> s"
        "length (lx_out s) \<noteq> MAX_TOKENS"
      by (auto simp: lex_step_def Let_def split: if_split_asm option.split_asm)
    from scan_token_lexeme [OF st] obtain src rest where
      "c # cs = src @ rest" "n = length src" "lexeme k w src" by blast
    with st s' d show thesis by (intro token) simp_all
  qed
qed

lemma lex_step_layout:
  assumes "lx_i s < length b" and "lex_step b s = Inr s'"
    and lay: "layout (drop (lx_i s') b) ts (lx_i s')"
  shows "\<exists>new. lx_out s' = lx_out s @ new \<and> layout (drop (lx_i s) b) (new @ ts) (lx_i s)"
  using assms(1,2)
proof (cases rule: lex_step_cases)
  case (space c rest)
  with lay drop_append_eq [OF space(1) [symmetric]] show ?thesis
    by (auto intro: layout_space)
next
  case (line body rest)
  with lay drop_append_eq [OF line(1) [symmetric]] layout_line [OF line(2,3), of ts "lx_i s"]
  show ?thesis by simp
next
  case (block body rest)
  with lay drop_append_eq [OF block(1) [symmetric]] layout_block [OF block(2), of rest ts "lx_i s"]
  show ?thesis by (simp add: eval_nat_numeral)
next
  case (token c cs br k w src rest)
  with lay drop_append_eq [of src rest "lx_i s" b] show ?thesis
    by (auto intro!: layout_token)
qed

lemma lex_loop_layout:
  "lex_loop b s = Inr ts \<Longrightarrow>
   \<exists>new. ts = lx_out s @ new \<and> layout (drop (lx_i s) b) new (lx_i s)"
proof (induction b s rule: lex_loop.induct)
  case (1 b s)
  show ?case
  proof (cases "lx_i s < length b")
    case False
    with "1.prems" show ?thesis by (simp add: lex_loop.simps [of b s] layout_end)
  next
    case True
    with "1.prems" obtain s' where s': "lex_step b s = Inr s'" "lex_loop b s' = Inr ts"
      by (auto simp: lex_loop.simps [of b s] split: sum.splits)
    from "1.IH" [OF True s'] obtain new where
      new: "ts = lx_out s' @ new" "layout (drop (lx_i s') b) new (lx_i s')" by blast
    from lex_step_layout [OF True s'(1) new(2)] new(1) show ?thesis by auto
  qed
qed

lemma tokenize_layout: "tokenize b = Inr ts \<Longrightarrow> layout b ts 0"
  using lex_loop_layout [of b lexer_init ts]
  by (auto simp: tokenize_def lexer_init_def split: if_splits)

section \<open>Consequences of the layout\<close>

text \<open>Token spans in order from offset \<open>i\<close> up to \<open>n\<close>, none empty, none overlapping.\<close>

fun spans_from :: "nat \<Rightarrow> nat \<Rightarrow> token list \<Rightarrow> bool" where
  "spans_from i n [] \<longleftrightarrow> i \<le> n"
| "spans_from i n (t # ts) \<longleftrightarrow>
     i \<le> tok_start t \<and> tok_start t < tok_end t \<and> spans_from (tok_end t) n ts"

lemma spans_from_mono: "spans_from j n ts \<Longrightarrow> i \<le> j \<Longrightarrow> spans_from i n ts"
  by (cases ts) auto

lemma layout_spans: "layout rest ts i \<Longrightarrow> spans_from i (i + length rest) ts"
proof (induction rule: layout.induct)
  case (layout_block body rest ts i)
  then show ?case by (auto elim: spans_from_mono simp: eval_nat_numeral add.assoc)
next
  case (layout_token t src i rest ts)
  then show ?case
    using lexeme_nonempty [OF layout_token(1)] by (auto simp: add.assoc)
qed (auto intro: spans_from_mono simp: add.assoc)

lemma layout_lexeme:
  "layout rest ts i \<Longrightarrow> t \<in> set ts \<Longrightarrow> rest = drop i b \<Longrightarrow>
   lexeme (tok_kind t) (tok_text t) (subslice b (tok_start t) (tok_end t))"
proof (induction rule: layout.induct)
  case (layout_space c rest ts i)
  with drop_append_eq [of "[c]" rest i b] show ?case by simp
next
  case (layout_line body rest ts i)
  with drop_append_eq [of "''--'' @ body" rest i b] show ?case by simp
next
  case (layout_block body rest ts i)
  with drop_append_eq [of "''/*'' @ body @ ''*/''" rest i b] show ?case
    by (simp add: eval_nat_numeral)
next
  case (layout_token u src i rest ts)
  with drop_append_eq [of src rest i b] slice_of_drop [of i b src rest] show ?case by auto
qed simp

section \<open>Character boundaries\<close>

text \<open>Rust's \<open>str\<close> invariant: the bytes are well-formed UTF-8.\<close>

definition continuation :: "char \<Rightarrow> bool" where
  "continuation c \<longleftrightarrow> 128 \<le> byte c \<and> byte c < 192"

text \<open>
  \<open>utf8_lead c\<close>: how many continuation bytes follow the lead byte \<open>c\<close> and the range
  of the first of them. \<open>utf8_from n lo hi s\<close>: \<open>n\<close> continuation bytes are due, the next
  within \<open>lo..hi\<close>.
\<close>

definition utf8_lead :: "nat \<Rightarrow> (nat \<times> nat \<times> nat) option" where
  "utf8_lead c =
     (if c < 128 then Some (0, 128, 191)
      else if 194 \<le> c \<and> c \<le> 223 then Some (1, 128, 191)
      else if c = 224 then Some (2, 160, 191)
      else if c = 237 then Some (2, 128, 159)
      else if 225 \<le> c \<and> c \<le> 239 then Some (2, 128, 191)
      else if c = 240 then Some (3, 144, 191)
      else if 241 \<le> c \<and> c \<le> 243 then Some (3, 128, 191)
      else if c = 244 then Some (3, 128, 143)
      else None)"

fun utf8_from :: "nat \<Rightarrow> nat \<Rightarrow> nat \<Rightarrow> string \<Rightarrow> bool" where
  "utf8_from n lo hi [] \<longleftrightarrow> n = 0"
| "utf8_from n lo hi (a # s) \<longleftrightarrow>
     (if n = 0 then
        (case utf8_lead (byte a) of
           None \<Rightarrow> False
         | Some (m, l, h) \<Rightarrow> utf8_from m l h s)
      else lo \<le> byte a \<and> byte a \<le> hi \<and> utf8_from (n - 1) 128 191 s)"

definition utf8 :: "string \<Rightarrow> bool" where
  "utf8 s = utf8_from 0 128 191 s"

definition is_char_boundary :: "string \<Rightarrow> nat \<Rightarrow> bool" where
  "is_char_boundary b i \<longleftrightarrow> i = 0 \<or> i = length b \<or> i < length b \<and> \<not> continuation (b ! i)"

text \<open>No continuation byte starts the input or follows an ASCII byte.\<close>

fun linked :: "bool \<Rightarrow> string \<Rightarrow> bool" where
  "linked prev [] \<longleftrightarrow> True"
| "linked prev (c # cs) \<longleftrightarrow> (continuation c \<longrightarrow> prev) \<and> linked (128 \<le> byte c) cs"

lemma utf8_lead_Some:
  "utf8_lead c = Some (m, l, h) \<Longrightarrow> 128 \<le> l \<and> (c < 128 \<and> m = 0 \<or> 194 \<le> c)"
  by (auto simp: utf8_lead_def split: if_split_asm)

lemma utf8_from_linked:
  "utf8_from n lo hi s \<Longrightarrow> 128 \<le> lo \<Longrightarrow> n = 0 \<or> prev \<Longrightarrow> linked prev s"
proof (induction s arbitrary: n lo hi prev)
  case (Cons a s)
  show ?case
  proof (cases "n = 0")
    case False
    with Cons.prems Cons.IH [of "n - 1" 128 191 "128 \<le> byte a"] show ?thesis by auto
  next
    case True
    with Cons.prems obtain m l h where
      "utf8_lead (byte a) = Some (m, l, h)" and s: "utf8_from m l h s"
      by (auto split: option.split_asm)
    from utf8_lead_Some [OF this(1)] have l: "128 \<le> l" "byte a < 128 \<and> m = 0 \<or> 194 \<le> byte a"
      by auto
    from Cons.IH [OF s l(1), of "128 \<le> byte a"] l(2) show ?thesis
      by (auto simp: continuation_def)
  qed
qed simp

lemma utf8_linked: "utf8 s \<Longrightarrow> linked prev s"
  unfolding utf8_def by (erule utf8_from_linked) simp_all

lemma linked_nth:
  "linked prev b \<Longrightarrow> i < length b \<Longrightarrow> continuation (b ! i) \<Longrightarrow>
   if i = 0 then prev else 128 \<le> byte (b ! (i - 1))"
proof (induction prev b arbitrary: i rule: linked.induct)
  case (2 prev c cs)
  show ?case
  proof (cases i)
    case 0
    with 2 show ?thesis by simp
  next
    case (Suc j)
    with "2.IH" [of j] "2.prems" show ?thesis by (cases j) auto
  qed
qed simp

lemma boundary_after_ascii:
  assumes "utf8 b" "j \<le> length b" "0 < j" "byte (b ! (j - 1)) < 128"
  shows "is_char_boundary b j"
  using linked_nth [OF utf8_linked [OF assms(1), of False], of j] assms
  by (auto simp: is_char_boundary_def)

lemma boundary_before_ascii: "j < length b \<Longrightarrow> byte (b ! j) < 128 \<Longrightarrow> is_char_boundary b j"
  by (simp add: is_char_boundary_def continuation_def)

lemma scan_number_ascii: "c \<in> set (scan_number p cs) \<Longrightarrow> byte c < 128"
  by (induction p cs rule: scan_number.induct)
    (auto simp: is_ascii_digit_def split: if_split_asm)

lemma lexeme_last_ascii:
  "lexeme k w src \<Longrightarrow> k \<notin> {KWord, KParameter} \<Longrightarrow> byte (last src) < 128"
proof (cases k)
  case KNumber
  assume "lexeme k w src"
  with KNumber obtain c cs where c: "src = c # cs" "is_ascii_digit c" "scan_number c cs = cs"
    by (auto split: list.splits)
  then have "x \<in> set src \<Longrightarrow> byte x < 128" for x
    using scan_number_ascii [of x c cs] by (auto simp: is_ascii_digit_def)
  with c(1) show ?thesis by (metis last_in_set list.distinct(1))
qed (auto simp: word_start_def length_Suc_conv)

lemma takeWhile_stop_ascii:
  assumes "\<And>x. 128 \<le> byte x \<Longrightarrow> P x" "length (takeWhile P cs) < length cs"
  shows "byte (cs ! length (takeWhile P cs)) < 128"
  using nth_length_takeWhile [OF assms(2)] assms(1) [of "cs ! length (takeWhile P cs)"] by linarith

lemma scan_token_munch:
  assumes "scan_token br c cs = Some (k, w, n)" "k \<in> {KWord, KParameter}" "n < length (c # cs)"
  shows "byte ((c # cs) ! n) < 128"
proof -
  from assms(1,2) consider
      "n = Suc (length (takeWhile (parameter_byte c) cs))"
    | "n = Suc (length (takeWhile word_byte cs))"
    by (auto simp: scan_token_def Let_def split: if_split_asm)
  then show ?thesis
    using assms(3) takeWhile_stop_ascii [of "parameter_byte c" cs]
      takeWhile_stop_ascii [of word_byte cs]
    by cases (simp_all add: parameter_byte_def word_byte_def)
qed

lemma lex_step_boundary:
  assumes u: "utf8 b" and "lx_i s < length b" "lex_step b s = Inr s'"
  shows "lx_i s' \<le> length b \<and> is_char_boundary b (lx_i s')"
proof -
  have last: "lx_i s + length src \<le> length b \<and> is_char_boundary b (lx_i s + length src)"
    if "drop (lx_i s) b = src @ rest" "src \<noteq> []" "byte (last src) < 128" for src rest
  proof -
    have "lx_i s + length src \<le> length b"
      using arg_cong [OF that(1), of length] assms(2) by simp
    moreover have "drop (lx_i s) b ! (length src - 1) = last src"
      using that(1,2) by (simp add: nth_append last_conv_nth)
    then have "last src = b ! (lx_i s + length src - 1)"
      using that(2) assms(2) by (simp add: Suc_leI)
    ultimately show ?thesis
      using that boundary_after_ascii [OF u, of "lx_i s + length src"] by simp
  qed
  have nxt: "lx_i s + length src \<le> length b \<and> is_char_boundary b (lx_i s + length src)"
    if "drop (lx_i s) b = src @ rest" "rest = [] \<or> byte (hd rest) < 128" for src rest
  proof -
    have "length b = lx_i s + length src + length rest"
      using arg_cong [OF that(1), of length] assms(2) by simp
    moreover have "rest \<noteq> [] \<Longrightarrow> hd rest = b ! (lx_i s + length src)"
      using drop_append_eq [OF that(1) [symmetric]] by (simp add: hd_drop_conv_nth)
    ultimately show ?thesis
      using that(2) by (cases rest) (auto simp: is_char_boundary_def continuation_def)
  qed
  from assms(2,3) show ?thesis
  proof (cases rule: lex_step_cases)
    case (space c rest)
    with last [OF space(1)] show ?thesis by (auto simp: is_ascii_whitespace_def)
  next
    case (line body rest)
    with nxt [OF line(1)] show ?thesis by auto
  next
    case (block body rest)
    with last [OF block(1)] show ?thesis by (simp add: eval_nat_numeral)
  next
    case (token c cs br k w src rest)
    show ?thesis
    proof (cases "k \<in> {KWord, KParameter}")
      case False
      with token last [of src rest] lexeme_nonempty [OF token(4)] lexeme_last_ascii [OF token(4)]
      show ?thesis by simp
    next
      case True
      with scan_token_munch [OF token(2) True] token(3)
      have "rest = [] \<or> byte (hd rest) < 128" by (cases rest) (auto simp: nth_append)
      with token nxt [of src rest] show ?thesis by simp
    qed
  qed
qed

lemma lex_loop_boundaries:
  assumes "lex_loop b s = Inr ts" "utf8 b" "is_char_boundary b (lx_i s)"
    "\<forall>t \<in> set (lx_out s). is_char_boundary b (tok_start t) \<and> is_char_boundary b (tok_end t)"
  shows "\<forall>t \<in> set ts. is_char_boundary b (tok_start t) \<and> is_char_boundary b (tok_end t)"
  using assms
proof (induction b s rule: lex_loop.induct)
  case (1 b s)
  show ?case
  proof (cases "lx_i s < length b")
    case False
    with "1.prems" show ?thesis by (simp add: lex_loop.simps [of b s])
  next
    case True
    with "1.prems"(1) obtain s' where s': "lex_step b s = Inr s'" "lex_loop b s' = Inr ts"
      by (auto simp: lex_loop.simps [of b s] split: sum.splits)
    have bd: "is_char_boundary b (lx_i s')"
      using lex_step_boundary [OF "1.prems"(2) True s'(1)] by simp
    have "\<forall>t \<in> set (lx_out s'). is_char_boundary b (tok_start t) \<and> is_char_boundary b (tok_end t)"
      using True s'(1) by (cases rule: lex_step_cases) (use "1.prems"(3,4) bd in auto)
    from "1.IH" [OF True s' "1.prems"(2) bd this] show ?thesis .
  qed
qed

lemma lex_loop_count:
  "lex_loop b s = Inr ts \<Longrightarrow> length (lx_out s) \<le> MAX_TOKENS \<Longrightarrow> length ts \<le> MAX_TOKENS"
proof (induction b s rule: lex_loop.induct)
  case (1 b s)
  show ?case
  proof (cases "lx_i s < length b")
    case False
    with "1.prems" show ?thesis by (simp add: lex_loop.simps [of b s])
  next
    case True
    with "1.prems"(1) obtain s' where s': "lex_step b s = Inr s'" "lex_loop b s' = Inr ts"
      by (auto simp: lex_loop.simps [of b s] split: sum.splits)
    have "length (lx_out s') \<le> MAX_TOKENS"
      using True s'(1) by (cases rule: lex_step_cases) (use "1.prems"(2) in auto)
    from "1.IH" [OF True s' this] show ?thesis .
  qed
qed

section \<open>Quoting round trip\<close>

lemma scan_quote_double_quote:
  "scan_quote q True (double_quote q w @ [q]) = Some (w, length (double_quote q w) + 1)"
proof (induction w)
  case (Cons c w)
  then show ?case by (cases "double_quote q w @ [q]") auto
qed simp

lemma lex_loop_end: "length b \<le> lx_i s \<Longrightarrow> lex_loop b s = Inr (lx_out s)"
  by (simp add: lex_loop.simps)

lemma lex_loop_step: "lx_i s < length b \<Longrightarrow> lex_step b s = Inr s' \<Longrightarrow> lex_loop b s = lex_loop b s'"
  by (simp add: lex_loop.simps [of b s])

section \<open>Spans of accepted and offsets of rejected input\<close>

lemma spans_from_le: "spans_from i n ts \<Longrightarrow> i \<le> n"
  by (induction i n ts rule: spans_from.induct) auto

lemma spans_from_mem:
  "spans_from i n ts \<Longrightarrow> t \<in> set ts \<Longrightarrow> i \<le> tok_start t \<and> tok_start t < tok_end t \<and> tok_end t \<le> n"
  by (induction i n ts rule: spans_from.induct) (auto dest: spans_from_le)

lemma tokenize_spans: "tokenize b = Inr ts \<Longrightarrow> spans_from 0 (length b) ts"
  using layout_spans [OF tokenize_layout] by fastforce

lemma tokenize_lexeme:
  "tokenize b = Inr ts \<Longrightarrow> t \<in> set ts \<Longrightarrow>
   lexeme (tok_kind t) (tok_text t) (subslice b (tok_start t) (tok_end t))"
  using layout_lexeme [OF tokenize_layout] by fastforce

lemma lex_loop_error:
  "lex_loop b s = Inl e \<Longrightarrow> offset e < length b"
proof (induction b s rule: lex_loop.induct)
  case (1 b s)
  show ?case
  proof (cases "lx_i s < length b")
    case i: True
    show ?thesis
    proof (cases "lex_step b s")
      case (Inl e')
      moreover have "offset e' = lx_i s"
        using Inl by (auto simp: lex_step_def Let_def split: list.splits if_splits option.splits)
      ultimately show ?thesis using 1(2) i by (simp add: lex_loop.simps [of b s])
    next
      case (Inr s')
      then show ?thesis using 1 i by (simp add: lex_loop.simps [of b s])
    qed
  next
    case False
    then show ?thesis using 1(2) by (simp add: lex_loop.simps [of b s])
  qed
qed

lemma tokenize_error: "tokenize b = Inl e \<Longrightarrow> offset e \<le> length b"
  by (auto simp: tokenize_def split: if_splits dest: lex_loop_error)

section \<open>The delimiter nesting check\<close>

text \<open>\<open>validate_delimiter_depth\<close>, with \<open>d\<close> the local \<open>delimiters\<close>.\<close>

fun delimiter_depth :: "nat \<Rightarrow> token list \<Rightarrow> syntax_error + unit" where
  "delimiter_depth d [] = Inr ()"
| "delimiter_depth d (t # ts) =
     (if tok_kind t \<noteq> KSymbol then delimiter_depth d ts
      else if tok_text t \<in> {''('', ''['', ''{''} then
        (if 64 < d + 1
         then Inl (SyntaxError (tok_start t) ''statement delimiter nesting limit exceeded (64)'')
         else delimiter_depth (d + 1) ts)
      else if tok_text t \<in> {'')'', '']'', ''}''} then delimiter_depth (d - 1) ts
      else delimiter_depth d ts)"

definition validate_delimiter_depth :: "token list \<Rightarrow> syntax_error + unit" where
  "validate_delimiter_depth ts = delimiter_depth 0 ts"

section \<open>Properties\<close>

text \<open>C6: the tokens of an accepted input tile it. In order, the input is white space, comments
and the tokens; spans are nonempty, disjoint and inside the input; the bytes of each span spell
the token's kind and text (quotes doubled back); and no more than the token limit is kept.\<close>

theorem tokenize_tiles:
  assumes "tokenize b = Inr ts"
  shows "layout b ts 0 \<and> spans_from 0 (length b) ts \<and> length ts \<le> MAX_TOKENS \<and>
    (\<forall>t \<in> set ts. lexeme (tok_kind t) (tok_text t) (subslice b (tok_start t) (tok_end t)))"
proof -
  have l: "layout b ts 0" using assms by (rule tokenize_layout)
  have "lex_loop b lexer_init = Inr ts" using assms by (auto simp: tokenize_def split: if_splits)
  then have "length ts \<le> MAX_TOKENS" by (rule lex_loop_count) (simp add: lexer_init_def)
  with l layout_spans [OF l] layout_lexeme [OF l] show ?thesis by auto
qed

definition sample_sql :: string where
  "sample_sql = ''UPDATE t:1 PATCH [a] -- x''"

theorem tokenize_tiles_witness:
  "tokenize sample_sql \<noteq> Inr [] \<and>
   (\<exists>ts. tokenize sample_sql = Inr ts \<and> length ts = 8 \<and> spans_from 0 (length sample_sql) ts)"
proof -
  have "case tokenize sample_sql of Inl e \<Rightarrow> False | Inr ts \<Rightarrow> length ts = 8" by code_simp
  then obtain ts where ts: "tokenize sample_sql = Inr ts" "length ts = 8"
    by (auto split: sum.splits)
  with tokenize_tiles [OF ts(1)] show ?thesis by auto
qed

text \<open>C21: on well-formed UTF-8 no token starts or ends inside a multi-byte character, so the
string slices the tokenizer and its callers take at token offsets never panic.\<close>

theorem tokenize_char_boundaries:
  assumes "tokenize b = Inr ts" and "utf8 b" and "t \<in> set ts"
  shows "is_char_boundary b (tok_start t) \<and> is_char_boundary b (tok_end t)"
proof -
  have "lex_loop b lexer_init = Inr ts" using assms(1) by (auto simp: tokenize_def split: if_splits)
  from lex_loop_boundaries [OF this assms(2)] assms(3) show ?thesis
    by (auto simp: lexer_init_def is_char_boundary_def)
qed

theorem tokenize_char_boundaries_witness:
  "\<exists>ts. tokenize [CHR ''a'', CHR '' '', CHR 0xC3, CHR 0xA9, CHR ''('', CHR 0x27, CHR 0xC3, CHR 0xA9, CHR 0x27] =
       Inr ts \<and> length ts = 4 \<and>
     is_char_boundary [CHR ''a'', CHR '' '', CHR 0xC3, CHR 0xA9, CHR ''('', CHR 0x27, CHR 0xC3, CHR 0xA9, CHR 0x27]
       (tok_end (ts ! 1))"
proof -
  let ?b = "[CHR ''a'', CHR '' '', CHR 0xC3, CHR 0xA9, CHR ''('', CHR 0x27, CHR 0xC3, CHR 0xA9, CHR 0x27]"
  have "case tokenize ?b of Inl e \<Rightarrow> False | Inr ts \<Rightarrow> length ts = 4" by code_simp
  then obtain ts where ts: "tokenize ?b = Inr ts" "length ts = 4"
    by (auto split: sum.splits)
  have u: "utf8 ?b" by code_simp
  from tokenize_char_boundaries [OF ts(1) u, of "ts ! 1"] ts(2) have "is_char_boundary ?b (tok_end (ts ! 1))"
    by simp
  with ts show ?thesis by blast
qed

text \<open>C20: a string literal written with its quotes doubled is read back as one string token
with the original text, whatever bytes the text holds.\<close>

theorem tokenize_string_literal:
  assumes "length (double_quote CHR 0x27 w) + 2 \<le> MAX_INPUT_BYTES"
  shows "tokenize (CHR 0x27 # double_quote CHR 0x27 w @ [CHR 0x27]) =
    Inr [\<lparr>tok_kind = KString, tok_text = w, tok_start = 0,
          tok_end = length (double_quote CHR 0x27 w) + 2\<rparr>]"
proof -
  let ?cs = "double_quote CHR 0x27 w @ [CHR 0x27]"
  let ?b = "CHR 0x27 # ?cs"
  let ?t = "\<lparr>tok_kind = KString, tok_text = w, tok_start = 0,
     tok_end = length (double_quote CHR 0x27 w) + 2\<rparr>"
  have "lex_step ?b lexer_init = Inr (push_token ?t lexer_init)"
    by (simp add: lex_step_def lexer_init_def is_ascii_whitespace_def starts_with_def
        scan_token_def scan_quote_double_quote)
  then have "lex_loop ?b lexer_init = lex_loop ?b (push_token ?t lexer_init)"
    by (rule lex_loop_step [rotated]) (simp add: lexer_init_def)
  also have "\<dots> = Inr [?t]"
    by (subst lex_loop_end) (simp_all add: lexer_init_def)
  finally have "lex_loop ?b lexer_init = Inr [?t]" .
  then show ?thesis using assms by (simp add: tokenize_def)
qed

theorem tokenize_string_literal_witness:
  "tokenize [CHR 0x27, CHR ''a'', CHR 0x27, CHR 0x27, CHR '';'', CHR 0x27] =
     Inr [\<lparr>tok_kind = KString, tok_text = [CHR ''a'', CHR 0x27, CHR '';''], tok_start = 0, tok_end = 6\<rparr>]"
  using tokenize_string_literal [of "[CHR ''a'', CHR 0x27, CHR '';'']"] by simp

end
