(* ===== verification/Numbers.thy ===== *)
theory Numbers
  imports Prelude
begin

text \<open>
  \<open>str::parse\<close> as the parsers use it: 64-bit signed integers, unsigned integers with an upper
  bound, and \<open>f64\<close>. A double is its IEEE 754 bit pattern, a \<open>64 word\<close>; parsing computes the
  exact decimal as a fraction and rounds it to nearest, ties to even.
\<close>

section \<open>Integers\<close>

definition digit_value :: "char \<Rightarrow> nat" where
  "digit_value c = byte c - 48"

definition digits_value :: "string \<Rightarrow> nat" where
  "digits_value ds = fold (\<lambda>c n. 10 * n + digit_value c) ds 0"

definition parse_digits :: "string \<Rightarrow> nat option" where
  "parse_digits ds =
     (if ds = [] \<or> \<not> list_all is_ascii_digit ds then None else Some (digits_value ds))"

definition i64_min :: int where "i64_min = - (2 ^ 63)"

definition i64_max :: int where "i64_max = 2 ^ 63 - 1"

definition parse_i64 :: "string \<Rightarrow> int option" where
  "parse_i64 s =
     (let negative = starts_with ''-'' s;
          ds = (if negative \<or> starts_with ''+'' s then drop 1 s else s)
      in case parse_digits ds of
           None \<Rightarrow> None
         | Some n \<Rightarrow>
             let v = (if negative then - int n else int n)
             in if i64_min \<le> v \<and> v \<le> i64_max then Some v else None)"

text \<open>\<open>u32\<close> and \<open>usize\<close>, with \<open>limit\<close> the largest value of the type.\<close>

definition parse_unsigned :: "nat \<Rightarrow> string \<Rightarrow> nat option" where
  "parse_unsigned limit s =
     (case parse_digits (if starts_with ''+'' s then drop 1 s else s) of
        None \<Rightarrow> None
      | Some n \<Rightarrow> if n \<le> limit then Some n else None)"

definition u32_max :: nat where "u32_max = 2 ^ 32 - 1"

definition usize_max :: nat where "usize_max = 2 ^ 64 - 1"

lemma parse_i64_range: "parse_i64 s = Some v \<Longrightarrow> i64_min \<le> v \<and> v \<le> i64_max"
  by (auto simp: parse_i64_def Let_def split: option.splits if_splits)

lemma parse_unsigned_limit: "parse_unsigned limit s = Some n \<Longrightarrow> n \<le> limit"
  by (auto simp: parse_unsigned_def split: option.splits if_splits)

section \<open>Decimal output\<close>

fun show_nat :: "nat \<Rightarrow> string" where
  "show_nat n = (if n < 10 then [char_of (48 + n)] else show_nat (n div 10) @ [char_of (48 + n mod 10)])"

declare show_nat.simps [simp del]

definition show_int :: "int \<Rightarrow> string" where
  "show_int i = (if i < 0 then CHR ''-'' # show_nat (nat (- i)) else show_nat (nat i))"

lemma digit_char [simp]:
  "d < 10 \<Longrightarrow> is_ascii_digit (char_of (48 + d))"
  "d < 10 \<Longrightarrow> digit_value (char_of (48 + d)) = d"
  by (simp_all add: is_ascii_digit_def digit_value_def)

lemma show_nat_nonempty [simp]: "show_nat n \<noteq> []"
  by (subst show_nat.simps) simp

lemma show_nat_digits [simp]: "list_all is_ascii_digit (show_nat n)"
  by (induction n rule: show_nat.induct) (subst show_nat.simps, simp)

lemma digits_value_show [simp]: "digits_value (show_nat n) = n"
proof (induction n rule: show_nat.induct)
  case (1 n)
  then show ?case by (subst show_nat.simps) (auto simp: digits_value_def)
qed

lemma show_nat_hd: "hd (show_nat n) \<noteq> CHR ''-'' \<and> hd (show_nat n) \<noteq> CHR ''+''"
proof -
  have "is_ascii_digit (hd (show_nat n))"
    using show_nat_digits [of n] show_nat_nonempty [of n] by (cases "show_nat n") auto
  then show ?thesis by (auto simp: is_ascii_digit_def)
qed

lemma parse_i64_show_int:
  assumes "i64_min \<le> i" "i \<le> i64_max"
  shows "parse_i64 (show_int i) = Some i"
proof (cases "i < 0")
  case True
  then show ?thesis
    using assms by (simp add: show_int_def parse_i64_def starts_with_def parse_digits_def)
next
  case False
  obtain c cs where c: "show_nat (nat i) = c # cs" by (cases "show_nat (nat i)") auto
  then show ?thesis
    using False assms show_nat_hd [of "nat i"] show_nat_digits [of "nat i"] digits_value_show [of "nat i"]
    by (simp add: show_int_def parse_i64_def starts_with_def parse_digits_def)
qed

section \<open>Doubles\<close>

fun bit_length :: "nat \<Rightarrow> nat" where
  "bit_length n = (if n = 0 then 0 else Suc (bit_length (n div 2)))"

declare bit_length.simps [simp del]

definition f64_infinity :: nat where "f64_infinity = 2047 * 2 ^ 52"

text \<open>
  The bits of the double nearest to \<open>n / d\<close>. \<open>k\<close> is the exponent of the leading bit, \<open>t\<close> the
  exponent of the last bit of the significand, never below that of the subnormals. The significand
  \<open>q\<close> carries its leading bit, so a carry out of the rounding moves to the next exponent.
\<close>

definition round_f64 :: "nat \<Rightarrow> nat \<Rightarrow> nat" where
  "round_f64 n d =
     (if n = 0 then 0 else
      let k0 = int (bit_length n) - int (bit_length d);
          k = (if n * 2 ^ nat (- k0) < d * 2 ^ nat k0 then k0 - 1 else k0);
          t = max (k - 52) (- 1074);
          num = n * 2 ^ nat (- t);
          den = d * 2 ^ nat t;
          q = num div den;
          r = num mod den;
          q' = (if den < 2 * r \<or> 2 * r = den \<and> odd q then q + 1 else q)
      in min f64_infinity (nat (t + 1074) * 2 ^ 52 + q'))"

definition f64_of :: "bool \<Rightarrow> nat \<Rightarrow> nat \<Rightarrow> 64 word" where
  "f64_of negative n d = word_of_nat ((if negative then 2 ^ 63 else 0) + round_f64 n d)"

definition f64_exponent :: "64 word \<Rightarrow> nat" where
  "f64_exponent w = unat w div 2 ^ 52 mod 2048"

definition is_finite :: "64 word \<Rightarrow> bool" where
  "is_finite w \<longleftrightarrow> f64_exponent w \<noteq> 2047"

text \<open>
  Rust's decimal grammar: an optional sign, digits with an optional point and at least one digit
  in all, then an optional exponent with digits of its own. The words \<open>inf\<close> and \<open>nan\<close>, which
  the grammar also has, start with a letter and are no number token.
\<close>

definition parse_exponent :: "string \<Rightarrow> int option" where
  "parse_exponent s =
     (case s of
        [] \<Rightarrow> Some 0
      | c # cs \<Rightarrow>
          if c \<noteq> CHR ''e'' \<and> c \<noteq> CHR ''E'' then None
          else let negative = starts_with ''-'' cs;
                   ds = (if negative \<or> starts_with ''+'' cs then drop 1 cs else cs)
               in map_option (\<lambda>n. if negative then - int n else int n) (parse_digits ds))"

definition parse_f64 :: "string \<Rightarrow> (64 word) option" where
  "parse_f64 s =
     (let negative = starts_with ''-'' s;
          u = (if negative \<or> starts_with ''+'' s then drop 1 s else s);
          whole = takeWhile is_ascii_digit u;
          r1 = dropWhile is_ascii_digit u;
          fraction = (if starts_with ''.'' r1 then takeWhile is_ascii_digit (drop 1 r1) else []);
          r2 = (if starts_with ''.'' r1 then dropWhile is_ascii_digit (drop 1 r1) else r1)
      in if whole @ fraction = [] then None
         else map_option
           (\<lambda>x. let e = x - int (length fraction); n = digits_value (whole @ fraction)
                in f64_of negative (n * 10 ^ nat e) (10 ^ nat (- e)))
           (parse_exponent r2))"

end
