(* ===== verification/Ordered_Map.thy ===== *)
theory Ordered_Map
  imports Prelude
begin

text \<open>
  Rust's \<open>BTreeMap\<close>, the representation of every object of the frontend (\<open>Expr::Object\<close>,
  \<open>Value::Object\<close>). A map is the list of its entries in iteration order, which is the order of
  the keys. The locale states the contract the clients rely on (lookup after insert and remove,
  sorted iteration, extensionality); the interpretation discharges it for the sorted list.
\<close>

section \<open>Entries sorted by key\<close>

type_synonym ('k, 'v) btree_map = "('k \<times> 'v) list"

definition bm_get :: "'k \<Rightarrow> ('k, 'v) btree_map \<Rightarrow> 'v option" where
  "bm_get k m = map_of m k"

lemma bm_get_simps [simp]:
  "bm_get q [] = None"
  "bm_get q (e # m) = (if q = fst e then Some (snd e) else bm_get q m)"
  by (cases e, auto simp: bm_get_def)+

fun bm_insert :: "'k::linorder \<Rightarrow> 'v \<Rightarrow> ('k, 'v) btree_map \<Rightarrow> ('k, 'v) btree_map" where
  "bm_insert k v [] = [(k, v)]"
| "bm_insert k v ((k', v') # m) =
     (if k < k' then (k, v) # (k', v') # m
      else if k = k' then (k, v) # m
      else (k', v') # bm_insert k v m)"

definition bm_remove :: "'k \<Rightarrow> ('k, 'v) btree_map \<Rightarrow> ('k, 'v) btree_map" where
  "bm_remove k m = filter (\<lambda>e. fst e \<noteq> k) m"

definition bm_contains :: "'k \<Rightarrow> ('k, 'v) btree_map \<Rightarrow> bool" where
  "bm_contains k m \<longleftrightarrow> k \<in> set (map fst m)"

definition bm_wf :: "('k::linorder, 'v) btree_map \<Rightarrow> bool" where
  "bm_wf m \<longleftrightarrow> sorted_wrt (<) (map fst m)"

lemma bm_wf_Nil [simp]: "bm_wf []"
  by (simp add: bm_wf_def)

lemma bm_wf_Cons: "bm_wf (e # m) \<longleftrightarrow> (\<forall>k \<in> fst ` set m. fst e < k) \<and> bm_wf m"
  by (auto simp: bm_wf_def)

lemma keys_bm_insert [simp]: "fst ` set (bm_insert k v m) = insert k (fst ` set m)"
  by (induction k v m rule: bm_insert.induct) auto

lemma values_bm_insert: "snd ` set (bm_insert k v m) \<subseteq> insert v (snd ` set m)"
  by (induction k v m rule: bm_insert.induct) auto

lemma bm_insert_set: "e \<in> set (bm_insert k v m) \<Longrightarrow> e = (k, v) \<or> e \<in> set m"
  by (induction k v m rule: bm_insert.induct) (auto split: if_splits)

lemma bm_wf_insert [intro]: "bm_wf m \<Longrightarrow> bm_wf (bm_insert k v m)"
  by (induction k v m rule: bm_insert.induct) (auto simp: bm_wf_Cons)

lemma bm_wf_remove [intro]: "bm_wf m \<Longrightarrow> bm_wf (bm_remove k m)"
  by (induction m) (auto simp: bm_wf_Cons bm_remove_def)

lemma bm_get_None: "bm_get k m = None \<longleftrightarrow> k \<notin> fst ` set m"
  by (simp add: bm_get_def map_of_eq_None_iff)

lemma bm_get_SomeD: "bm_get k m = Some v \<Longrightarrow> (k, v) \<in> set m"
  by (simp add: bm_get_def map_of_SomeD)

lemma bm_get_insert [simp]: "bm_get q (bm_insert k v m) = (if q = k then Some v else bm_get q m)"
  by (induction k v m rule: bm_insert.induct) (auto simp: bm_get_def)

lemma bm_get_remove [simp]: "bm_get q (bm_remove k m) = (if q = k then None else bm_get q m)"
  by (induction m) (auto simp: bm_get_def bm_remove_def)

lemma bm_wf_distinct: "bm_wf m \<Longrightarrow> distinct (map fst m)"
  by (induction m) (auto simp: bm_wf_Cons)

lemma bm_get_mem: "bm_wf m \<Longrightarrow> (k, v) \<in> set m \<Longrightarrow> bm_get k m = Some v"
  by (simp add: bm_get_def bm_wf_distinct)

lemma bm_contains_iff: "bm_contains k m \<longleftrightarrow> bm_get k m \<noteq> None"
  by (simp add: bm_contains_def bm_get_None)

lemma bm_get_min: "bm_wf ((k, v) # m) \<Longrightarrow> q < k \<Longrightarrow> bm_get q ((k, v) # m) = None"
  by (auto simp: bm_get_None bm_wf_Cons)

lemma bm_ext: "bm_wf m \<Longrightarrow> bm_wf n \<Longrightarrow> (\<And>k. bm_get k m = bm_get k n) \<Longrightarrow> m = n"
proof (induction m arbitrary: n)
  case Nil
  then show ?case using Nil.prems(3) [of "fst (hd n)"] by (cases n) (auto simp: bm_get_def)
next
  case (Cons e m)
  obtain k v where e: "e = (k, v)" by force
  have "bm_get k n = Some v" using Cons.prems(3) [of k] by (simp add: bm_get_def e)
  then obtain k' v' n' where n: "n = (k', v') # n'" by (cases n) (auto simp: bm_get_def)
  have "\<not> k < k'" using bm_get_min [of k' v' n' k] Cons.prems(2) \<open>bm_get k n = Some v\<close>
    by (auto simp: n)
  moreover have "\<not> k' < k"
    using bm_get_min [of k v m k'] Cons.prems(1) Cons.prems(3) [of k'] by (auto simp: n e bm_get_def)
  ultimately have k: "k' = k" by simp
  then have v: "v' = v" using \<open>bm_get k n = Some v\<close> by (simp add: n bm_get_def)
  have "bm_get q m = bm_get q n'" for q
  proof (cases "q = k")
    case True
    then have "k \<notin> fst ` set m" "k \<notin> fst ` set n'"
      using Cons.prems(1,2) by (auto simp: n e k bm_wf_Cons)
    then show ?thesis using True by (simp add: bm_get_None [symmetric])
  next
    case False
    then show ?thesis using Cons.prems(3) [of q] by (simp add: n e k bm_get_def)
  qed
  then have "m = n'" using Cons.IH [of n'] Cons.prems(1,2) by (auto simp: n bm_wf_Cons)
  then show ?case by (simp add: n e k v)
qed

section \<open>The contract\<close>

locale ordered_map =
  fixes get :: "'k::linorder \<Rightarrow> 'm \<Rightarrow> 'v option"
    and ins :: "'k \<Rightarrow> 'v \<Rightarrow> 'm \<Rightarrow> 'm"
    and rem :: "'k \<Rightarrow> 'm \<Rightarrow> 'm"
    and wf :: "'m \<Rightarrow> bool"
  assumes get_ins: "wf m \<Longrightarrow> get q (ins k v m) = (if q = k then Some v else get q m)"
    and get_rem: "wf m \<Longrightarrow> get q (rem k m) = (if q = k then None else get q m)"
    and wf_ins: "wf m \<Longrightarrow> wf (ins k v m)"
    and wf_rem: "wf m \<Longrightarrow> wf (rem k m)"
    and ext: "wf m \<Longrightarrow> wf n \<Longrightarrow> (\<And>k. get k m = get k n) \<Longrightarrow> m = n"
begin

lemma ins_same: "wf m \<Longrightarrow> ins k v (ins k w m) = ins k v m"
  by (rule ext) (simp_all add: wf_ins get_ins)

lemma ins_commute: "wf m \<Longrightarrow> j \<noteq> k \<Longrightarrow> ins j v (ins k w m) = ins k w (ins j v m)"
  by (rule ext) (simp_all add: wf_ins get_ins)

lemma ins_present: "wf m \<Longrightarrow> get k m = Some v \<Longrightarrow> ins k v m = m"
  by (rule ext) (simp_all add: wf_ins get_ins)

lemma rem_absent: "wf m \<Longrightarrow> get k m = None \<Longrightarrow> rem k m = m"
  by (rule ext) (simp_all add: wf_rem get_rem)

lemma rem_ins: "wf m \<Longrightarrow> rem k (ins k v m) = rem k m"
  by (rule ext) (simp_all add: wf_rem wf_ins get_rem get_ins)

lemma ins_rem: "wf m \<Longrightarrow> ins k v (rem k m) = ins k v m"
  by (rule ext) (simp_all add: wf_rem wf_ins get_rem get_ins)

end

interpretation bm: ordered_map bm_get bm_insert bm_remove bm_wf
  by unfold_locales (auto intro: bm_ext)

end
