(* ===== verification/Parser_State.thy ===== *)
theory Parser_State
  imports Tokens Numbers Ordered_Map
begin

text \<open>
  The recursive-descent parser of \<open>fastdb/parser/src/lib.rs\<close>: its state, its primitives and the
  shared clauses (\<open>name\<close>, \<open>path\<close>, \<open>record\<close>, \<open>returning\<close>, \<open>predicate\<close>).

  A method of \<open>Parser\<close> is a function from the state to \<open>None\<close> (the loops ran out of fuel),
  a syntax error, or a result with the next state; \<open>bnd\<close> is \<open>?\<close> followed by the rest.
  Loops take fuel, the number of tokens left plus one. \<open>wp m Q p\<close> says that \<open>m\<close> started in
  \<open>p\<close> returns, that an error it reports lies inside the input, and that a result satisfies
  \<open>Q\<close>; so a lemma about \<open>wp\<close> is a total correctness statement and shows the fuel suffices.
\<close>

section \<open>Data\<close>

datatype key = KeyInteger int | KeyString string

record record_ref =
  rec_table :: string
  rec_key :: key

datatype expr =
    ECase "expr option" "(expr \<times> expr) list" "expr option"
  | ECall string "expr list"
  | EField "string list"
  | EUnary string expr
  | EBinary expr string expr
  | ENull
  | EBoolean bool
  | EInteger int
  | ENumber "64 word"
  | EString string
  | ERecord record_ref
  | EParameter string
  | EObject "(string \<times> expr) list"
  | EArray "expr list"

definition max_or_zero :: "nat list \<Rightarrow> nat" where
  "max_or_zero hs = fold max hs 0"

fun height :: "expr \<Rightarrow> nat" where
  "height (ECall f args) = Suc (max_or_zero (map height args))"
| "height (EArray args) = Suc (max_or_zero (map height args))"
| "height (EObject fs) = Suc (max_or_zero (map (\<lambda>f. height (snd f)) fs))"
| "height (EUnary op arg) = Suc (height arg)"
| "height (EBinary a op b) = Suc (max (height a) (height b))"
| "height (ECase base branches fallback) =
     Suc (max_or_zero
       ((case base of None \<Rightarrow> [] | Some e \<Rightarrow> [height e]) @
        (case fallback of None \<Rightarrow> [] | Some e \<Rightarrow> [height e]) @
        map (\<lambda>b. max (height (fst b)) (height (snd b))) branches))"
| "height e = 1"

record pstate =
  ps_input :: string
  ps_tokens :: "token list"
  ps_pos :: nat

type_synonym 'a parser = "pstate \<Rightarrow> (syntax_error + 'a \<times> pstate) option"

section \<open>Combinators\<close>

definition ret :: "'a \<Rightarrow> 'a parser" where
  "ret x p = Some (Inr (x, p))"

definition bnd :: "'a parser \<Rightarrow> ('a \<Rightarrow> 'b parser) \<Rightarrow> 'b parser" where
  "bnd m f p =
     (case m p of
        None \<Rightarrow> None
      | Some (Inl e) \<Rightarrow> Some (Inl e)
      | Some (Inr (x, p')) \<Rightarrow> f x p')"

definition out_of_fuel :: "'a parser" where
  "out_of_fuel p = None"

definition token_at :: "pstate \<Rightarrow> nat \<Rightarrow> token option" where
  "token_at p i = (if i < length (ps_tokens p) then Some (ps_tokens p ! i) else None)"

definition perror :: "string \<Rightarrow> pstate \<Rightarrow> syntax_error" where
  "perror msg p =
     SyntaxError
       (case token_at p (ps_pos p) of None \<Rightarrow> length (ps_input p) | Some t \<Rightarrow> tok_start t) msg"

definition fail :: "string \<Rightarrow> 'a parser" where
  "fail msg p = Some (Inl (perror msg p))"

definition advance :: "nat \<Rightarrow> unit parser" where
  "advance n p = Some (Inr ((), p\<lparr>ps_pos := ps_pos p + n\<rparr>))"

definition set_pos :: "nat \<Rightarrow> unit parser" where
  "set_pos n p = Some (Inr ((), p\<lparr>ps_pos := n\<rparr>))"

text \<open>\<open>get\<close> reads the whole state, \<open>peek n\<close> is \<open>tokens.get(pos + n)\<close>.\<close>

definition get_state :: "pstate parser" where
  "get_state p = Some (Inr (p, p))"

definition peek :: "nat \<Rightarrow> token option parser" where
  "peek n p = Some (Inr (token_at p (ps_pos p + n), p))"

definition has_text :: "string \<Rightarrow> token option \<Rightarrow> bool" where
  "has_text w t \<longleftrightarrow> (case t of None \<Rightarrow> False | Some t \<Rightarrow> tok_text t = w)"

definition is_word :: "string \<Rightarrow> token option \<Rightarrow> bool" where
  "is_word w t \<longleftrightarrow>
     (case t of None \<Rightarrow> False | Some t \<Rightarrow> tok_kind t = KWord \<and> eq_ignore_ascii_case (tok_text t) w)"

definition eats_token :: "string \<Rightarrow> pstate \<Rightarrow> bool" where
  "eats_token w p \<longleftrightarrow>
     (case token_at p (ps_pos p) of
        None \<Rightarrow> False
      | Some t \<Rightarrow> (tok_kind t = KWord \<or> tok_kind t = KSymbol) \<and> eq_ignore_ascii_case (tok_text t) w)"

definition eat :: "string \<Rightarrow> bool parser" where
  "eat w p =
     (if eats_token w p then Some (Inr (True, p\<lparr>ps_pos := ps_pos p + 1\<rparr>))
      else Some (Inr (False, p)))"

text \<open>\<open>p.eat(a) && p.eat(b) && ...\<close>: stops at the first failure and keeps what it consumed.\<close>

fun eats :: "string list \<Rightarrow> bool parser" where
  "eats [] = ret True"
| "eats (w # ws) = bnd (eat w) (\<lambda>b. if b then eats ws else ret False)"

text \<open>\<open>if !p.eat(w) \{ return Err(p.error(msg)) \}\<close>.\<close>

definition expect :: "string \<Rightarrow> string \<Rightarrow> unit parser" where
  "expect w msg = bnd (eat w) (\<lambda>b. if b then ret () else fail msg)"

definition fuel_of :: "pstate \<Rightarrow> nat" where
  "fuel_of p = Suc (length (ps_tokens p) - ps_pos p)"

definition with_fuel :: "(nat \<Rightarrow> 'a parser) \<Rightarrow> 'a parser" where
  "with_fuel m p = m (fuel_of p) p"

section \<open>Shared clauses\<close>

definition name :: "string parser" where
  "name = bnd (peek 0) (\<lambda>t.
     case t of
       None \<Rightarrow> fail ''expected name''
     | Some t \<Rightarrow>
         if tok_kind t \<noteq> KWord \<and> tok_kind t \<noteq> KIdentifier then fail ''expected name''
         else bnd (advance 1) (\<lambda>_. ret (tok_text t)))"

definition function_name :: "string parser" where
  "function_name = bnd name (\<lambda>namespace.
     bnd (eats ['':'', '':'']) (\<lambda>b.
     if \<not> b then fail ''expected namespace::function''
     else bnd name (\<lambda>n. ret (to_ascii_lowercase (namespace @ ''::'' @ n)))))"

definition function_type :: "string parser" where
  "function_type = bnd name (\<lambda>n.
     bnd (peek 0) (\<lambda>t.
     if has_text ''?'' t then bnd (advance 1) (\<lambda>_. ret (to_ascii_lowercase n @ ''?''))
     else ret (to_ascii_lowercase n)))"

definition at_end :: "bool parser" where
  "at_end = bnd (eat '';'') (\<lambda>_. bnd get_state (\<lambda>p. ret (ps_pos p = length (ps_tokens p))))"

definition is_symbol :: "string \<Rightarrow> token \<Rightarrow> bool" where
  "is_symbol w t \<longleftrightarrow> tok_kind t = KSymbol \<and> tok_text t = w"

text \<open>The \<open>end\<close> both clauses start from: the token count less a closing semicolon.\<close>

definition clause_end :: "pstate \<Rightarrow> nat" where
  "clause_end p =
     (let n = length (ps_tokens p)
      in if ps_pos p < n \<and> is_symbol '';'' (ps_tokens p ! (n - 1)) then n - 1 else n)"

definition finish_clause :: "string option \<Rightarrow> string option parser" where
  "finish_clause projection =
     bnd at_end (\<lambda>b. if b then ret projection else fail ''unexpected trailing syntax'')"

definition returning :: "string option parser" where
  "returning = bnd (eat ''RETURNING'') (\<lambda>b.
     if \<not> b then finish_clause None
     else bnd (peek 0) (\<lambda>t.
       case t of
         None \<Rightarrow> fail ''expected RETURNING projection''
       | Some t \<Rightarrow> bnd get_state (\<lambda>p.
           let e = clause_end p in
           if e \<le> ps_pos p \<or> list_ex (is_symbol '';'') (subslice (ps_tokens p) (ps_pos p) e)
           then fail ''expected one RETURNING projection list''
           else bnd (set_pos e) (\<lambda>_.
             finish_clause (Some (subslice (ps_input p) (tok_start t) (tok_end (ps_tokens p ! (e - 1)))))))))"

text \<open>
  The scan for \<open>RETURNING\<close> at delimiter depth 0 in \<open>predicate\<close>, over the tokens from index
  \<open>i\<close> on; \<open>first\<close> is the parser position. It returns the index where the loop breaks, or the
  end of the list.
\<close>

fun predicate_end :: "nat \<Rightarrow> int \<Rightarrow> nat \<Rightarrow> token list \<Rightarrow> nat" where
  "predicate_end first depth i [] = i"
| "predicate_end first depth i (t # ts) =
     (let depth' =
        (if tok_kind t = KSymbol then
           (if tok_text t \<in> {''('', ''['', ''{''} then depth + 1
            else if tok_text t \<in> {'')'', '']'', ''}''} then depth - 1 else depth)
         else depth)
      in if depth' = 0 \<and> first < i \<and> tok_kind t = KWord \<and>
            eq_ignore_ascii_case (tok_text t) ''RETURNING''
         then i else predicate_end first depth' (i + 1) ts)"

definition predicate_stop :: "pstate \<Rightarrow> nat" where
  "predicate_stop p =
     predicate_end (ps_pos p) 0 (ps_pos p) (subslice (ps_tokens p) (ps_pos p) (clause_end p))"

definition predicate :: "string option parser" where
  "predicate = bnd (eat ''WHERE'') (\<lambda>b.
     if \<not> b then ret None
     else bnd (peek 0) (\<lambda>t.
       case t of
         None \<Rightarrow> fail ''expected WHERE predicate''
       | Some t \<Rightarrow> bnd get_state (\<lambda>p.
           let e = predicate_stop p
           in if e \<le> ps_pos p then fail ''expected WHERE predicate''
              else bnd (set_pos e) (\<lambda>_.
                ret (Some (subslice (ps_input p) (tok_start t) (tok_end (ps_tokens p ! (e - 1)))))))))"

text \<open>\<open>while self.eat(".") \{ path.push(self.name()?) \}\<close>.\<close>

fun path_loop :: "nat \<Rightarrow> string list \<Rightarrow> string list parser" where
  "path_loop 0 path = out_of_fuel"
| "path_loop (Suc n) path = bnd (eat ''.'') (\<lambda>b.
     if b then bnd name (\<lambda>x. path_loop n (path @ [x])) else ret path)"

definition path :: "string list parser" where
  "path = bnd name (\<lambda>x. with_fuel (\<lambda>n. path_loop n [x]))"

definition starts_backtick :: "pstate \<Rightarrow> token \<Rightarrow> bool" where
  "starts_backtick p t \<longleftrightarrow> ps_input p ! tok_start t = CHR 0x60"

definition record_key :: "bool \<Rightarrow> bool \<Rightarrow> token \<Rightarrow> key parser" where
  "record_key negative positive t = bnd get_state (\<lambda>p.
     case tok_kind t of
       KNumber \<Rightarrow>
         (case parse_i64 (if negative then ''-'' @ tok_text t else tok_text t) of
            None \<Rightarrow> fail ''record integer key must fit int64''
          | Some k \<Rightarrow> ret (KeyInteger k))
     | KWord \<Rightarrow>
         if \<not> negative \<and> \<not> positive \<and>
            list_all (\<lambda>c. is_ascii_alphanumeric c \<or> c = CHR ''_'') (tok_text t)
         then ret (KeyString (tok_text t)) else fail ''invalid record key''
     | KIdentifier \<Rightarrow>
         if \<not> negative \<and> \<not> positive \<and> starts_backtick p t \<and> tok_text t \<noteq> ''''
         then ret (KeyString (tok_text t)) else fail ''invalid record key''
     | _ \<Rightarrow> fail ''invalid record key'')"

text \<open>The key of a record once the colon, which ends at \<open>colon_end\<close>, has been read.\<close>

definition record_after_colon :: "string \<Rightarrow> nat \<Rightarrow> record_ref parser" where
  "record_after_colon table colon_end = bnd (peek 0) (\<lambda>t.
     case t of
       None \<Rightarrow> fail ''expected record key''
     | Some t \<Rightarrow>
         if tok_start t \<noteq> colon_end then fail ''record key must touch colon''
         else bnd (eat ''-'') (\<lambda>negative.
           bnd (if negative then ret False else eat ''+'') (\<lambda>positive.
           bnd (peek 0) (\<lambda>t.
           case t of
             None \<Rightarrow> fail ''expected key''
           | Some t \<Rightarrow>
               if (negative \<or> positive) \<and> tok_start t \<noteq> colon_end + 1
               then fail ''expected adjacent integer key''
               else bnd (record_key negative positive t) (\<lambda>key.
                 bnd (advance 1) (\<lambda>_.
                 ret \<lparr>rec_table = to_ascii_lowercase table, rec_key = key\<rparr>))))))"

definition record_target :: "record_ref parser" where
  "record_target = bnd get_state (\<lambda>p0.
     bnd name (\<lambda>table.
     let table_token = ps_tokens p0 ! ps_pos p0 in
     if tok_kind table_token = KIdentifier \<and> \<not> starts_backtick p0 table_token
     then fail ''record targets use bare or backtick names''
     else bnd (peek 0) (\<lambda>t.
       if (case t of None \<Rightarrow> True | Some t \<Rightarrow> tok_start t \<noteq> tok_end table_token)
       then fail ''expected adjacent record colon''
       else bnd (expect '':'' ''expected adjacent record colon'') (\<lambda>_.
         bnd get_state (\<lambda>p.
         record_after_colon table (tok_end (ps_tokens p ! (ps_pos p - 1))))))))"

section \<open>Total correctness of parsers\<close>

text \<open>
  \<open>src\<close> is the state the parser started from: no method changes the input or the tokens.
\<close>

definition wf_token :: "string \<Rightarrow> token \<Rightarrow> bool" where
  "wf_token inp t \<longleftrightarrow>
     tok_start t < length inp \<and> (tok_kind t = KWord \<longrightarrow> tok_text t \<noteq> [])"

definition wf_pstate :: "pstate \<Rightarrow> pstate \<Rightarrow> bool" where
  "wf_pstate src p \<longleftrightarrow>
     ps_input p = ps_input src \<and> ps_tokens p = ps_tokens src \<and>
     ps_pos p \<le> length (ps_tokens src) \<and> (\<forall>t \<in> set (ps_tokens src). wf_token (ps_input src) t)"

definition wp :: "pstate \<Rightarrow> 'a parser \<Rightarrow> ('a \<Rightarrow> pstate \<Rightarrow> bool) \<Rightarrow> pstate \<Rightarrow> bool" where
  "wp src m Q p \<longleftrightarrow>
     (case m p of
        None \<Rightarrow> False
      | Some (Inl e) \<Rightarrow> offset e \<le> length (ps_input src)
      | Some (Inr (x, p')) \<Rightarrow> Q x p')"

definition good :: "('a \<Rightarrow> bool) \<Rightarrow> 'a parser \<Rightarrow> bool" where
  "good R m \<longleftrightarrow>
     (\<forall>src p. wf_pstate src p \<longrightarrow>
        wp src m (\<lambda>x p'. wf_pstate src p' \<and> ps_pos p \<le> ps_pos p' \<and> R x) p)"

named_theorems wp_rules

lemma wp_ret [simp]: "wp src (ret x) Q p \<longleftrightarrow> Q x p"
  by (simp add: wp_def ret_def)

lemma wp_bnd [simp]: "wp src (bnd m f) Q p \<longleftrightarrow> wp src m (\<lambda>x. wp src (f x) Q) p"
  by (auto simp: wp_def bnd_def split: option.splits sum.splits)

lemma wp_advance [simp]: "wp src (advance k) Q p \<longleftrightarrow> Q () (p\<lparr>ps_pos := ps_pos p + k\<rparr>)"
  by (simp add: wp_def advance_def)

lemma wp_set_pos [simp]: "wp src (set_pos k) Q p \<longleftrightarrow> Q () (p\<lparr>ps_pos := k\<rparr>)"
  by (simp add: wp_def set_pos_def)

lemma wp_get_state [simp]: "wp src get_state Q p \<longleftrightarrow> Q p p"
  by (simp add: wp_def get_state_def)

lemma wp_mono: "wp src m Q p \<Longrightarrow> (\<And>x p'. Q x p' \<Longrightarrow> Q' x p') \<Longrightarrow> wp src m Q' p"
  by (auto simp: wp_def split: option.splits sum.splits)

lemma wf_pos [simp]:
  "wf_pstate src p \<Longrightarrow> k \<le> length (ps_tokens src) \<Longrightarrow> wf_pstate src (p\<lparr>ps_pos := k\<rparr>)"
  by (simp add: wf_pstate_def)

lemma wf_pos_le: "wf_pstate src p \<Longrightarrow> ps_pos p \<le> length (ps_tokens src)"
  by (simp add: wf_pstate_def)

lemma wf_tokens: "wf_pstate src p \<Longrightarrow> ps_tokens p = ps_tokens src"
  by (simp add: wf_pstate_def)

lemma wf_input: "wf_pstate src p \<Longrightarrow> ps_input p = ps_input src"
  by (simp add: wf_pstate_def)

lemma wp_fail [wp_rules]: "wf_pstate src p \<Longrightarrow> wp src (fail msg) Q p"
  by (auto simp: wp_def fail_def perror_def wf_pstate_def wf_token_def token_at_def less_imp_le
      split: option.splits)

lemma token_at_Some: "token_at p i = Some t \<Longrightarrow> i < length (ps_tokens p)"
  by (auto simp: token_at_def split: if_splits)

lemma token_at_pos:
  "wf_pstate src p \<Longrightarrow> token_at p (ps_pos p + k) = Some t \<Longrightarrow> ps_pos p + k < length (ps_tokens src)"
  by (auto simp: wf_pstate_def dest: token_at_Some)

lemma wp_peek [wp_rules]:
  assumes "wf_pstate src p" and "Q None p"
    and "\<And>t. ps_pos p + k < length (ps_tokens src) \<Longrightarrow> wf_token (ps_input src) t \<Longrightarrow> Q (Some t) p"
  shows "wp src (peek k) Q p"
proof (cases "token_at p (ps_pos p + k)")
  case None
  then show ?thesis using assms(2) by (simp add: wp_def peek_def)
next
  case (Some t)
  then have "t \<in> set (ps_tokens src)"
    by (auto simp: token_at_def wf_tokens [OF assms(1)] split: if_splits)
  then have "wf_token (ps_input src) t" using assms(1) by (simp add: wf_pstate_def)
  then show ?thesis using assms(3) [OF token_at_pos [OF assms(1) Some]] Some
    by (simp add: wp_def peek_def)
qed

lemma has_text_simps [simp]:
  "has_text w None = False" "has_text w (Some t) = (tok_text t = w)"
  by (simp_all add: has_text_def)

lemma is_word_simps [simp]:
  "is_word w None = False"
  "is_word w (Some t) = (tok_kind t = KWord \<and> eq_ignore_ascii_case (tok_text t) w)"
  by (simp_all add: is_word_def)

lemma wp_eat [wp_rules]:
  assumes "wf_pstate src p"
    and "\<And>p'. wf_pstate src p' \<Longrightarrow> ps_pos p' = Suc (ps_pos p) \<Longrightarrow> Q True p'"
    and "Q False p"
  shows "wp src (eat w) Q p"
proof (cases "eats_token w p")
  case True
  then have "ps_pos p < length (ps_tokens src)" using assms(1)
    by (auto simp: eats_token_def wf_pstate_def dest: token_at_Some split: option.splits)
  then show ?thesis using assms(1,2) True by (simp add: wp_def eat_def)
next
  case False
  then show ?thesis using assms(3) by (simp add: wp_def eat_def)
qed

lemma wp_expect [wp_rules]:
  assumes "wf_pstate src p"
    and "\<And>p'. wf_pstate src p' \<Longrightarrow> ps_pos p' = Suc (ps_pos p) \<Longrightarrow> Q () p'"
  shows "wp src (expect w msg) Q p"
  unfolding expect_def using assms by (auto intro!: wp_rules)

lemma wp_eats [wp_rules]:
  assumes "wf_pstate src p"
    and "\<And>b p'. wf_pstate src p' \<Longrightarrow> ps_pos p \<le> ps_pos p' \<Longrightarrow> Q b p'"
  shows "wp src (eats ws) Q p"
  using assms
proof (induction ws arbitrary: p)
  case (Cons w ws)
  have "wp src (eats ws) Q p'" if "wf_pstate src p'" "ps_pos p' = Suc (ps_pos p)" for p'
    using that Cons.prems(2) by (intro Cons.IH) auto
  then show ?case using Cons.prems by (auto intro!: wp_rules)
qed simp

lemma goodD:
  assumes "good R m" and "wf_pstate src p"
    and "\<And>x p'. wf_pstate src p' \<Longrightarrow> ps_pos p \<le> ps_pos p' \<Longrightarrow> R x \<Longrightarrow> Q x p'"
  shows "wp src m Q p"
proof -
  have "wp src m (\<lambda>x p'. wf_pstate src p' \<and> ps_pos p \<le> ps_pos p' \<and> R x) p"
    using assms(1,2) by (simp add: good_def)
  then show ?thesis by (rule wp_mono) (use assms(3) in auto)
qed

lemma goodI:
  assumes "\<And>src p. wf_pstate src p \<Longrightarrow>
    wp src m (\<lambda>x p'. wf_pstate src p' \<and> ps_pos p \<le> ps_pos p' \<and> R x) p"
  shows "good R m"
  using assms by (simp add: good_def)

lemma wp_name [wp_rules]:
  assumes "wf_pstate src p"
    and "\<And>x p'. wf_pstate src p' \<Longrightarrow> ps_pos p' = Suc (ps_pos p) \<Longrightarrow> Q x p'"
  shows "wp src name Q p"
  using assms by (auto simp: name_def intro!: wp_rules)

lemma good_function_name: "good (\<lambda>_. True) function_name"
  by (auto simp: function_name_def intro!: goodI wp_rules)

lemma good_function_type: "good (\<lambda>_. True) function_type"
  by (auto simp: function_type_def intro!: goodI wp_rules)

lemma good_at_end: "good (\<lambda>_. True) at_end"
  by (auto simp: at_end_def intro!: goodI wp_rules)

lemmas wp_function_name [wp_rules] = goodD [OF good_function_name]
lemmas wp_function_type [wp_rules] = goodD [OF good_function_type]
lemmas wp_at_end [wp_rules] = goodD [OF good_at_end]

lemma clause_end_le: "wf_pstate src p \<Longrightarrow> clause_end p \<le> length (ps_tokens src)"
  by (simp add: clause_end_def Let_def wf_tokens)

lemma predicate_end_bound: "predicate_end f d i ts \<le> i + length ts"
  by (induction f d i ts rule: predicate_end.induct) (auto simp: Let_def)

lemma predicate_stop_le: "wf_pstate src p \<Longrightarrow> predicate_stop p \<le> length (ps_tokens src)"
  using clause_end_le [of src p] wf_pos_le [of src p]
    predicate_end_bound [of "ps_pos p" 0 "ps_pos p" "subslice (ps_tokens p) (ps_pos p) (clause_end p)"]
  by (auto simp: wf_tokens predicate_stop_def subslice_def min_def split: if_splits)

lemma good_finish_clause: "good (\<lambda>_. True) (finish_clause x)"
  by (auto simp: finish_clause_def intro!: goodI wp_rules)

lemmas wp_finish_clause [wp_rules] = goodD [OF good_finish_clause]

lemma good_returning: "good (\<lambda>_. True) returning"
  by (auto simp: returning_def Let_def clause_end_le intro!: goodI wp_rules)

lemma good_predicate: "good (\<lambda>_. True) predicate"
  by (auto simp: predicate_def Let_def predicate_stop_le intro!: goodI wp_rules)

lemmas wp_returning [wp_rules] = goodD [OF good_returning]
lemmas wp_predicate [wp_rules] = goodD [OF good_predicate]

text \<open>A loop has fuel for every token that is left.\<close>

lemma wp_with_fuel [wp_rules]:
  assumes "wf_pstate src p"
    and "\<And>n. length (ps_tokens src) < n + ps_pos p \<Longrightarrow> wp src (m n) Q p"
  shows "wp src (with_fuel m) Q p"
  using assms(2) [of "fuel_of p"] by (simp add: wp_def with_fuel_def fuel_of_def wf_tokens [OF assms(1)])

declare path_loop.simps [simp del]

lemma wp_path_loop [wp_rules]:
  assumes "wf_pstate src p" and "length (ps_tokens src) < n + ps_pos p" and "xs \<noteq> []"
    and "\<And>x p'. wf_pstate src p' \<Longrightarrow> ps_pos p \<le> ps_pos p' \<Longrightarrow> x \<noteq> [] \<Longrightarrow> Q x p'"
  shows "wp src (path_loop n xs) Q p"
  using assms
proof (induction n arbitrary: p xs)
  case 0
  then show ?case using wf_pos_le [OF 0(1)] by simp
next
  case (Suc n)
  show ?case using Suc.prems by (auto simp: path_loop.simps intro!: wp_rules Suc.IH)
qed

lemma good_path: "good (\<lambda>xs. xs \<noteq> []) path"
  by (auto simp: path_def intro!: goodI wp_rules)

lemmas wp_path [wp_rules] = goodD [OF good_path]

definition wf_key :: "key \<Rightarrow> bool" where
  "wf_key k \<longleftrightarrow>
     (case k of KeyInteger n \<Rightarrow> i64_min \<le> n \<and> n \<le> i64_max | KeyString s \<Rightarrow> s \<noteq> [])"

definition wf_record :: "record_ref \<Rightarrow> bool" where
  "wf_record r \<longleftrightarrow> wf_key (rec_key r) \<and> to_ascii_lowercase (rec_table r) = rec_table r"

lemma wp_record_key [wp_rules]:
  assumes "wf_pstate src p" and "wf_token (ps_input src) t" and "\<And>k. wf_key k \<Longrightarrow> Q k p"
  shows "wp src (record_key neg pos t) Q p"
  using assms(1,2)
  by (auto simp: record_key_def wf_key_def wf_token_def split: kind.split option.split
      dest!: parse_i64_range intro!: wp_rules assms(3))

lemma good_record_after_colon: "good wf_record (record_after_colon table i)"
  by (auto simp: record_after_colon_def wf_record_def intro!: goodI wp_rules)

lemmas wp_record_after_colon [wp_rules] = goodD [OF good_record_after_colon]

lemma good_record_target: "good wf_record record_target"
  by (auto simp: record_target_def Let_def intro!: goodI wp_rules)

lemmas wp_record_target [wp_rules] = goodD [OF good_record_target]

end
