(* ===== verification/Expressions.thy ===== *)
theory Expressions
  imports Parser_State
begin

text \<open>
  The expression grammar of \<open>fastdb/parser/src/lib.rs\<close> (\<open>expr\<close>, \<open>binary\<close>, \<open>operator\<close>,
  \<open>atom\<close>, \<open>parse_expression\<close>). \<open>binary_left r\<close> and \<open>atom_left r\<close> are \<open>binary\<close> and
  \<open>atom\<close> at depth \<open>65 - r\<close>: \<open>r\<close> counts the nesting levels left, and none are left exactly
  when the code finds \<open>depth > 64\<close>. Each loop of \<open>atom\<close> takes the parser \<open>e\<close> of
  \<open>self.expr(depth + 1)\<close>.
\<close>

section \<open>Operators\<close>

definition two_symbol_precedence :: "string \<Rightarrow> nat" where
  "two_symbol_precedence op =
     (if op = ''||'' then 9
      else if op \<in> {''<<'', ''>>''} then 6
      else if op \<in> {''<='', ''>=''} then 5
      else if op \<in> {''<>'', ''!='', ''==''} then 4
      else 0)"

definition symbol_precedence :: "string \<Rightarrow> nat option" where
  "symbol_precedence op =
     (if op = ''='' then Some 4
      else if op \<in> {''<'', ''>''} then Some 5
      else if op \<in> {''&'', ''|''} then Some 6
      else if op \<in> {''+'', ''-''} then Some 7
      else if op \<in> {''*'', ''/'', ''%''} then Some 8
      else None)"

definition word_operator :: "string \<Rightarrow> token option \<Rightarrow> (string \<times> nat \<times> nat) option" where
  "word_operator op next_token =
     (if op = ''OR'' then Some (op, 1, 1)
      else if op = ''AND'' then Some (op, 2, 1)
      else if op = ''IS'' then
        (if is_word ''NOT'' next_token then Some (''IS NOT'', 4, 2) else Some (op, 4, 1))
      else None)"

definition operator :: "pstate \<Rightarrow> (string \<times> nat \<times> nat) option" where
  "operator p =
     (case token_at p (ps_pos p) of
        None \<Rightarrow> None
      | Some t \<Rightarrow>
          let next_token = token_at p (ps_pos p + 1);
              single = map_option (\<lambda>prec. (tok_text t, prec, 1)) (symbol_precedence (tok_text t))
          in if tok_kind t = KWord then word_operator (to_ascii_uppercase (tok_text t)) next_token
             else if tok_kind t \<noteq> KSymbol then None
             else case next_token of
                    None \<Rightarrow> single
                  | Some u \<Rightarrow>
                      let op = tok_text t @ tok_text u in
                      if tok_kind u = KSymbol \<and> tok_start u = tok_end t \<and> 0 < two_symbol_precedence op
                      then Some (op, two_symbol_precedence op, 2)
                      else single)"

section \<open>Atoms\<close>

fun case_branches :: "expr parser \<Rightarrow> nat \<Rightarrow> (expr \<times> expr) list \<Rightarrow> (expr \<times> expr) list parser" where
  "case_branches e 0 branches = out_of_fuel"
| "case_branches e (Suc n) branches = bnd (eat ''WHEN'') (\<lambda>b.
     if \<not> b then ret branches
     else bnd e (\<lambda>condition.
       bnd (expect ''THEN'' ''expected THEN'') (\<lambda>_.
       bnd e (\<lambda>v. case_branches e n (branches @ [(condition, v)])))))"

definition case_expr :: "expr parser \<Rightarrow> expr parser" where
  "case_expr e = bnd (peek 0) (\<lambda>t.
     bnd (if is_word ''WHEN'' t then ret None else bnd e (\<lambda>x. ret (Some x))) (\<lambda>base.
     bnd (with_fuel (\<lambda>n. case_branches e n [])) (\<lambda>branches.
     if branches = [] then fail ''CASE requires WHEN''
     else bnd (eat ''ELSE'') (\<lambda>b.
       bnd (if b then bnd e (\<lambda>x. ret (Some x)) else ret None) (\<lambda>fallback.
       bnd (expect ''END'' ''expected END'') (\<lambda>_.
       ret (ECase base branches fallback)))))))"

fun object_loop :: "expr parser \<Rightarrow> nat \<Rightarrow> (string \<times> expr) list \<Rightarrow> expr parser" where
  "object_loop e 0 entries = out_of_fuel"
| "object_loop e (Suc n) entries = bnd (peek 0) (\<lambda>t.
     case t of
       None \<Rightarrow> fail ''expected object key''
     | Some t \<Rightarrow> bnd get_state (\<lambda>p.
         if tok_kind t = KIdentifier \<and> ps_input p ! tok_start t \<noteq> CHR 0x22
         then fail ''object keys use bare or double-quoted names''
         else bnd name (\<lambda>k.
           bnd (expect '':'' ''expected object colon'') (\<lambda>_.
           bnd e (\<lambda>v.
           if bm_contains k entries then fail ''duplicate object key''
           else let entries' = bm_insert k v entries in
             bnd (eat ''}'') (\<lambda>closed.
             if closed then ret (EObject entries')
             else bnd (expect '','' ''expected comma'') (\<lambda>_.
               bnd (eat ''}'') (\<lambda>closed.
               if closed then ret (EObject entries') else object_loop e n entries'))))))))"

fun array_loop :: "expr parser \<Rightarrow> nat \<Rightarrow> expr list \<Rightarrow> expr parser" where
  "array_loop e 0 vs = out_of_fuel"
| "array_loop e (Suc n) vs = bnd e (\<lambda>v.
     bnd (eat '']'') (\<lambda>closed.
     if closed then ret (EArray (vs @ [v]))
     else bnd (expect '','' ''expected array comma'') (\<lambda>_.
       bnd (eat '']'') (\<lambda>closed.
       if closed then ret (EArray (vs @ [v])) else array_loop e n (vs @ [v])))))"

fun args_loop :: "expr parser \<Rightarrow> nat \<Rightarrow> expr list \<Rightarrow> expr list parser" where
  "args_loop e 0 args = out_of_fuel"
| "args_loop e (Suc n) args = bnd e (\<lambda>a.
     bnd (eat '')'') (\<lambda>closed.
     if closed then ret (args @ [a])
     else bnd (expect '','' ''expected function argument comma'') (\<lambda>_.
       args_loop e n (args @ [a]))))"

definition call_args :: "expr parser \<Rightarrow> expr list parser" where
  "call_args e = bnd (eat '')'') (\<lambda>closed.
     if closed then ret [] else with_fuel (\<lambda>n. args_loop e n []))"

text \<open>\<open>name\<close> or \<open>namespace::name\<close> in front of an argument list.\<close>

definition callee :: "string parser" where
  "callee = bnd name (\<lambda>f.
     bnd (peek 0) (\<lambda>t0. bnd (peek 1) (\<lambda>t1.
     if has_text '':'' t0 \<and> has_text '':'' t1
     then bnd (advance 2) (\<lambda>_. bnd name (\<lambda>g. ret (f @ ''::'' @ g)))
     else ret f)))"

definition number_literal :: "string \<Rightarrow> expr parser" where
  "number_literal w =
     (if \<not> list_ex (\<lambda>c. c \<in> {CHR ''.'', CHR ''e'', CHR ''E''}) w then
        (case parse_i64 w of
           None \<Rightarrow> fail ''integer must fit int64''
         | Some v \<Rightarrow> ret (EInteger v))
      else
        (case parse_f64 w of
           None \<Rightarrow> fail ''invalid number''
         | Some v \<Rightarrow> if is_finite v then ret (ENumber v) else fail ''number must be finite''))"

text \<open>The last part of \<open>atom\<close>: a sign, then a literal, a parameter or a field path.\<close>

definition simple_value :: "expr parser" where
  "simple_value = bnd (eat ''-'') (\<lambda>negative.
     bnd (peek 0) (\<lambda>t.
     case t of
       None \<Rightarrow> fail ''expected value''
     | Some t \<Rightarrow> bnd (advance 1) (\<lambda>_.
         if tok_kind t = KString \<and> \<not> negative then ret (EString (tok_text t))
         else if tok_kind t = KParameter \<and> \<not> negative then ret (EParameter (tok_text t))
         else if (tok_kind t = KWord \<or> tok_kind t = KIdentifier) \<and> \<not> negative then
           bnd (with_fuel (\<lambda>n. path_loop n [tok_text t])) (\<lambda>xs. ret (EField xs))
         else if tok_kind t = KNumber then
           number_literal (if negative then ''-'' @ tok_text t else tok_text t)
         else fail ''unsupported document expression'')))"

definition atom_value :: "expr parser" where
  "atom_value = bnd (peek 0) (\<lambda>t. bnd (peek 1) (\<lambda>u.
     case t of
       None \<Rightarrow> fail ''expected value''
     | Some t \<Rightarrow>
         if (tok_kind t = KWord \<or> tok_kind t = KIdentifier) \<and>
            (case u of None \<Rightarrow> False | Some u \<Rightarrow> tok_text u = '':'' \<and> tok_start u = tok_end t)
         then bnd record_target (\<lambda>r. ret (ERecord r))
         else bnd (eat ''NULL'') (\<lambda>b. if b then ret ENull
         else bnd (eat ''TRUE'') (\<lambda>b. if b then ret (EBoolean True)
         else bnd (eat ''FALSE'') (\<lambda>b. if b then ret (EBoolean False)
         else simple_value)))))"

text \<open>A call, or everything after it with the position restored.\<close>

definition call_or_value :: "expr parser \<Rightarrow> expr parser" where
  "call_or_value e = bnd get_state (\<lambda>saved.
     case token_at saved (ps_pos saved) of
       None \<Rightarrow> atom_value
     | Some t \<Rightarrow>
         if tok_kind t \<noteq> KWord \<and> tok_kind t \<noteq> KIdentifier then atom_value
         else bnd callee (\<lambda>f.
           bnd (eat ''('') (\<lambda>b.
           if b then bnd (call_args e) (\<lambda>args. ret (ECall f args))
           else bnd (set_pos (ps_pos saved)) (\<lambda>_. atom_value))))"

definition atom_body :: "expr parser \<Rightarrow> expr parser" where
  "atom_body e =
     bnd (eat ''CASE'') (\<lambda>b. if b then case_expr e
     else bnd (eat ''{'') (\<lambda>b. if b then
       bnd (eat ''}'') (\<lambda>closed.
       if closed then ret (EObject []) else with_fuel (\<lambda>n. object_loop e n []))
     else bnd (eat ''['') (\<lambda>b. if b then
       bnd (eat '']'') (\<lambda>closed.
       if closed then ret (EArray []) else with_fuel (\<lambda>n. array_loop e n []))
     else bnd (eat ''('') (\<lambda>b. if b then
       bnd e (\<lambda>x. bnd (expect '')'' ''expected )'') (\<lambda>_. ret x))
     else call_or_value e))))"

section \<open>Binary expressions\<close>

text \<open>
  The precedence-climbing loop; \<open>rhs m\<close> is \<open>self.binary(depth + 1, m)\<close>.
\<close>

fun binary_loop :: "(nat \<Rightarrow> expr parser) \<Rightarrow> nat \<Rightarrow> nat \<Rightarrow> expr \<Rightarrow> expr parser" where
  "binary_loop rhs 0 min_prec lhs = out_of_fuel"
| "binary_loop rhs (Suc n) min_prec lhs = bnd get_state (\<lambda>p.
     if 64 < height lhs then fail ''expression nesting limit exceeded''
     else case operator p of
       None \<Rightarrow> ret lhs
     | Some (op, precedence, count) \<Rightarrow>
         if precedence < min_prec then ret lhs
         else bnd (advance count) (\<lambda>_.
           bnd (rhs (precedence + 1)) (\<lambda>r. binary_loop rhs n min_prec (EBinary lhs op r))))"

definition minus_operator :: "token option \<Rightarrow> token option \<Rightarrow> bool" where
  "minus_operator t u \<longleftrightarrow>
     has_text ''-'' t \<and> (case u of None \<Rightarrow> True | Some u \<Rightarrow> tok_kind u \<noteq> KNumber)"

definition binary_head :: "(nat \<Rightarrow> expr parser) \<Rightarrow> expr parser" where
  "binary_head rhs =
     bnd (eat ''NOT'') (\<lambda>b. if b then bnd (rhs 3) (\<lambda>x. ret (EUnary ''NOT'' x))
     else bnd (eat ''+'') (\<lambda>b. if b then bnd (rhs 10) (\<lambda>x. ret (EUnary ''+'' x))
     else bnd (peek 0) (\<lambda>t. bnd (peek 1) (\<lambda>u.
       if minus_operator t u then bnd (advance 1) (\<lambda>_. bnd (rhs 10) (\<lambda>x. ret (EUnary ''-'' x)))
       else atom_body (rhs 0)))))"

primrec binary_left :: "nat \<Rightarrow> nat \<Rightarrow> expr parser" where
  "binary_left 0 min_prec = fail ''expression nesting limit exceeded''"
| "binary_left (Suc r) min_prec =
     bnd (binary_head (binary_left r)) (\<lambda>lhs.
     with_fuel (\<lambda>n. binary_loop (binary_left r) n min_prec lhs))"

definition binary :: "nat \<Rightarrow> nat \<Rightarrow> expr parser" where
  "binary depth min_prec = binary_left (65 - depth) min_prec"

definition expr_parser :: "nat \<Rightarrow> expr parser" where
  "expr_parser depth = binary depth 0"

definition atom :: "nat \<Rightarrow> expr parser" where
  "atom depth =
     (if 64 < depth then fail ''document nesting limit exceeded'' else atom_body (expr_parser (depth + 1)))"

text \<open>
  The entry points return \<open>None\<close> if a loop ran out of fuel, and otherwise the error or the
  result.
\<close>

definition run_parser :: "'a parser \<Rightarrow> string \<Rightarrow> (syntax_error + 'a) option" where
  "run_parser m input =
     (case tokenize input of
        Inl e \<Rightarrow> Some (Inl e)
      | Inr ts \<Rightarrow>
          (case validate_delimiter_depth ts of
             Inl e \<Rightarrow> Some (Inl e)
           | Inr _ \<Rightarrow>
               (case m \<lparr>ps_input = input, ps_tokens = ts, ps_pos = 0\<rparr> of
                  None \<Rightarrow> None
                | Some (Inl e) \<Rightarrow> Some (Inl e)
                | Some (Inr (x, _)) \<Rightarrow> Some (Inr x))))"

definition whole_expression :: "expr parser" where
  "whole_expression = bnd (expr_parser 0) (\<lambda>x. bnd get_state (\<lambda>p.
     if ps_pos p \<noteq> length (ps_tokens p) then fail ''expected one expression'' else ret x))"

definition parse_expression :: "string \<Rightarrow> (syntax_error + expr) option" where
  "parse_expression = run_parser whole_expression"

section \<open>Well-formed expressions\<close>

definition unary_operators :: "string list" where
  "unary_operators = [''NOT'', ''+'', ''-'']"

definition binary_operators :: "string list" where
  "binary_operators =
     [''OR'', ''AND'', ''IS'', ''IS NOT'', ''||'', ''<<'', ''>>'', ''<='', ''>='', ''<>'', ''!='',
      ''=='', ''='', ''<'', ''>'', ''&'', ''|'', ''+'', ''-'', ''*'', ''/'', ''%'']"

text \<open>
  What every expression the parser builds satisfies: integers fit 64 bits, doubles are finite,
  object keys are sorted and distinct, paths and \<open>CASE\<close> branches are not empty, record targets
  are normalised, and only the operators of the grammar occur.
\<close>

fun wf_expr :: "expr \<Rightarrow> bool" where
  "wf_expr (ECase base branches fallback) \<longleftrightarrow>
     branches \<noteq> [] \<and> (case base of None \<Rightarrow> True | Some e \<Rightarrow> wf_expr e) \<and>
     list_all (\<lambda>b. wf_expr (fst b) \<and> wf_expr (snd b)) branches \<and>
     (case fallback of None \<Rightarrow> True | Some e \<Rightarrow> wf_expr e)"
| "wf_expr (ECall f args) \<longleftrightarrow> list_all wf_expr args"
| "wf_expr (EField xs) \<longleftrightarrow> xs \<noteq> []"
| "wf_expr (EUnary op a) \<longleftrightarrow> op \<in> set unary_operators \<and> wf_expr a"
| "wf_expr (EBinary a op b) \<longleftrightarrow> op \<in> set binary_operators \<and> wf_expr a \<and> wf_expr b"
| "wf_expr (EInteger n) \<longleftrightarrow> i64_min \<le> n \<and> n \<le> i64_max"
| "wf_expr (ENumber w) \<longleftrightarrow> is_finite w"
| "wf_expr (ERecord r) \<longleftrightarrow> wf_record r"
| "wf_expr (EObject entries) \<longleftrightarrow> bm_wf entries \<and> list_all (\<lambda>f. wf_expr (snd f)) entries"
| "wf_expr (EArray vs) \<longleftrightarrow> list_all wf_expr vs"
| "wf_expr e \<longleftrightarrow> True"

definition bounded_expr :: "expr \<Rightarrow> bool" where
  "bounded_expr e \<longleftrightarrow> wf_expr e \<and> height e \<le> 64"

lemma bounded_wf: "bounded_expr e \<Longrightarrow> wf_expr e"
  by (simp add: bounded_expr_def)

lemma wf_object_insert:
  "wf_expr (EObject m) \<Longrightarrow> wf_expr x \<Longrightarrow> wf_expr (EObject (bm_insert k x m))"
  by (auto simp: list_all_iff dest!: bm_insert_set)

lemma operator_good:
  assumes "wf_pstate src p" and "operator p = Some (op, prec, count)"
  shows "op \<in> set binary_operators \<and> 0 < count \<and> ps_pos p + count \<le> length (ps_tokens src)"
proof -
  have "count = 1 \<or> count = 2 \<and> token_at p (ps_pos p + 1) \<noteq> None" "token_at p (ps_pos p) \<noteq> None"
    "op \<in> set binary_operators"
    using assms(2)
    by (auto simp: operator_def word_operator_def symbol_precedence_def two_symbol_precedence_def
        binary_operators_def is_word_def Let_def split: option.splits if_splits)
  with assms(1) show ?thesis
    using token_at_pos [OF assms(1), of 0] token_at_pos [OF assms(1), of 1] by auto
qed

section \<open>The grammar is total\<close>

lemma good_callee: "good (\<lambda>_. True) callee"
  by (auto simp: callee_def intro!: goodI wp_rules)

lemmas wp_callee [wp_rules] = goodD [OF good_callee]

lemma good_number_literal: "good wf_expr (number_literal w)"
  by (auto simp: number_literal_def split: option.split dest: parse_i64_range intro!: goodI wp_rules)

lemmas wp_number_literal [wp_rules] = goodD [OF good_number_literal]

lemma good_simple_value: "good wf_expr simple_value"
  by (auto simp: simple_value_def intro!: goodI wp_rules)

lemmas wp_simple_value [wp_rules] = goodD [OF good_simple_value]

lemma good_atom_value: "good wf_expr atom_value"
  by (auto simp: atom_value_def intro!: goodI wp_rules)

lemmas wp_atom_value [wp_rules] = goodD [OF good_atom_value]

text \<open>
  The contract between a nested construct and the expression parser it calls one level deeper: the
  call returns, does not move the position back, and yields an expression inside the height bound.
\<close>

locale subparser =
  fixes e :: "expr parser"
  assumes sub: "good bounded_expr e"
begin

lemma wp_sub:
  assumes "wf_pstate src p"
    and "\<And>x p'. wf_pstate src p' \<Longrightarrow> ps_pos p \<le> ps_pos p' \<Longrightarrow> wf_expr x \<Longrightarrow> Q x p'"
  shows "wp src e Q p"
  using assms by (auto simp: bounded_wf intro!: goodD [OF sub])

lemma wp_case_branches:
  assumes "wf_pstate src p" and "length (ps_tokens src) < n + ps_pos p"
    and "list_all (\<lambda>b. wf_expr (fst b) \<and> wf_expr (snd b)) bs"
    and "\<And>x p'. wf_pstate src p' \<Longrightarrow> ps_pos p \<le> ps_pos p' \<Longrightarrow>
      list_all (\<lambda>b. wf_expr (fst b) \<and> wf_expr (snd b)) x \<Longrightarrow> Q x p'"
  shows "wp src (case_branches e n bs) Q p"
  using assms
proof (induction n arbitrary: p bs)
  case 0
  then show ?case using wf_pos_le [OF 0(1)] by simp
next
  case (Suc n)
  show ?case using Suc.prems by (auto intro!: wp_rules wp_sub Suc.IH)
qed

lemma good_case_expr: "good wf_expr (case_expr e)"
  by (auto simp: case_expr_def intro!: goodI wp_rules wp_sub wp_case_branches)

lemma wp_object_loop:
  assumes "wf_pstate src p" and "length (ps_tokens src) < n + ps_pos p"
    and "wf_expr (EObject m)"
    and "\<And>x p'. wf_pstate src p' \<Longrightarrow> ps_pos p \<le> ps_pos p' \<Longrightarrow> wf_expr x \<Longrightarrow> Q x p'"
  shows "wp src (object_loop e n m) Q p"
  using assms
proof (induction n arbitrary: p m)
  case 0
  then show ?case using wf_pos_le [OF 0(1)] by simp
next
  case (Suc n)
  show ?case using Suc.prems
    by (auto simp: Let_def wf_object_insert simp del: wf_expr.simps(9)
        intro!: wp_rules wp_sub Suc.IH)
qed

lemma wp_array_loop:
  assumes "wf_pstate src p" and "length (ps_tokens src) < n + ps_pos p"
    and "list_all wf_expr vs"
    and "\<And>x p'. wf_pstate src p' \<Longrightarrow> ps_pos p \<le> ps_pos p' \<Longrightarrow> wf_expr x \<Longrightarrow> Q x p'"
  shows "wp src (array_loop e n vs) Q p"
  using assms
proof (induction n arbitrary: p vs)
  case 0
  then show ?case using wf_pos_le [OF 0(1)] by simp
next
  case (Suc n)
  show ?case using Suc.prems by (auto intro!: wp_rules wp_sub Suc.IH)
qed

lemma wp_args_loop:
  assumes "wf_pstate src p" and "length (ps_tokens src) < n + ps_pos p"
    and "list_all wf_expr vs"
    and "\<And>x p'. wf_pstate src p' \<Longrightarrow> ps_pos p \<le> ps_pos p' \<Longrightarrow> list_all wf_expr x \<Longrightarrow> Q x p'"
  shows "wp src (args_loop e n vs) Q p"
  using assms
proof (induction n arbitrary: p vs)
  case 0
  then show ?case using wf_pos_le [OF 0(1)] by simp
next
  case (Suc n)
  show ?case using Suc.prems by (auto intro!: wp_rules wp_sub Suc.IH)
qed

lemma good_call_args: "good (list_all wf_expr) (call_args e)"
  by (auto simp: call_args_def intro!: goodI wp_rules wp_args_loop)

lemma good_call_or_value: "good wf_expr (call_or_value e)"
  by (auto simp: call_or_value_def split: option.split
      intro!: goodI wp_rules goodD [OF good_call_args] simp: wf_pos_le)

lemma good_atom_body: "good wf_expr (atom_body e)"
  by (auto simp: atom_body_def intro!: goodI wp_rules wp_sub wp_object_loop wp_array_loop
      goodD [OF good_case_expr] goodD [OF good_call_or_value])

end

lemma wp_binary_loop:
  assumes "\<And>m. good bounded_expr (rhs m)"
    and "wf_pstate src p" and "length (ps_tokens src) < n + ps_pos p" and "wf_expr lhs"
    and "\<And>x p'. wf_pstate src p' \<Longrightarrow> ps_pos p \<le> ps_pos p' \<Longrightarrow> bounded_expr x \<Longrightarrow> Q x p'"
  shows "wp src (binary_loop rhs n m lhs) Q p"
  using assms(2-)
proof (induction n arbitrary: p lhs)
  case 0
  then show ?case using wf_pos_le [OF 0(1)] by simp
next
  case (Suc n)
  have step: "wp src (rhs k) (\<lambda>r. wp src (binary_loop rhs n m (EBinary lhs op r)) Q)
      (p\<lparr>ps_pos := ps_pos p + count\<rparr>)"
    if "operator p = Some (op, prec, count)" for op prec count k
    using operator_good [OF Suc.prems(1) that] Suc.prems
    by (auto simp: bounded_wf intro!: goodD [OF assms(1)] Suc.IH)
  show ?case using Suc.prems
    by (auto simp: bounded_expr_def split: option.split intro!: wp_rules step)
qed

lemma good_binary_head:
  assumes "\<And>m. good bounded_expr (rhs m)"
  shows "good wf_expr (binary_head rhs)"
  by (auto simp: binary_head_def minus_operator_def unary_operators_def bounded_wf
      intro!: goodI wp_rules goodD [OF assms]
      goodD [OF subparser.good_atom_body [OF subparser.intro [OF assms]]])

lemma good_binary_left: "good bounded_expr (binary_left r m)"
proof (induction r arbitrary: m)
  case 0
  show ?case by (auto intro!: goodI wp_rules)
next
  case (Suc r)
  show ?case
    by (auto intro!: goodI wp_rules goodD [OF good_binary_head [OF Suc.IH]] wp_binary_loop Suc.IH)
qed

interpretation nested: subparser "binary_left r m" for r m
  by unfold_locales (rule good_binary_left)

lemma good_expr: "good bounded_expr (expr_parser d)"
  by (simp add: expr_parser_def binary_def good_binary_left)

lemma good_atom: "good wf_expr (atom d)"
  unfolding atom_def expr_parser_def binary_def
  by (auto intro!: goodI wp_rules goodD [OF nested.good_atom_body])

lemmas wp_expr [wp_rules] = goodD [OF good_expr]
lemmas wp_atom [wp_rules] = goodD [OF good_atom]

lemma good_whole_expression: "good bounded_expr whole_expression"
  by (auto simp: whole_expression_def intro!: goodI wp_rules)

section \<open>Running a parser on text\<close>

lemma tokenize_wf_token: "tokenize b = Inr ts \<Longrightarrow> t \<in> set ts \<Longrightarrow> wf_token b t"
  using spans_from_mem [OF tokenize_spans] tokenize_lexeme
  by (fastforce simp: wf_token_def split: list.splits)

lemma delimiter_depth_error:
  "delimiter_depth d ts = Inl e \<Longrightarrow> \<exists>t \<in> set ts. offset e = tok_start t"
  by (induction d ts rule: delimiter_depth.induct) (auto split: if_splits)

text \<open>A parser that is total on its own is total on text, and its errors point into the text.\<close>

definition start_state :: "string \<Rightarrow> token list \<Rightarrow> pstate" where
  "start_state input ts = \<lparr>ps_input = input, ps_tokens = ts, ps_pos = 0\<rparr>"

lemma start_state_simps [simp]:
  "ps_input (start_state input ts) = input" "ps_tokens (start_state input ts) = ts"
  "ps_pos (start_state input ts) = 0"
  by (simp_all add: start_state_def)

definition outcome :: "string \<Rightarrow> ('a \<Rightarrow> bool) \<Rightarrow> (syntax_error + 'a) option \<Rightarrow> bool" where
  "outcome input R r \<longleftrightarrow>
     (case r of
        None \<Rightarrow> False
      | Some (Inl e) \<Rightarrow> offset e \<le> length input
      | Some (Inr x) \<Rightarrow> R x)"

lemma run_parser_outcome:
  assumes "\<And>src. wf_pstate src src \<Longrightarrow> ps_input src = input \<Longrightarrow> ps_pos src = 0 \<Longrightarrow>
    wp src m (\<lambda>x p'. R x) src"
  shows "outcome input R (run_parser m input)"
proof (cases "tokenize input")
  case (Inl e)
  then show ?thesis by (simp add: run_parser_def outcome_def tokenize_error)
next
  case (Inr ts)
  have t: "wf_token input t" if "t \<in> set ts" for t
    using tokenize_wf_token [OF Inr that] .
  show ?thesis
  proof (cases "validate_delimiter_depth ts")
    case (Inl e)
    then show ?thesis using Inr t
      by (auto simp: run_parser_def outcome_def validate_delimiter_depth_def wf_token_def
          dest!: delimiter_depth_error intro: less_imp_le)
  next
    case (Inr u)
    have "wf_pstate (start_state input ts) (start_state input ts)"
      using t by (simp add: wf_pstate_def)
    then have "wp (start_state input ts) m (\<lambda>x p'. R x) (start_state input ts)"
      using assms [of "start_state input ts"] by simp
    then show ?thesis using Inr \<open>tokenize input = Inr ts\<close>
      by (auto simp: run_parser_def outcome_def wp_def start_state_def split: option.splits sum.splits)
  qed
qed

lemma run_parser_good: "good R m \<Longrightarrow> outcome input R (run_parser m input)"
  by (rule run_parser_outcome) (auto intro: goodD)

section \<open>Property\<close>

text \<open>C18: \<open>parse_expression\<close> always returns: its loops never run out of fuel. An error it reports lies
inside the input. An expression it returns has a height of at most 64, integers that fit 64 bits,
finite doubles, objects with sorted distinct keys, and only the operators of the grammar.\<close>

theorem parse_expression_total:
  "case parse_expression input of
     None \<Rightarrow> False
   | Some (Inl e) \<Rightarrow> offset e \<le> length input
   | Some (Inr x) \<Rightarrow> wf_expr x \<and> height x \<le> 64"
  using run_parser_good [OF good_whole_expression, of input]
  by (simp add: parse_expression_def outcome_def bounded_expr_def split: option.splits sum.splits)

end
