(* ===== verification/Graph_Parser.thy ===== *)
theory Graph_Parser
  imports Expressions
begin

text \<open>
  \<open>fastdb/parser/src/graph.rs\<close>: the arrows, endpoints and steps of graph sources, and
  \<open>parse_graph\<close> for the body of \<open>GRAPH(...)\<close>.
\<close>

section \<open>Data\<close>

datatype direction = Out | In | Both

datatype graph_mode = Reachable | Paths

record graph_step =
  gs_table :: string
  gs_alias :: "string option"
  gs_predicate :: "expr option"

record graph_hop =
  gh_direction :: direction
  gh_edge :: graph_step
  gh_node :: graph_step

record graph_query =
  gq_root :: expr
  gq_hops :: "graph_hop list"
  gq_depth :: "(nat \<times> nat) option"
  gq_mode :: "graph_mode option"
  gq_with_path :: bool

section \<open>Clauses\<close>

definition endpoint_expr :: "expr \<Rightarrow> bool" where
  "endpoint_expr x =
     (case x of
        ERecord r \<Rightarrow> True
      | EParameter n \<Rightarrow> True
      | ECall f args \<Rightarrow> eq_ignore_ascii_case f ''type::record''
      | _ \<Rightarrow> False)"

definition endpoint :: "expr parser" where
  "endpoint = bnd get_state (\<lambda>start.
     bnd (atom 0) (\<lambda>x.
     if endpoint_expr x then ret x
     else bnd (set_pos (ps_pos start)) (\<lambda>_.
       fail ''graph endpoints use a record ID, type::record(...) or a parameter'')))"

text \<open>The closure \<open>adjacent\<close> of \<open>arrow\<close>: a symbol that touches the token before it.\<close>

definition adjacent :: "pstate \<Rightarrow> nat \<Rightarrow> string \<Rightarrow> bool" where
  "adjacent p k w \<longleftrightarrow>
     (case token_at p (ps_pos p + k) of
        None \<Rightarrow> False
      | Some t \<Rightarrow> is_symbol w t \<and> (k = 0 \<or> tok_end (ps_tokens p ! (ps_pos p + k - 1)) = tok_start t))"

definition arrow :: "direction option parser" where
  "arrow = bnd get_state (\<lambda>p.
     if adjacent p 0 ''<'' \<and> adjacent p 1 ''-'' then
       (if adjacent p 2 ''>'' then bnd (advance 3) (\<lambda>_. ret (Some Both))
        else bnd (advance 2) (\<lambda>_. ret (Some In)))
     else if adjacent p 0 ''-'' \<and> adjacent p 1 ''>'' then bnd (advance 2) (\<lambda>_. ret (Some Out))
     else ret None)"

definition step :: "graph_step parser" where
  "step = bnd (eat ''('') (\<lambda>opened.
     bnd name (\<lambda>table.
     if \<not> opened
     then ret \<lparr>gs_table = to_ascii_lowercase table, gs_alias = None, gs_predicate = None\<rparr>
     else bnd (eat ''AS'') (\<lambda>b.
       bnd (if b then bnd name (\<lambda>x. ret (Some x)) else ret None) (\<lambda>alias.
       bnd (eat ''WHERE'') (\<lambda>b.
       bnd (if b then bnd (expr_parser 0) (\<lambda>x. ret (Some x)) else ret None) (\<lambda>predicate.
       bnd (expect '')'' ''expected ) after graph step'') (\<lambda>_.
       ret \<lparr>gs_table = to_ascii_lowercase table, gs_alias = alias, gs_predicate = predicate\<rparr>)))))))"

definition depth_bound :: "nat parser" where
  "depth_bound = bnd (peek 0) (\<lambda>t.
     case t of
       None \<Rightarrow> fail ''expected depth bound''
     | Some t \<Rightarrow>
         if tok_kind t \<noteq> KNumber then fail ''depth bounds are nonnegative integers''
         else (case parse_unsigned u32_max (tok_text t) of
                 None \<Rightarrow> fail ''depth bounds are nonnegative integers''
               | Some v \<Rightarrow> bnd (advance 1) (\<lambda>_. ret v)))"

definition relate_edge :: "(string \<times> record_ref option) parser" where
  "relate_edge = bnd (peek 1) (\<lambda>t1. bnd (peek 2) (\<lambda>t2.
     if has_text '':'' t1 \<and> \<not> has_text '':'' t2
     then bnd record_target (\<lambda>r. ret (rec_table r, Some r))
     else bnd name (\<lambda>n. ret (to_ascii_lowercase n, None))))"

section \<open>The query\<close>

fun hops_loop :: "nat \<Rightarrow> graph_hop list \<Rightarrow> graph_hop list parser" where
  "hops_loop 0 hops = out_of_fuel"
| "hops_loop (Suc n) hops = bnd arrow (\<lambda>d.
     case d of
       None \<Rightarrow> ret hops
     | Some direction \<Rightarrow>
         bnd step (\<lambda>edge.
         bnd arrow (\<lambda>d'.
         if d' \<noteq> Some direction
         then fail ''a graph hop uses the same arrow on both sides of its edge''
         else bnd step (\<lambda>node.
           hops_loop n (hops @ [\<lparr>gh_direction = direction, gh_edge = edge, gh_node = node\<rparr>])))))"

type_synonym graph_clauses = "(nat \<times> nat) option \<times> graph_mode option \<times> bool"

definition depth_clause :: "(nat \<times> nat) option \<Rightarrow> (nat \<times> nat) parser" where
  "depth_clause depth =
     (if depth \<noteq> None then fail ''duplicate DEPTH''
      else bnd depth_bound (\<lambda>lo.
        bnd (expect ''TO'' ''expected DEPTH minimum TO maximum'') (\<lambda>_.
        bnd depth_bound (\<lambda>hi.
        if hi < lo then fail ''DEPTH minimum exceeds maximum'' else ret (lo, hi)))))"

definition mode_clause :: "graph_mode option \<Rightarrow> graph_mode parser" where
  "mode_clause mode =
     (if mode \<noteq> None then fail ''duplicate MODE''
      else bnd (eat ''REACHABLE'') (\<lambda>b. if b then ret Reachable
        else bnd (eat ''PATHS'') (\<lambda>b. if b then ret Paths
        else fail ''expected MODE REACHABLE or MODE PATHS'')))"

fun clauses_loop :: "nat \<Rightarrow> graph_clauses \<Rightarrow> graph_clauses parser" where
  "clauses_loop 0 c = out_of_fuel"
| "clauses_loop (Suc n) (depth, mode, with_path) = bnd get_state (\<lambda>p.
     if \<not> ps_pos p < length (ps_tokens p) then ret (depth, mode, with_path)
     else bnd (eat ''DEPTH'') (\<lambda>b. if b then
       bnd (depth_clause depth) (\<lambda>d. clauses_loop n (Some d, mode, with_path))
     else bnd (eat ''MODE'') (\<lambda>b. if b then
       bnd (mode_clause mode) (\<lambda>m. clauses_loop n (depth, Some m, with_path))
     else bnd (eat ''WITH'') (\<lambda>b. if b then
       (if with_path then fail ''expected one WITH PATH''
        else bnd (expect ''PATH'' ''expected one WITH PATH'') (\<lambda>_.
          clauses_loop n (depth, mode, True)))
     else fail ''unexpected graph clause''))))"

definition fail_at_end :: "string \<Rightarrow> 'a parser" where
  "fail_at_end msg p = Some (Inl (SyntaxError (length (ps_input p)) msg))"

definition graph_body :: "graph_query parser" where
  "graph_body = bnd endpoint (\<lambda>root.
     bnd (with_fuel (\<lambda>n. hops_loop n [])) (\<lambda>hops.
     if hops = [] then fail ''expected an arrow after the graph root''
     else bnd (with_fuel (\<lambda>n. clauses_loop n (None, None, False))) (\<lambda>(depth, mode, with_path).
       if (depth \<noteq> None) \<noteq> (mode \<noteq> None)
       then fail_at_end ''recursive graph queries require both DEPTH and MODE''
       else if depth \<noteq> None \<and> length hops \<noteq> 1
       then fail_at_end ''recursive graph queries repeat exactly one edge and node step''
       else ret \<lparr>gq_root = root, gq_hops = hops, gq_depth = depth, gq_mode = mode,
                 gq_with_path = with_path \<or> mode = Some Paths\<rparr>)))"

definition parse_graph :: "string \<Rightarrow> (syntax_error + graph_query) option" where
  "parse_graph = run_parser graph_body"

section \<open>The parser is total\<close>

lemma good_endpoint: "good (\<lambda>x. wf_expr x \<and> endpoint_expr x) endpoint"
  by (auto simp: endpoint_def wf_pos_le intro!: goodI wp_rules)

lemmas wp_endpoint [wp_rules] = goodD [OF good_endpoint]

lemma adjacent_in: "wf_pstate src p \<Longrightarrow> adjacent p k w \<Longrightarrow> ps_pos p + k < length (ps_tokens src)"
  by (auto simp: adjacent_def split: option.splits dest: token_at_pos)

lemma wp_arrow [wp_rules]:
  assumes "wf_pstate src p" and "Q None p"
    and "\<And>d p'. wf_pstate src p' \<Longrightarrow> ps_pos p < ps_pos p' \<Longrightarrow> Q (Some d) p'"
  shows "wp src arrow Q p"
  using assms adjacent_in [OF assms(1), of 1] adjacent_in [OF assms(1), of 2]
  by (fastforce simp: arrow_def intro!: assms(3))

definition wf_step :: "graph_step \<Rightarrow> bool" where
  "wf_step s \<longleftrightarrow> (case gs_predicate s of None \<Rightarrow> True | Some x \<Rightarrow> bounded_expr x)"

lemma good_step: "good wf_step step"
  by (auto simp: step_def wf_step_def intro!: goodI wp_rules)

lemmas wp_step [wp_rules] = goodD [OF good_step]

lemma good_depth_bound: "good (\<lambda>n. n \<le> u32_max) depth_bound"
  by (auto simp: depth_bound_def split: option.split intro!: goodI wp_rules)
    (rule parse_unsigned_limit)

lemmas wp_depth_bound [wp_rules] = goodD [OF good_depth_bound]

lemma good_relate_edge: "good (\<lambda>(n, r). \<forall>x. r = Some x \<longrightarrow> wf_record x) relate_edge"
  by (auto simp: relate_edge_def intro!: goodI wp_rules)

lemmas wp_relate_edge [wp_rules] = goodD [OF good_relate_edge]

definition wf_hop :: "graph_hop \<Rightarrow> bool" where
  "wf_hop h \<longleftrightarrow> wf_step (gh_edge h) \<and> wf_step (gh_node h)"

declare hops_loop.simps [simp del] clauses_loop.simps [simp del]

lemma wp_hops_loop [wp_rules]:
  assumes "wf_pstate src p" and "length (ps_tokens src) < n + ps_pos p" and "list_all wf_hop hops"
    and "\<And>x p'. wf_pstate src p' \<Longrightarrow> ps_pos p \<le> ps_pos p' \<Longrightarrow> list_all wf_hop x \<Longrightarrow> Q x p'"
  shows "wp src (hops_loop n hops) Q p"
  using assms
proof (induction n arbitrary: p hops)
  case 0
  then show ?case using wf_pos_le [OF 0(1)] by simp
next
  case (Suc n)
  show ?case using Suc.prems by (auto simp: hops_loop.simps wf_hop_def intro!: wp_rules Suc.IH)
qed

definition wf_clauses :: "graph_clauses \<Rightarrow> bool" where
  "wf_clauses c \<longleftrightarrow> (\<forall>lo hi. fst c = Some (lo, hi) \<longrightarrow> lo \<le> hi \<and> hi \<le> u32_max)"

lemma good_depth_clause: "good (\<lambda>(lo, hi). lo \<le> hi \<and> hi \<le> u32_max) (depth_clause d)"
  by (auto simp: depth_clause_def intro!: goodI wp_rules)

lemma good_mode_clause: "good (\<lambda>_. True) (mode_clause m)"
  by (auto simp: mode_clause_def intro!: goodI wp_rules)

lemma wp_clauses_loop [wp_rules]:
  assumes "wf_pstate src p" and "length (ps_tokens src) < n + ps_pos p" and "wf_clauses c"
    and "\<And>x p'. wf_pstate src p' \<Longrightarrow> ps_pos p \<le> ps_pos p' \<Longrightarrow> wf_clauses x \<Longrightarrow> Q x p'"
  shows "wp src (clauses_loop n c) Q p"
  using assms
proof (induction n arbitrary: p c)
  case 0
  then show ?case using wf_pos_le [OF 0(1)] by simp
next
  case (Suc n)
  show ?case using Suc.prems
    by (cases c) (auto simp: clauses_loop.simps wf_clauses_def
        intro!: wp_rules Suc.IH goodD [OF good_depth_clause] goodD [OF good_mode_clause])
qed

lemma wp_fail_at_end [wp_rules]: "wf_pstate src p \<Longrightarrow> wp src (fail_at_end msg) Q p"
  by (simp add: wp_def fail_at_end_def wf_input)

text \<open>
  What \<open>parse_graph\<close> promises the executor: a usable root, at least one hop, a depth range exactly
  when there is a mode, in that case one hop, and path output whenever the mode lists paths.
\<close>

definition wf_query :: "graph_query \<Rightarrow> bool" where
  "wf_query q \<longleftrightarrow>
     wf_expr (gq_root q) \<and> endpoint_expr (gq_root q) \<and> gq_hops q \<noteq> [] \<and> list_all wf_hop (gq_hops q) \<and>
     (case gq_depth q of
        None \<Rightarrow> gq_mode q = None
      | Some (lo, hi) \<Rightarrow> lo \<le> hi \<and> hi \<le> u32_max \<and> gq_mode q \<noteq> None \<and> length (gq_hops q) = 1) \<and>
     (gq_mode q = Some Paths \<longrightarrow> gq_with_path q)"

lemma good_graph_body: "good wf_query graph_body"
  by (auto simp: graph_body_def wf_query_def wf_clauses_def split: option.split
      intro!: goodI wp_rules)

section \<open>Property\<close>

text \<open>C19: \<open>parse_graph\<close> always returns, and a query it accepts has the shape the traversal relies on:
a record, call or parameter as root, at least one hop, a depth range \<open>lo \<le> hi\<close> of 32-bit bounds
exactly when there is a mode and then exactly one hop, and paths in the output in \<open>PATHS\<close> mode.\<close>

theorem parse_graph_total:
  "case parse_graph input of
     None \<Rightarrow> False
   | Some (Inl e) \<Rightarrow> offset e \<le> length input
   | Some (Inr q) \<Rightarrow> wf_query q"
  using run_parser_good [OF good_graph_body, of input]
  by (simp add: parse_graph_def outcome_def split: option.splits sum.splits)

end
