(* ===== verification/Statements.thy ===== *)
theory Statements
  imports Graph_Parser
begin

text \<open>
  \<open>parse\<close> of \<open>fastdb/parser/src/lib.rs\<close>. The function is a sequence of attempts, each starting
  at the first token: an attempt yields a statement, an error, or nothing, in which case the next
  one is tried; what no attempt takes is left to the SQL engine verbatim. Each attempt is one
  definition, in the order of the code.
\<close>

section \<open>Statements\<close>

record record_projection =
  rp_path :: "string list"
  rp_expand :: bool
  rp_alias :: "string option"

datatype mutation_mode = Content | Merge | Patch

record field_def =
  fd_table :: string
  fd_path :: "string list"
  fd_kind :: string
  fd_target :: "string option"
  fd_required :: bool
  fd_nullable :: bool
  fd_check :: "string option"
  fd_default :: "expr option"
  fd_readonly :: bool
  fd_flexible :: bool
  fd_computed :: "string option"
  fd_overwrite :: bool

text \<open>Arguments are in the order of the fields of the Rust variants.\<close>

datatype statement =
    MutateDocument string "record_ref option" mutation_mode expr "string option" "string option"
  | CreateFunction string "(string \<times> string) list" string string bool
  | DropFunction string bool
  | DefineRelation string string string "string list"
  | DropRelation string bool
  | PatchWhere string expr "string option" "string option"
  | Upsert string "record_ref option" expr "string option"
  | RemoveField string "string list"
  | Info string "string option"
  | DefineSchema string bool
  | DefineField field_def
  | CreateVectorIndex bool string string "string list" nat string "string option"
  | CreateFullTextIndex bool string string "string list list" "string option" "nat option" "nat option"
  | CreateArrayIndex bool string string "string list"
  | CreateSpatialIndex bool string string "string list" bool
  | CreateIndex bool string string "string list" "string list list" bool string
  | Sql string
  | CreateCollection string bool
  | CreateEdgeTable string bool string string bool
  | Relate expr string "record_ref option" expr "expr option" "string option"
  | InsertInto string expr "string option"
  | SelectRecord record_ref
  | SelectRecordProjection record_ref "record_projection list"
  | PatchRecord record_ref expr "string option"
  | DeleteRecord record_ref "string option"

type_synonym attempt = "statement option parser"

definition accept :: "statement \<Rightarrow> attempt" where
  "accept s = ret (Some s)"

definition decline :: attempt where
  "decline = ret None"

text \<open>\<open>if !p.end() \{ return Err(p.error(msg)) \} return Ok(s)\<close>.\<close>

definition accept_at_end :: "string \<Rightarrow> statement \<Rightarrow> attempt" where
  "accept_at_end msg s = bnd at_end (\<lambda>b. if b then accept s else fail msg)"

text \<open>\<open>if a && b && ... \{ body \}\<close> on keywords.\<close>

definition after_keywords :: "string list \<Rightarrow> attempt \<Rightarrow> attempt" where
  "after_keywords ws body = bnd (eats ws) (\<lambda>b. if b then body else decline)"

definition sql_verbatim :: attempt where
  "sql_verbatim = bnd get_state (\<lambda>p. accept (Sql (ps_input p)))"

text \<open>\<open>if let Ok(x) = p.name()\<close>: a failing \<open>name\<close> does not move the position.\<close>

definition try_name :: "string option parser" where
  "try_name p =
     (case name p of
        None \<Rightarrow> None
      | Some (Inl e) \<Rightarrow> Some (Inr (None, p))
      | Some (Inr (x, p')) \<Rightarrow> Some (Inr (Some x, p')))"

text \<open>\<open>unwrap_or_else(|_| Statement::Sql(input))\<close>.\<close>

definition or_sql :: "attempt \<Rightarrow> attempt" where
  "or_sql m p = (case m p of Some (Inl e) \<Rightarrow> sql_verbatim p | r \<Rightarrow> r)"

definition if_exists_clause :: "bool parser" where
  "if_exists_clause = bnd (eat ''IF'') (\<lambda>b.
     if b then bnd (expect ''EXISTS'' ''expected EXISTS'') (\<lambda>_. ret True) else ret False)"

definition if_not_exists_clause :: "bool parser" where
  "if_not_exists_clause = bnd (eat ''IF'') (\<lambda>b.
     if \<not> b then ret False
     else bnd (eats [''NOT'', ''EXISTS'']) (\<lambda>ok.
       if ok then ret True else fail ''expected IF NOT EXISTS''))"

section \<open>Functions\<close>

fun parameters_loop :: "nat \<Rightarrow> (string \<times> string) list \<Rightarrow> (string \<times> string) list parser" where
  "parameters_loop 0 ps = out_of_fuel"
| "parameters_loop (Suc n) ps = bnd name (\<lambda>x. bnd function_type (\<lambda>ty.
     bnd (eat '')'') (\<lambda>closed.
     if closed then ret (ps @ [(x, ty)])
     else bnd (expect '','' ''expected comma'') (\<lambda>_.
       if 32 \<le> length (ps @ [(x, ty)]) then fail ''at most 32 parameters''
       else parameters_loop n (ps @ [(x, ty)])))))"

definition parse_create_function :: attempt where
  "parse_create_function = after_keywords [''CREATE'']
     (bnd (eat ''OR'') (\<lambda>b.
      bnd (if b then bnd (expect ''REPLACE'' ''expected REPLACE'') (\<lambda>_. ret True) else ret False)
        (\<lambda>replace.
      after_keywords [''FUNCTION'']
        (bnd function_name (\<lambda>fname.
         bnd (expect ''('' ''expected parameter list'') (\<lambda>_.
         bnd (eat '')'') (\<lambda>closed.
         bnd (if closed then ret [] else with_fuel (\<lambda>n. parameters_loop n [])) (\<lambda>parameters.
         bnd (expect ''RETURNS'' ''expected RETURNS'') (\<lambda>_.
         bnd function_type (\<lambda>returns.
         bnd (eats [''LANGUAGE'', ''JAVASCRIPT'', ''AS'']) (\<lambda>b.
         if \<not> b then fail ''expected LANGUAGE JAVASCRIPT AS''
         else bnd (peek 0) (\<lambda>t.
           case t of
             None \<Rightarrow> fail ''expected quoted JavaScript body''
           | Some t \<Rightarrow>
               if tok_kind t \<noteq> KString then fail ''expected quoted JavaScript body''
               else bnd (advance 1) (\<lambda>_.
                 accept_at_end ''unexpected function clause''
                   (CreateFunction fname parameters returns (tok_text t) replace))))))))))))))"

definition parse_drop_function :: attempt where
  "parse_drop_function = after_keywords [''DROP'', ''FUNCTION'']
     (bnd if_exists_clause (\<lambda>if_exists.
      bnd function_name (\<lambda>fname.
      accept_at_end ''unexpected DROP FUNCTION clause'' (DropFunction fname if_exists))))"

section \<open>Documents, fields and relations\<close>

definition parse_upsert :: attempt where
  "parse_upsert = after_keywords [''UPSERT'']
     (bnd (peek 1) (\<lambda>t.
      bnd (if has_text '':'' t then bnd record_target (\<lambda>r. ret (Some r)) else ret None) (\<lambda>target.
      bnd (case target of Some r \<Rightarrow> ret (rec_table r) | None \<Rightarrow> name) (\<lambda>table.
      bnd (peek 0) (\<lambda>t.
      if \<not> has_text ''{'' t then fail ''UPSERT requires an object body''
      else bnd (expr_parser 0) (\<lambda>v. bnd returning (\<lambda>returns.
        accept (Upsert table target v returns))))))))"

definition parse_remove_field :: attempt where
  "parse_remove_field = after_keywords [''REMOVE'', ''FIELD'']
     (bnd path (\<lambda>xs.
      bnd (expect ''ON'' ''expected ON'') (\<lambda>_.
      bnd name (\<lambda>table.
      accept_at_end ''unexpected REMOVE FIELD clause'' (RemoveField table xs)))))"

definition parse_info :: attempt where
  "parse_info = after_keywords [''INFO'', ''FOR'']
     (bnd name (\<lambda>s.
      let scope = to_ascii_lowercase s in
      bnd (if scope = ''db'' then ret None
           else if scope \<in> {''table'', ''index'', ''relation''} then bnd name (\<lambda>x. ret (Some x))
           else if scope = ''function'' then bnd function_name (\<lambda>x. ret (Some x))
           else fail ''expected DB, TABLE, INDEX, or RELATION'') (\<lambda>x.
      accept_at_end ''unexpected INFO clause'' (Info scope x))))"

definition parse_define_relation :: attempt where
  "parse_define_relation = after_keywords [''DEFINE'', ''RELATION'']
     (bnd name (\<lambda>x.
      bnd (expect ''ON'' ''expected ON'') (\<lambda>_.
      bnd name (\<lambda>target.
      bnd (expect ''FROM'' ''expected FROM'') (\<lambda>_.
      bnd name (\<lambda>source.
      bnd (expect ''.'' ''expected source field path'') (\<lambda>_.
      bnd path (\<lambda>xs.
      accept_at_end ''unexpected relation clause'' (DefineRelation x target source xs)))))))))"

definition parse_drop_relation :: attempt where
  "parse_drop_relation = after_keywords [''DROP'', ''RELATION'']
     (bnd if_exists_clause (\<lambda>if_exists.
      bnd name (\<lambda>x.
      accept_at_end ''unexpected DROP RELATION clause'' (DropRelation x if_exists))))"

definition parse_define_schema :: attempt where
  "parse_define_schema = after_keywords [''DEFINE'', ''SCHEMA'']
     (bnd (expect ''ON'' ''expected ON'') (\<lambda>_.
      bnd name (\<lambda>table.
      bnd (eat ''STRICT'') (\<lambda>s.
      bnd (if s then ret True
           else bnd (expect ''FLEXIBLE'' ''expected STRICT or FLEXIBLE'') (\<lambda>_. ret False)) (\<lambda>strict.
      accept_at_end ''unexpected schema clause'' (DefineSchema table strict))))))"

section \<open>Field definitions\<close>

definition vector_dimension :: "string parser" where
  "vector_dimension = bnd (peek 0) (\<lambda>t.
     case t of
       None \<Rightarrow> fail ''expected vector dimension''
     | Some t \<Rightarrow>
         if tok_kind t \<noteq> KNumber then fail ''expected vector dimension''
         else bnd (advance 1) (\<lambda>_. ret (tok_text t)))"

definition array_target :: "string \<Rightarrow> string parser" where
  "array_target target = bnd (eat ''<'') (\<lambda>b.
     bnd (if \<not> b then ret target
          else if to_ascii_lowercase target \<notin> {''record'', ''vector''}
          then fail ''array element parameters require record or vector''
          else bnd (if eq_ignore_ascii_case target ''vector'' then vector_dimension else name) (\<lambda>inner.
            bnd (expect ''>'' ''expected >'') (\<lambda>_. ret (target @ ''<'' @ inner @ ''>''))))
       (\<lambda>target'.
     bnd (peek 0) (\<lambda>t.
     if has_text ''?'' t then bnd (advance 1) (\<lambda>_. ret (target' @ ''?'')) else ret target')))"

definition field_target :: "string \<Rightarrow> string option parser" where
  "field_target kind = bnd (eat ''<'') (\<lambda>b.
     if \<not> b then ret None
     else bnd (if kind = ''vector'' then vector_dimension else name) (\<lambda>target.
       bnd (if kind = ''array'' then array_target target else ret target) (\<lambda>target'.
       bnd (expect ''>'' ''expected >'') (\<lambda>_. ret (Some target')))))"

fun parenthesized_loop :: "nat \<Rightarrow> nat \<Rightarrow> nat \<Rightarrow> string option parser" where
  "parenthesized_loop 0 start depth = out_of_fuel"
| "parenthesized_loop (Suc n) start depth = bnd get_state (\<lambda>p. bnd (peek 0) (\<lambda>t.
     case t of
       None \<Rightarrow> fail ''unterminated field expression''
     | Some t \<Rightarrow> bnd (advance 1) (\<lambda>_.
         if is_symbol ''('' t then parenthesized_loop n start (depth + 1)
         else if is_symbol '')'' t then
           (if depth - 1 = 0 then ret (Some (trim (subslice (ps_input p) start (tok_start t))))
            else parenthesized_loop n start (depth - 1))
         else parenthesized_loop n start depth)))"

definition expression_clause :: "string \<Rightarrow> string option parser" where
  "expression_clause w = bnd (eat w) (\<lambda>b.
     if \<not> b then ret None
     else bnd (expect ''('' ''expected parenthesized field expression'') (\<lambda>_.
       bnd get_state (\<lambda>p.
       with_fuel (\<lambda>n. parenthesized_loop n (tok_end (ps_tokens p ! (ps_pos p - 1))) 1))))"

definition parse_define_field :: attempt where
  "parse_define_field = after_keywords [''DEFINE'', ''FIELD'']
     (bnd (eat ''OVERWRITE'') (\<lambda>overwrite.
      bnd path (\<lambda>xs.
      bnd (expect ''ON'' ''expected ON'') (\<lambda>_.
      bnd name (\<lambda>table.
      bnd (expect ''TYPE'' ''expected TYPE'') (\<lambda>_.
      bnd name (\<lambda>k.
      bnd (field_target (to_ascii_lowercase k)) (\<lambda>target.
      bnd (eat ''REQUIRED'') (\<lambda>required.
      bnd (eat ''NULLABLE'') (\<lambda>nullable.
      bnd (eat ''DEFAULT'') (\<lambda>b.
      bnd (if b then bnd (expr_parser 0) (\<lambda>x. ret (Some x)) else ret None) (\<lambda>default.
      bnd (eat ''READONLY'') (\<lambda>readonly.
      bnd (eat ''FLEXIBLE'') (\<lambda>flexible.
      bnd (expression_clause ''VALUE'') (\<lambda>computed.
      bnd (expression_clause ''CHECK'') (\<lambda>check.
      accept_at_end ''unsupported field definition clause''
        (DefineField
          \<lparr>fd_table = table, fd_path = xs, fd_kind = to_ascii_lowercase k, fd_target = target,
           fd_required = required, fd_nullable = nullable, fd_check = check, fd_default = default,
           fd_readonly = readonly, fd_flexible = flexible, fd_computed = computed,
           fd_overwrite = overwrite\<rparr>)))))))))))))))))"

section \<open>Search indexes\<close>

record vector_options =
  vo_dimensions :: "nat option"
  vo_metric :: "string option"
  vo_quantization :: "string option"

text \<open>The value of one option of \<open>USING VECTOR WITH\<close>, the token not yet consumed.\<close>

definition vector_option :: "string \<Rightarrow> token \<Rightarrow> vector_options \<Rightarrow> vector_options parser" where
  "vector_option option t o1 =
     (if option = ''dimensions'' \<and> vo_dimensions o1 = None then
        (if tok_kind t \<noteq> KNumber then fail ''expected integer dimensions''
         else case parse_unsigned usize_max (tok_text t) of
                None \<Rightarrow> fail ''expected integer dimensions''
              | Some v \<Rightarrow> ret (o1\<lparr>vo_dimensions := Some v\<rparr>))
      else if option = ''metric'' \<and> vo_metric o1 = None \<and> tok_kind t = KString then
        ret (o1\<lparr>vo_metric := Some (tok_text t)\<rparr>)
      else if option = ''quantization'' \<and> vo_quantization o1 = None \<and> tok_kind t = KString then
        ret (o1\<lparr>vo_quantization := Some (tok_text t)\<rparr>)
      else fail ''expected unique dimensions, metric and quantization options'')"

record analyzer_options =
  ao_tokenizer :: "string option"
  ao_min_gram :: "nat option"
  ao_max_gram :: "nat option"

definition analyzer_option :: "string \<Rightarrow> token \<Rightarrow> analyzer_options \<Rightarrow> analyzer_options parser" where
  "analyzer_option option t o1 =
     (if option = ''tokenizer'' \<and> ao_tokenizer o1 = None \<and> tok_kind t = KString then
        ret (o1\<lparr>ao_tokenizer := Some (tok_text t)\<rparr>)
      else if option \<in> {''min_gram'', ''max_gram''} \<and> tok_kind t = KNumber then
        (case parse_unsigned usize_max (tok_text t) of
           None \<Rightarrow> fail ''expected integer ngram size''
         | Some v \<Rightarrow>
             if option = ''min_gram'' then
               (if ao_min_gram o1 \<noteq> None then fail ''duplicate analyzer option''
                else ret (o1\<lparr>ao_min_gram := Some v\<rparr>))
             else
               (if ao_max_gram o1 \<noteq> None then fail ''duplicate analyzer option''
                else ret (o1\<lparr>ao_max_gram := Some v\<rparr>)))
      else fail ''expected unique tokenizer, min_gram or max_gram option'')"

text \<open>The loop \<open>name = value, ...\<close> both index kinds use, over the handler of one option.\<close>

fun options_loop :: "(string \<Rightarrow> token \<Rightarrow> 'o \<Rightarrow> 'o parser) \<Rightarrow> nat \<Rightarrow> 'o \<Rightarrow> 'o parser" where
  "options_loop h 0 opts = out_of_fuel"
| "options_loop h (Suc n) opts = bnd name (\<lambda>x.
     bnd (expect ''='' ''expected ='') (\<lambda>_.
     bnd (peek 0) (\<lambda>t.
     case t of
       None \<Rightarrow> fail ''expected option value''
     | Some t \<Rightarrow> bnd (h (to_ascii_lowercase x) t opts) (\<lambda>opts'.
         bnd (advance 1) (\<lambda>_.
         bnd (eat '','') (\<lambda>more_options.
         if more_options then options_loop h n opts' else ret opts'))))))"

type_synonym index_head = "bool \<times> string \<times> string \<times> string list list"

definition vector_index :: "index_head \<Rightarrow> attempt" where
  "vector_index = (\<lambda>(if_not_exists, table, x, paths).
     if length paths \<noteq> 1 then fail ''expected one VECTOR path and WITH options''
     else bnd (eats [''WITH'', ''('']) (\<lambda>b.
       if \<not> b then fail ''expected one VECTOR path and WITH options''
       else bnd (with_fuel (\<lambda>n. options_loop vector_option n
           \<lparr>vo_dimensions = None, vo_metric = None, vo_quantization = None\<rparr>)) (\<lambda>opts.
         bnd (eat '')'') (\<lambda>b. bnd (if b then at_end else ret False) (\<lambda>b.
         if \<not> b then fail ''expected end of VECTOR options''
         else case vo_dimensions opts of
             None \<Rightarrow> fail ''missing dimensions''
           | Some dimensions \<Rightarrow>
               (case vo_metric opts of
                  None \<Rightarrow> fail ''missing metric''
                | Some metric \<Rightarrow> accept (CreateVectorIndex if_not_exists table x (hd paths)
                    dimensions metric (vo_quantization opts))))))))"

definition fulltext_index :: "index_head \<Rightarrow> attempt" where
  "fulltext_index = (\<lambda>(if_not_exists, table, x, paths).
     bnd (eat ''WITH'') (\<lambda>b.
     bnd (if \<not> b then ret \<lparr>ao_tokenizer = None, ao_min_gram = None, ao_max_gram = None\<rparr>
          else bnd (expect ''('' ''expected analyzer options'') (\<lambda>_.
            bnd (with_fuel (\<lambda>n. options_loop analyzer_option n
              \<lparr>ao_tokenizer = None, ao_min_gram = None, ao_max_gram = None\<rparr>)) (\<lambda>opts.
            bnd (expect '')'' ''expected end of analyzer options'') (\<lambda>_. ret opts)))) (\<lambda>opts.
     accept_at_end ''expected end of FULLTEXT index''
       (CreateFullTextIndex if_not_exists table x paths (ao_tokenizer opts) (ao_min_gram opts)
         (ao_max_gram opts)))))"

definition array_index :: "index_head \<Rightarrow> attempt" where
  "array_index = (\<lambda>(if_not_exists, table, x, paths).
     if length paths \<noteq> 1 then fail ''ARRAY index requires one path''
     else accept_at_end ''ARRAY index requires one path''
       (CreateArrayIndex if_not_exists table x (hd paths)))"

definition geometry_option :: "bool parser" where
  "geometry_option = bnd (eat ''('') (\<lambda>b.
     bnd (if b then bnd name (\<lambda>x. ret (eq_ignore_ascii_case x ''geometry'')) else ret False) (\<lambda>b.
     bnd (if b then eat ''='' else ret False) (\<lambda>b.
     if \<not> b then fail (''expected WITH (geometry = '' @ [CHR 0x27] @ ''point'' @ [CHR 0x27] @
       '' or '' @ [CHR 0x27] @ ''region'' @ [CHR 0x27] @ '')'')
     else bnd (peek 0) (\<lambda>t.
       case t of
         None \<Rightarrow> fail ''expected geometry option value''
       | Some t \<Rightarrow>
           if tok_kind t \<noteq> KString \<or> tok_text t \<notin> {''point'', ''region''}
           then fail (''geometry must be '' @ [CHR 0x27] @ ''point'' @ [CHR 0x27] @
             '' or '' @ [CHR 0x27] @ ''region'' @ [CHR 0x27])
           else bnd (advance 1) (\<lambda>_.
             bnd (expect '')'' ''expected end of SPATIAL options'') (\<lambda>_.
             ret (tok_text t = ''region'')))))))"

definition spatial_index :: "index_head \<Rightarrow> attempt" where
  "spatial_index = (\<lambda>(if_not_exists, table, x, paths).
     bnd (eat ''SPATIAL'') (\<lambda>b.
     if \<not> b \<or> length paths \<noteq> 1 then fail ''expected FULLTEXT paths or one SPATIAL path''
     else bnd (eat ''WITH'') (\<lambda>b.
       bnd (if b then geometry_option else ret False) (\<lambda>regions.
       accept_at_end ''expected end of SPATIAL index''
         (CreateSpatialIndex if_not_exists table x (hd paths) regions)))))"

fun paths_loop :: "nat \<Rightarrow> string list list \<Rightarrow> string list list parser" where
  "paths_loop 0 paths = out_of_fuel"
| "paths_loop (Suc n) paths = bnd (eat '','') (\<lambda>b.
     if b then bnd path (\<lambda>xs. paths_loop n (paths @ [xs])) else ret paths)"

definition parse_search_index :: attempt where
  "parse_search_index = after_keywords [''CREATE'', ''SEARCH'', ''INDEX'']
     (bnd if_not_exists_clause (\<lambda>if_not_exists.
      bnd name (\<lambda>x.
      bnd (expect ''ON'' ''expected ON'') (\<lambda>_.
      bnd name (\<lambda>table.
      bnd (expect ''('' ''expected ('') (\<lambda>_.
      bnd path (\<lambda>xs.
      bnd (with_fuel (\<lambda>n. paths_loop n [xs])) (\<lambda>paths.
      bnd (eats ['')'', ''USING'']) (\<lambda>b.
      if \<not> b then fail ''expected USING search kind''
      else let h = (if_not_exists, table, x, paths) in
        bnd (eat ''VECTOR'') (\<lambda>b. if b then vector_index h
        else bnd (eat ''FULLTEXT'') (\<lambda>b. if b then fulltext_index h
        else bnd (eat ''ARRAY'') (\<lambda>b. if b then array_index h
        else spatial_index h))))))))))))"

section \<open>Tables\<close>

definition create_index_body :: "bool \<Rightarrow> attempt" where
  "create_index_body unique =
     bnd if_not_exists_clause (\<lambda>if_not_exists.
     bnd name (\<lambda>x.
     bnd (expect ''ON'' ''expected ON'') (\<lambda>_.
     bnd name (\<lambda>table.
     bnd (expect ''('' ''expected ('') (\<lambda>_.
     bnd path (\<lambda>xs.
     bnd (with_fuel (\<lambda>n. paths_loop n [])) (\<lambda>additional_paths.
     bnd (expect '')'' ''expected index end'') (\<lambda>_.
     bnd get_state (\<lambda>p.
     accept_at_end ''expected index end''
       (CreateIndex if_not_exists table x xs additional_paths unique (ps_input p)))))))))))"

definition parse_create_index :: attempt where
  "parse_create_index = after_keywords [''CREATE'']
     (bnd (eat ''UNIQUE'') (\<lambda>unique.
      after_keywords [''INDEX''] (or_sql (create_index_body unique))))"

definition parse_edge_table :: attempt where
  "parse_edge_table = after_keywords [''CREATE'', ''EDGE'']
     (bnd (expect ''TABLE'' ''expected CREATE EDGE TABLE'') (\<lambda>_.
      bnd if_not_exists_clause (\<lambda>if_not_exists.
      bnd name (\<lambda>x.
      bnd (expect ''FROM'' ''expected FROM source collection'') (\<lambda>_.
      bnd name (\<lambda>source.
      bnd (expect ''TO'' ''expected TO target collection'') (\<lambda>_.
      bnd name (\<lambda>target.
      bnd (eat ''ON'') (\<lambda>b.
      bnd (if \<not> b then ret False
           else bnd (expect ''DELETE'' ''expected ON DELETE'') (\<lambda>_.
             bnd (eat ''CASCADE'') (\<lambda>c.
             if c then ret True
             else bnd (expect ''RESTRICT'' ''expected ON DELETE RESTRICT or CASCADE'') (\<lambda>_.
               ret False)))) (\<lambda>cascade.
      accept_at_end ''unexpected CREATE EDGE TABLE clause''
        (CreateEdgeTable x if_not_exists source target cascade)))))))))))"

definition document_follows :: "bool parser" where
  "document_follows = bnd (peek 0) (\<lambda>t. if has_text ''{'' t then ret True else eat ''DOCUMENT'')"

definition parse_relate :: attempt where
  "parse_relate = after_keywords [''RELATE'']
     (bnd endpoint (\<lambda>source.
      bnd arrow (\<lambda>d.
      if d \<noteq> Some Out then fail ''RELATE uses source -> edge -> target''
      else bnd relate_edge (\<lambda>(edge, id).
        bnd arrow (\<lambda>d.
        if d \<noteq> Some Out then fail ''RELATE uses source -> edge -> target''
        else bnd endpoint (\<lambda>target.
          bnd document_follows (\<lambda>b.
          bnd (if b then bnd (expr_parser 0) (\<lambda>x. ret (Some x)) else ret None) (\<lambda>v.
          bnd returning (\<lambda>returns.
          accept (Relate source edge id target v returns))))))))))"

definition parse_create_table :: attempt where
  "parse_create_table = after_keywords [''CREATE'', ''TABLE'']
     (bnd (eat ''IF'') (\<lambda>if_not_exists.
      bnd (if if_not_exists then eats [''NOT'', ''EXISTS''] else ret True) (\<lambda>ok.
      if \<not> ok then sql_verbatim
      else bnd try_name (\<lambda>x.
        case x of
          None \<Rightarrow> decline
        | Some x \<Rightarrow> bnd at_end (\<lambda>b. if b then accept (CreateCollection x if_not_exists) else decline)))))"

section \<open>Reading and writing documents\<close>

definition insert_target :: attempt where
  "insert_target = bnd record_target (\<lambda>target.
     bnd (peek 0) (\<lambda>t.
     if \<not> has_text ''{'' t then fail ''record target INSERT requires an object body''
     else bnd (expr_parser 0) (\<lambda>v.
       case v of
         EObject entries \<Rightarrow>
           if bm_contains ''id'' entries then fail ''record target INSERT body must omit id''
           else bnd returning (\<lambda>returns.
             accept (InsertInto (rec_table target)
               (EObject (bm_insert ''id'' (ERecord target) entries)) returns))
       | _ \<Rightarrow> fail ''record target INSERT requires an object body'')))"

definition parse_insert :: attempt where
  "parse_insert = after_keywords [''INSERT'', ''INTO'']
     (bnd (peek 1) (\<lambda>t1. bnd (peek 2) (\<lambda>t2.
      if has_text '':'' t1 \<and> \<not> has_text '':'' t2 then insert_target
      else bnd name (\<lambda>table.
        bnd document_follows (\<lambda>b.
        if b then bnd (expr_parser 0) (\<lambda>v. bnd returning (\<lambda>returns. accept (InsertInto table v returns)))
        else decline)))))"

definition mutation_mode_clause :: "mutation_mode option parser" where
  "mutation_mode_clause =
     bnd (eat ''CONTENT'') (\<lambda>b. if b then ret (Some Content)
     else bnd (eat ''MERGE'') (\<lambda>b. if b then ret (Some Merge)
     else bnd (eat ''PATCH'') (\<lambda>b. if b then ret (Some Patch)
     else ret None)))"

definition parse_mutate :: attempt where
  "parse_mutate = after_keywords [''UPDATE'']
     (bnd try_name (\<lambda>x.
      case x of
        None \<Rightarrow> decline
      | Some table \<Rightarrow>
          bnd (peek 0) (\<lambda>t0. bnd (peek 1) (\<lambda>t1.
          bnd (if has_text '':'' t0 \<and> \<not> has_text '':'' t1
               then bnd (set_pos 1) (\<lambda>_. bnd record_target (\<lambda>r. ret (Some r))) else ret None) (\<lambda>target.
          bnd mutation_mode_clause (\<lambda>mode.
          case mode of
            None \<Rightarrow> decline
          | Some mode \<Rightarrow>
              bnd (expr_parser 0) (\<lambda>v.
              bnd predicate (\<lambda>pred.
              if target \<noteq> None \<and> pred \<noteq> None
              then fail ''fixed mutation targets do not accept an additional WHERE''
              else bnd returning (\<lambda>returns.
                accept (MutateDocument table target mode v pred returns))))))))))"

definition parse_patch_where :: attempt where
  "parse_patch_where = after_keywords [''UPDATE'']
     (bnd try_name (\<lambda>x.
      case x of
        None \<Rightarrow> decline
      | Some table \<Rightarrow>
          bnd (peek 0) (\<lambda>t.
          if \<not> has_text ''{'' t then decline
          else bnd (expr_parser 0) (\<lambda>v. bnd predicate (\<lambda>pred. bnd returning (\<lambda>returns.
            accept (PatchWhere table v pred returns)))))))"

fun projection_path :: "nat \<Rightarrow> string list \<Rightarrow> (string list \<times> bool) parser" where
  "projection_path 0 xs = out_of_fuel"
| "projection_path (Suc n) xs = bnd (eat ''.'') (\<lambda>b.
     if \<not> b then ret (xs, False)
     else bnd (eat ''*'') (\<lambda>star.
       if star then ret (xs, True) else bnd name (\<lambda>x. projection_path n (xs @ [x]))))"

definition projection_field :: "record_projection parser" where
  "projection_field = bnd (eat ''*'') (\<lambda>star.
     bnd (if star then ret ([], False)
          else bnd name (\<lambda>x. with_fuel (\<lambda>n. projection_path n [x]))) (\<lambda>(xs, expand).
     bnd (eat ''AS'') (\<lambda>b.
     bnd (if b then bnd name (\<lambda>x. ret (Some x)) else ret None) (\<lambda>alias.
     ret \<lparr>rp_path = xs, rp_expand = expand, rp_alias = alias\<rparr>))))"

fun projections_loop :: "nat \<Rightarrow> record_projection list \<Rightarrow> record_projection list parser" where
  "projections_loop 0 fs = out_of_fuel"
| "projections_loop (Suc n) fs = bnd projection_field (\<lambda>f.
     bnd (eat ''}'') (\<lambda>closed.
     if closed then ret (fs @ [f])
     else bnd (expect '','' ''expected comma or closing projection brace'') (\<lambda>_.
       bnd (eat ''}'') (\<lambda>closed.
       if closed then ret (fs @ [f]) else projections_loop n (fs @ [f])))))"

definition select_record :: "record_ref \<Rightarrow> attempt" where
  "select_record target = bnd (eat ''{'') (\<lambda>b.
     if b then bnd (with_fuel (\<lambda>n. projections_loop n [])) (\<lambda>fs.
       accept_at_end ''unexpected record projection clause'' (SelectRecordProjection target fs))
     else bnd at_end (\<lambda>b. if b then accept (SelectRecord target) else sql_verbatim))"

definition update_record :: "record_ref \<Rightarrow> attempt" where
  "update_record target = bnd (peek 0) (\<lambda>t.
     if is_word ''SET'' t \<or> is_word ''UNSET'' t then sql_verbatim
     else bnd (expr_parser 0) (\<lambda>v. bnd returning (\<lambda>returns. accept (PatchRecord target v returns))))"

definition delete_record :: "record_ref \<Rightarrow> attempt" where
  "delete_record target = bnd returning (\<lambda>returns. accept (DeleteRecord target returns))"

text \<open>One round of the loop over \<open>["SELECT", "UPDATE", "DELETE"]\<close>.\<close>

definition record_verb :: "string list \<Rightarrow> (record_ref \<Rightarrow> attempt) \<Rightarrow> attempt" where
  "record_verb ws body = after_keywords ws
     (bnd (peek 1) (\<lambda>t1. bnd (peek 2) (\<lambda>t2.
      if \<not> has_text '':'' t1 \<or> has_text '':'' t2 then decline
      else bnd record_target body)))"

section \<open>The entry point\<close>

definition attempts :: "attempt list" where
  "attempts =
     [parse_create_function, parse_drop_function, parse_upsert, parse_remove_field, parse_info,
      parse_define_relation, parse_drop_relation, parse_define_schema, parse_define_field,
      parse_search_index, parse_create_index, parse_edge_table, parse_relate, parse_create_table,
      parse_insert, parse_mutate, parse_patch_where,
      record_verb [''SELECT''] select_record, record_verb [''UPDATE''] update_record,
      record_verb [''DELETE'', ''FROM''] delete_record]"

fun dispatch :: "attempt list \<Rightarrow> statement parser" where
  "dispatch [] = bnd get_state (\<lambda>p. ret (Sql (ps_input p)))"
| "dispatch (a # as) = bnd (set_pos 0) (\<lambda>_. bnd a (\<lambda>r.
     case r of Some s \<Rightarrow> ret s | None \<Rightarrow> dispatch as))"

definition parse :: "string \<Rightarrow> (syntax_error + statement) option" where
  "parse = run_parser (dispatch attempts)"

section \<open>Well-formed statements\<close>

definition wf_opt :: "('a \<Rightarrow> bool) \<Rightarrow> 'a option \<Rightarrow> bool" where
  "wf_opt P x \<longleftrightarrow> (case x of None \<Rightarrow> True | Some y \<Rightarrow> P y)"

lemma wf_opt_simps [simp]: "wf_opt P None" "wf_opt P (Some x) = P x"
  by (simp_all add: wf_opt_def)

text \<open>
  What the frontend may assume of a statement parsed from \<open>input\<close>: every expression is well
  formed and inside the height bound, record targets are normalised and agree with the table they
  carry, paths are not empty, a statement left to the engine is the input itself.
\<close>

definition wf_statement :: "string \<Rightarrow> statement \<Rightarrow> bool" where
  "wf_statement input s \<longleftrightarrow>
     (case s of
        MutateDocument table target mode v pred returns \<Rightarrow>
          bounded_expr v \<and> wf_opt wf_record target \<and> (target = None \<or> pred = None)
      | CreateFunction f parameters returns body replace \<Rightarrow> length parameters \<le> 32
      | DefineRelation x target source xs \<Rightarrow> xs \<noteq> []
      | PatchWhere table v pred returns \<Rightarrow> bounded_expr v
      | Upsert table target v returns \<Rightarrow>
          bounded_expr v \<and> wf_opt (\<lambda>r. wf_record r \<and> table = rec_table r) target
      | RemoveField table xs \<Rightarrow> xs \<noteq> []
      | DefineField d \<Rightarrow> fd_path d \<noteq> [] \<and> wf_opt bounded_expr (fd_default d)
      | CreateVectorIndex b table x xs dimensions metric quantization \<Rightarrow>
          xs \<noteq> [] \<and> dimensions \<le> usize_max
      | CreateFullTextIndex b table x paths tokenizer min_gram max_gram \<Rightarrow>
          paths \<noteq> [] \<and> list_all (\<lambda>xs. xs \<noteq> []) paths
      | CreateArrayIndex b table x xs \<Rightarrow> xs \<noteq> []
      | CreateSpatialIndex b table x xs regions \<Rightarrow> xs \<noteq> []
      | CreateIndex b table x xs additional unique sql \<Rightarrow>
          xs \<noteq> [] \<and> list_all (\<lambda>xs. xs \<noteq> []) additional \<and> sql = input
      | Sql sql \<Rightarrow> sql = input
      | Relate source edge i target v returns \<Rightarrow>
          wf_expr source \<and> endpoint_expr source \<and> wf_expr target \<and> endpoint_expr target \<and>
          wf_opt bounded_expr v \<and> wf_opt wf_record i
      | InsertInto table v returns \<Rightarrow> wf_expr v
      | SelectRecord r \<Rightarrow> wf_record r
      | SelectRecordProjection r fs \<Rightarrow> wf_record r \<and> fs \<noteq> []
      | PatchRecord r v returns \<Rightarrow> wf_record r \<and> bounded_expr v
      | DeleteRecord r returns \<Rightarrow> wf_record r
      | _ \<Rightarrow> True)"

text \<open>
  An attempt is total, and a statement it accepts is well formed for the input. Unlike
  \<open>good\<close> it may move the position back.
\<close>

definition good_attempt :: "attempt \<Rightarrow> bool" where
  "good_attempt m \<longleftrightarrow>
     (\<forall>src p. wf_pstate src p \<longrightarrow>
        wp src m (\<lambda>r p'. wf_pstate src p' \<and> wf_opt (wf_statement (ps_input src)) r) p)"

lemma good_attemptI:
  assumes "\<And>src p. wf_pstate src p \<Longrightarrow>
    wp src m (\<lambda>r p'. wf_pstate src p' \<and> wf_opt (wf_statement (ps_input src)) r) p"
  shows "good_attempt m"
  using assms by (simp add: good_attempt_def)

lemma good_attemptD:
  assumes "good_attempt m" and "wf_pstate src p"
    and "\<And>r p'. wf_pstate src p' \<Longrightarrow> wf_opt (wf_statement (ps_input src)) r \<Longrightarrow> Q r p'"
  shows "wp src m Q p"
  using assms(1) [unfolded good_attempt_def, rule_format, OF assms(2)]
  by (rule wp_mono) (use assms(3) in auto)

lemma wp_accept [simp]: "wp src (accept s) Q p \<longleftrightarrow> Q (Some s) p"
  by (simp add: accept_def)

lemma wp_decline [simp]: "wp src decline Q p \<longleftrightarrow> Q None p"
  by (simp add: decline_def)

lemma wp_sql_verbatim [simp]: "wp src sql_verbatim Q p \<longleftrightarrow> Q (Some (Sql (ps_input p))) p"
  by (simp add: sql_verbatim_def)

lemma wp_accept_at_end [wp_rules]:
  assumes "wf_pstate src p" and "\<And>p'. wf_pstate src p' \<Longrightarrow> Q (Some s) p'"
  shows "wp src (accept_at_end msg s) Q p"
  using assms by (auto simp: accept_at_end_def intro!: wp_rules)

lemma wp_after_keywords [wp_rules]:
  assumes "wf_pstate src p" and "\<And>p'. wf_pstate src p' \<Longrightarrow> wp src body Q p'"
    and "\<And>p'. wf_pstate src p' \<Longrightarrow> Q None p'"
  shows "wp src (after_keywords ws body) Q p"
  using assms by (auto simp: after_keywords_def intro!: wp_rules)

lemma wp_try_name [wp_rules]:
  assumes "wf_pstate src p" and "Q None p"
    and "\<And>x p'. wf_pstate src p' \<Longrightarrow> ps_pos p' = Suc (ps_pos p) \<Longrightarrow> Q (Some x) p'"
  shows "wp src try_name Q p"
proof -
  have "wp src name (\<lambda>x p'. wf_pstate src p' \<and> ps_pos p' = Suc (ps_pos p)) p"
    using assms(1) by (auto intro!: wp_rules)
  then show ?thesis using assms(2,3)
    by (auto simp: wp_def try_name_def split: option.splits sum.splits)
qed

lemma wp_or_sql [wp_rules]:
  assumes "wf_pstate src p" and "wp src m Q p" and "Q (Some (Sql (ps_input p))) p"
  shows "wp src (or_sql m) Q p"
  using assms(2,3) wp_sql_verbatim [of src Q p]
  by (auto simp: wp_def or_sql_def split: option.splits sum.splits)

lemma good_if_exists: "good (\<lambda>_. True) if_exists_clause"
  by (auto simp: if_exists_clause_def intro!: goodI wp_rules)

lemma good_if_not_exists: "good (\<lambda>_. True) if_not_exists_clause"
  by (auto simp: if_not_exists_clause_def intro!: goodI wp_rules)

lemmas wp_if_exists [wp_rules] = goodD [OF good_if_exists]
lemmas wp_if_not_exists [wp_rules] = goodD [OF good_if_not_exists]

declare parameters_loop.simps [simp del] parenthesized_loop.simps [simp del]
  options_loop.simps [simp del] paths_loop.simps [simp del] projection_path.simps [simp del]
  projections_loop.simps [simp del]

lemma wp_parameters_loop [wp_rules]:
  assumes "wf_pstate src p" and "length (ps_tokens src) < n + ps_pos p" and "length xs < 32"
    and "\<And>x p'. wf_pstate src p' \<Longrightarrow> ps_pos p \<le> ps_pos p' \<Longrightarrow> length x \<le> 32 \<Longrightarrow> Q x p'"
  shows "wp src (parameters_loop n xs) Q p"
  using assms
proof (induction n arbitrary: p xs)
  case 0
  then show ?case using wf_pos_le [OF 0(1)] by simp
next
  case (Suc n)
  show ?case using Suc.prems by (auto simp: parameters_loop.simps intro!: wp_rules Suc.IH)
qed

lemma wp_paths_loop [wp_rules]:
  assumes "wf_pstate src p" and "length (ps_tokens src) < n + ps_pos p"
    and "list_all (\<lambda>xs. xs \<noteq> []) ps"
    and "\<And>x p'. wf_pstate src p' \<Longrightarrow> ps_pos p \<le> ps_pos p' \<Longrightarrow> list_all (\<lambda>xs. xs \<noteq> []) x \<Longrightarrow>
      length ps \<le> length x \<Longrightarrow> Q x p'"
  shows "wp src (paths_loop n ps) Q p"
  using assms
proof (induction n arbitrary: p ps)
  case 0
  then show ?case using wf_pos_le [OF 0(1)] by simp
next
  case (Suc n)
  show ?case using Suc.prems by (auto simp: paths_loop.simps intro!: wp_rules Suc.IH)
qed

lemma wp_parenthesized_loop [wp_rules]:
  assumes "wf_pstate src p" and "length (ps_tokens src) < n + ps_pos p"
    and "\<And>x p'. wf_pstate src p' \<Longrightarrow> ps_pos p \<le> ps_pos p' \<Longrightarrow> Q x p'"
  shows "wp src (parenthesized_loop n i d) Q p"
  using assms
proof (induction n arbitrary: p d)
  case 0
  then show ?case using wf_pos_le [OF 0(1)] by simp
next
  case (Suc n)
  show ?case using Suc.prems by (auto simp: parenthesized_loop.simps intro!: wp_rules Suc.IH)
qed

lemma wp_projection_path [wp_rules]:
  assumes "wf_pstate src p" and "length (ps_tokens src) < n + ps_pos p"
    and "\<And>x p'. wf_pstate src p' \<Longrightarrow> ps_pos p \<le> ps_pos p' \<Longrightarrow> Q x p'"
  shows "wp src (projection_path n xs) Q p"
  using assms
proof (induction n arbitrary: p xs)
  case 0
  then show ?case using wf_pos_le [OF 0(1)] by simp
next
  case (Suc n)
  show ?case using Suc.prems by (auto simp: projection_path.simps intro!: wp_rules Suc.IH)
qed

lemma good_projection_field: "good (\<lambda>_. True) projection_field"
  by (auto simp: projection_field_def split: prod.split intro!: goodI wp_rules)

lemmas wp_projection_field [wp_rules] = goodD [OF good_projection_field]

lemma wp_projections_loop [wp_rules]:
  assumes "wf_pstate src p" and "length (ps_tokens src) < n + ps_pos p"
    and "\<And>x p'. wf_pstate src p' \<Longrightarrow> ps_pos p \<le> ps_pos p' \<Longrightarrow> x \<noteq> [] \<Longrightarrow> Q x p'"
  shows "wp src (projections_loop n fs) Q p"
  using assms
proof (induction n arbitrary: p fs)
  case 0
  then show ?case using wf_pos_le [OF 0(1)] by simp
next
  case (Suc n)
  show ?case using Suc.prems by (auto simp: projections_loop.simps intro!: wp_rules Suc.IH)
qed

text \<open>An option handler reads the token and does not move the position.\<close>

locale option_handler =
  fixes h :: "string \<Rightarrow> token \<Rightarrow> 'o \<Rightarrow> 'o parser" and ok :: "'o \<Rightarrow> bool"
  assumes handle: "wf_pstate src p \<Longrightarrow> ok opts \<Longrightarrow> (\<And>opts'. ok opts' \<Longrightarrow> Q opts' p) \<Longrightarrow>
    wp src (h x t opts) Q p"
begin

lemma wp_options_loop:
  assumes "wf_pstate src p" and "length (ps_tokens src) < n + ps_pos p" and "ok opts"
    and "\<And>opts' p'. wf_pstate src p' \<Longrightarrow> ps_pos p \<le> ps_pos p' \<Longrightarrow> ok opts' \<Longrightarrow> Q opts' p'"
  shows "wp src (options_loop h n opts) Q p"
  using assms
proof (induction n arbitrary: p opts)
  case 0
  then show ?case using wf_pos_le [OF 0(1)] by simp
next
  case (Suc n)
  show ?case using Suc.prems by (auto simp: options_loop.simps intro!: wp_rules handle Suc.IH)
qed

end

interpretation vector: option_handler vector_option "\<lambda>opts. wf_opt (\<lambda>n. n \<le> usize_max) (vo_dimensions opts)"
  by unfold_locales
    (auto simp: vector_option_def split: option.split dest: parse_unsigned_limit intro!: wp_rules)

interpretation analyzer: option_handler analyzer_option "\<lambda>_. True"
  by unfold_locales (auto simp: analyzer_option_def split: option.split intro!: wp_rules)

section \<open>Every attempt is total\<close>

lemma good_create_function: "good_attempt parse_create_function"
  by (auto simp: parse_create_function_def wf_statement_def intro!: good_attemptI wp_rules)

lemma good_drop_function: "good_attempt parse_drop_function"
  by (auto simp: parse_drop_function_def wf_statement_def intro!: good_attemptI wp_rules)

lemma good_upsert: "good_attempt parse_upsert"
  by (auto simp: parse_upsert_def wf_statement_def intro!: good_attemptI wp_rules)

lemma good_remove_field: "good_attempt parse_remove_field"
  by (auto simp: parse_remove_field_def wf_statement_def intro!: good_attemptI wp_rules)

lemma good_info: "good_attempt parse_info"
  by (auto simp: parse_info_def wf_statement_def Let_def intro!: good_attemptI wp_rules)

lemma good_define_relation: "good_attempt parse_define_relation"
  by (auto simp: parse_define_relation_def wf_statement_def intro!: good_attemptI wp_rules)

lemma good_drop_relation: "good_attempt parse_drop_relation"
  by (auto simp: parse_drop_relation_def wf_statement_def intro!: good_attemptI wp_rules)

lemma good_define_schema: "good_attempt parse_define_schema"
  by (auto simp: parse_define_schema_def wf_statement_def intro!: good_attemptI wp_rules)

lemma good_vector_dimension: "good (\<lambda>_. True) vector_dimension"
  by (auto simp: vector_dimension_def intro!: goodI wp_rules)

lemmas wp_vector_dimension [wp_rules] = goodD [OF good_vector_dimension]

lemma good_array_target: "good (\<lambda>_. True) (array_target x)"
  by (auto simp: array_target_def intro!: goodI wp_rules)

lemmas wp_array_target [wp_rules] = goodD [OF good_array_target]

lemma good_field_target: "good (\<lambda>_. True) (field_target k)"
  by (auto simp: field_target_def intro!: goodI wp_rules)

lemmas wp_field_target [wp_rules] = goodD [OF good_field_target]

lemma good_expression_clause: "good (\<lambda>_. True) (expression_clause w)"
  by (auto simp: expression_clause_def intro!: goodI wp_rules)

lemmas wp_expression_clause [wp_rules] = goodD [OF good_expression_clause]

lemma good_define_field: "good_attempt parse_define_field"
  by (auto simp: parse_define_field_def wf_statement_def intro!: good_attemptI wp_rules)

definition wf_head :: "index_head \<Rightarrow> bool" where
  "wf_head h \<longleftrightarrow> (case h of (b, table, x, paths) \<Rightarrow> paths \<noteq> [] \<and> list_all (\<lambda>xs. xs \<noteq> []) paths)"

lemma wf_head_hd: "list_all (\<lambda>xs. xs \<noteq> []) paths \<Longrightarrow> paths \<noteq> [] \<Longrightarrow> hd paths \<noteq> []"
  by (cases paths) auto

lemma good_vector_index: "wf_head h \<Longrightarrow> good_attempt (vector_index h)"
  by (auto simp: vector_index_def wf_head_def wf_statement_def wf_head_hd split: option.split
      intro!: good_attemptI wp_rules vector.wp_options_loop)

lemma good_fulltext_index: "wf_head h \<Longrightarrow> good_attempt (fulltext_index h)"
  by (auto simp: fulltext_index_def wf_head_def wf_statement_def
      intro!: good_attemptI wp_rules analyzer.wp_options_loop)

lemma good_array_index: "wf_head h \<Longrightarrow> good_attempt (array_index h)"
  by (auto simp: array_index_def wf_head_def wf_statement_def wf_head_hd intro!: good_attemptI wp_rules)

lemma good_geometry_option: "good (\<lambda>_. True) geometry_option"
  by (auto simp: geometry_option_def intro!: goodI wp_rules)

lemmas wp_geometry_option [wp_rules] = goodD [OF good_geometry_option]

lemma good_spatial_index: "wf_head h \<Longrightarrow> good_attempt (spatial_index h)"
  by (auto simp: spatial_index_def wf_head_def wf_statement_def wf_head_hd intro!: good_attemptI wp_rules)

lemma good_search_index: "good_attempt parse_search_index"
  by (auto simp: parse_search_index_def Let_def wf_head_def intro!: good_attemptI wp_rules
      good_attemptD [OF good_vector_index] good_attemptD [OF good_fulltext_index]
      good_attemptD [OF good_array_index] good_attemptD [OF good_spatial_index])

lemma good_create_index: "good_attempt parse_create_index"
  by (auto simp: parse_create_index_def create_index_body_def wf_statement_def wf_input
      intro!: good_attemptI wp_rules)

lemma good_edge_table: "good_attempt parse_edge_table"
  by (auto simp: parse_edge_table_def wf_statement_def intro!: good_attemptI wp_rules)

lemma good_document_follows: "good (\<lambda>_. True) document_follows"
  by (auto simp: document_follows_def intro!: goodI wp_rules)

lemmas wp_document_follows [wp_rules] = goodD [OF good_document_follows]

lemma good_relate: "good_attempt parse_relate"
  by (auto simp: parse_relate_def wf_statement_def wf_opt_def split: option.split
      intro!: good_attemptI wp_rules)

lemma good_create_table: "good_attempt parse_create_table"
  by (auto simp: parse_create_table_def wf_statement_def wf_input intro!: good_attemptI wp_rules)

lemma good_insert_target: "good_attempt insert_target"
  by (auto simp: insert_target_def wf_statement_def bounded_wf wf_object_insert
      simp del: wf_expr.simps(9) split: expr.split intro!: good_attemptI wp_rules)

lemma good_insert: "good_attempt parse_insert"
  by (auto simp: parse_insert_def wf_statement_def bounded_wf intro!: good_attemptI wp_rules
      good_attemptD [OF good_insert_target])

lemma good_mutation_mode: "good (\<lambda>_. True) mutation_mode_clause"
  by (auto simp: mutation_mode_clause_def intro!: goodI wp_rules)

lemmas wp_mutation_mode [wp_rules] = goodD [OF good_mutation_mode]

lemma good_mutate: "good_attempt parse_mutate"
  by (auto simp: parse_mutate_def wf_statement_def split: option.split
      intro!: good_attemptI wp_rules)

lemma good_patch_where: "good_attempt parse_patch_where"
  by (auto simp: parse_patch_where_def wf_statement_def intro!: good_attemptI wp_rules)

lemma good_select_record: "wf_record r \<Longrightarrow> good_attempt (select_record r)"
  by (auto simp: select_record_def wf_statement_def wf_input intro!: good_attemptI wp_rules)

lemma good_update_record: "wf_record r \<Longrightarrow> good_attempt (update_record r)"
  by (auto simp: update_record_def wf_statement_def wf_input intro!: good_attemptI wp_rules)

lemma good_delete_record: "wf_record r \<Longrightarrow> good_attempt (delete_record r)"
  by (auto simp: delete_record_def wf_statement_def intro!: good_attemptI wp_rules)

lemma good_record_verb:
  assumes "\<And>r. wf_record r \<Longrightarrow> good_attempt (body r)"
  shows "good_attempt (record_verb ws body)"
  by (auto simp: record_verb_def intro!: good_attemptI wp_rules good_attemptD [OF assms])

lemmas good_attempts =
  good_create_function good_drop_function good_upsert good_remove_field good_info
  good_define_relation good_drop_relation good_define_schema good_define_field good_search_index
  good_create_index good_edge_table good_relate good_create_table good_insert good_mutate
  good_patch_where good_record_verb [OF good_select_record] good_record_verb [OF good_update_record]
  good_record_verb [OF good_delete_record]

lemma wp_dispatch:
  assumes "list_all good_attempt as" and "wf_pstate src p"
  shows "wp src (dispatch as) (\<lambda>s p'. wf_statement (ps_input src) s) p"
  using assms
proof (induction as arbitrary: p)
  case Nil
  then show ?case by (simp add: wf_statement_def wf_input)
next
  case (Cons a as)
  show ?case using Cons.prems
    by (auto split: option.split intro!: good_attemptD [of a] Cons.IH)
qed

lemma good_attempts_all: "list_all good_attempt attempts"
  by (simp add: attempts_def good_attempts)

section \<open>Properties\<close>

text \<open>C12: \<open>parse\<close> always returns. An error lies inside the input. A statement it returns is well
formed: every expression satisfies the bounds of \<open>parse_expression\<close>, record targets are normalised
and consistent with the table of the statement, paths are not empty, function parameters number at
most 32, a fixed target excludes a predicate, and SQL for the engine is the input unchanged.\<close>

theorem parse_total:
  "case parse input of
     None \<Rightarrow> False
   | Some (Inl e) \<Rightarrow> offset e \<le> length input
   | Some (Inr s) \<Rightarrow> wf_statement input s"
proof -
  have "outcome input (wf_statement input) (parse input)"
    unfolding parse_def
    by (rule run_parser_outcome) (use wp_dispatch [OF good_attempts_all] in auto)
  then show ?thesis by (simp add: outcome_def split: option.splits sum.splits)
qed

definition verbs :: "string list" where
  "verbs = [''CREATE'', ''DROP'', ''UPSERT'', ''REMOVE'', ''INFO'', ''DEFINE'', ''RELATE'', ''INSERT'',
     ''UPDATE'', ''SELECT'', ''DELETE'']"

lemma after_keywords_decline:
  "ps_pos p = 0 \<Longrightarrow> \<not> eats_token w p \<Longrightarrow> after_keywords (w # ws) body p = Some (Inr (None, p))"
  by (simp add: after_keywords_def bnd_def eat_def decline_def ret_def)

lemmas attempt_defs =
  parse_create_function_def parse_drop_function_def parse_upsert_def parse_remove_field_def
  parse_info_def parse_define_relation_def parse_drop_relation_def parse_define_schema_def
  parse_define_field_def parse_search_index_def parse_create_index_def parse_edge_table_def
  parse_relate_def parse_create_table_def parse_insert_def parse_mutate_def parse_patch_where_def
  record_verb_def

lemma dispatch_decline:
  assumes "ps_pos p = 0" and "\<And>a. a \<in> set as \<Longrightarrow> a p = Some (Inr (None, p))"
  shows "dispatch as p = Some (Inr (Sql (ps_input p), p))"
  using assms
proof (induction as)
  case (Cons a as)
  have p: "set_pos 0 p = Some (Inr ((), p))" using Cons.prems(1) by (simp add: set_pos_def)
  have a: "a p = Some (Inr (None, p))" using Cons.prems(2) by simp
  have "dispatch as p = Some (Inr (Sql (ps_input p), p))" using Cons by simp
  then show ?case by (simp add: bnd_def p a)
qed (simp add: bnd_def get_state_def ret_def)

text \<open>C40: FastQL is additive. An accepted token list that does not open with one of the eleven verbs of
the dialect is handed to the SQL engine unchanged.\<close>

theorem parse_leaves_other_sql:
  assumes "tokenize input = Inr ts" and "validate_delimiter_depth ts = Inr ()"
    and "list_all (\<lambda>w. \<not> eats_token w (start_state input ts)) verbs"
  shows "parse input = Some (Inr (Sql input))"
proof -
  let ?p = "start_state input ts"
  have "a ?p = Some (Inr (None, ?p))" if "a \<in> set attempts" for a
    using that assms(3)
    by (auto simp: attempts_def attempt_defs verbs_def intro!: after_keywords_decline)
  then have "dispatch attempts ?p = Some (Inr (Sql input, ?p))"
    using dispatch_decline [of ?p attempts] by simp
  then show ?thesis using assms(1,2) by (simp add: parse_def run_parser_def start_state_def)
qed

theorem parse_leaves_other_sql_witness:
  "parse ''EXPLAIN SELECT 1'' = Some (Inr (Sql ''EXPLAIN SELECT 1''))"
proof -
  have t: "tokenize ''EXPLAIN SELECT 1'' =
    Inr [\<lparr>tok_kind = KWord, tok_text = ''EXPLAIN'', tok_start = 0, tok_end = 7\<rparr>,
         \<lparr>tok_kind = KWord, tok_text = ''SELECT'', tok_start = 8, tok_end = 14\<rparr>,
         \<lparr>tok_kind = KNumber, tok_text = ''1'', tok_start = 15, tok_end = 16\<rparr>]"
    by code_simp
  show ?thesis by (rule parse_leaves_other_sql [OF t]; code_simp)
qed

end
