(* ===== verification/Script.thy ===== *)
theory Script
  imports Tokens
begin

text \<open>
  \<open>fastdb/parser/src/script.rs\<close>: where a script is cut into statements and whether it is complete.
  The specification \<open>tiles\<close> describes the cut declaratively: the tokens are lone semicolons and
  statements, and a statement runs to the first semicolon outside delimiters that is not inside a
  trigger body.
\<close>

section \<open>The scan\<close>

record script_statement =
  ss_sql :: string
  ss_offset :: nat

definition delimiter_weight :: "token \<Rightarrow> int" where
  "delimiter_weight t =
     (if tok_kind t \<noteq> KSymbol then 0
      else if tok_text t \<in> {''('', ''{'', ''[''} then 1
      else if tok_text t \<in> {'')'', ''}'', '']''} then - 1
      else 0)"

definition semicolon :: "token \<Rightarrow> bool" where
  "semicolon t \<longleftrightarrow> tok_kind t = KSymbol \<and> tok_text t = '';''"

definition word_at :: "token list \<Rightarrow> nat \<Rightarrow> string \<Rightarrow> bool" where
  "word_at ts i w \<longleftrightarrow>
     i < length ts \<and> tok_kind (ts ! i) = KWord \<and> eq_ignore_ascii_case (tok_text (ts ! i)) w"

definition trigger_at :: "token list \<Rightarrow> nat \<Rightarrow> bool" where
  "trigger_at ts start \<longleftrightarrow>
     word_at ts start ''CREATE'' \<and>
     (word_at ts (start + 1) ''TRIGGER'' \<or>
      (word_at ts (start + 1) ''TEMP'' \<or> word_at ts (start + 1) ''TEMPORARY'') \<and>
      word_at ts (start + 2) ''TRIGGER'')"

definition trigger_closed :: "token list \<Rightarrow> nat \<Rightarrow> nat \<Rightarrow> bool" where
  "trigger_closed ts start i \<longleftrightarrow>
     start + 2 \<le> i \<and> tok_kind (ts ! (i - 1)) = KWord \<and>
     eq_ignore_ascii_case (tok_text (ts ! (i - 1))) ''END'' \<and> semicolon (ts ! (i - 2))"

text \<open>\<open>input[tokens[a].start..tokens[b - 1].end]\<close> at its offset.\<close>

definition statement_of :: "string \<Rightarrow> token list \<Rightarrow> nat \<times> nat \<Rightarrow> script_statement" where
  "statement_of input ts r =
     \<lparr>ss_sql = subslice input (tok_start (ts ! fst r)) (tok_end (ts ! (snd r - 1))),
      ss_offset = tok_start (ts ! fst r)\<rparr>"

text \<open>
  The loop over \<open>tokens.iter().enumerate()\<close>, with \<open>rest\<close> the tokens from index \<open>i\<close> on; the
  result is the final \<open>start\<close>, \<open>depth\<close> and \<open>statements\<close>.
\<close>

fun split_loop ::
  "string \<Rightarrow> token list \<Rightarrow> nat \<Rightarrow> token list \<Rightarrow> nat \<Rightarrow> int \<Rightarrow> script_statement list \<Rightarrow>
   syntax_error + nat \<times> int \<times> script_statement list" where
  "split_loop input ts i [] start depth out = Inr (start, depth, out)"
| "split_loop input ts i (t # rest) start depth out =
     (if tok_kind t \<noteq> KSymbol then split_loop input ts (i + 1) rest start depth out
      else let depth' = depth + delimiter_weight t in
        if depth' < 0 then Inl (SyntaxError (tok_start t) ''unmatched script delimiter'')
        else if tok_text t \<noteq> '';'' \<or> depth' \<noteq> 0 then
          split_loop input ts (i + 1) rest start depth' out
        else if i = start then split_loop input ts (i + 1) rest (i + 1) depth' out
        else if trigger_at ts start \<and> \<not> trigger_closed ts start i then
          split_loop input ts (i + 1) rest start depth' out
        else split_loop input ts (i + 1) rest (i + 1) depth'
               (out @ [statement_of input ts (start, i + 1)]))"

definition split_state :: "string \<Rightarrow> syntax_error + script_statement list \<times> bool" where
  "split_state input =
     rbind (tokenize input) (\<lambda>ts.
     rbind (split_loop input ts 0 ts 0 0 []) (\<lambda>(start, depth, out).
     if depth \<noteq> 0 then Inl (SyntaxError (length input) ''unclosed script delimiter'')
     else if start < length ts
       then Inr (out @ [statement_of input ts (start, length ts)], start = length ts)
     else Inr (out, start = length ts)))"

definition split_script :: "string \<Rightarrow> syntax_error + script_statement list" where
  "split_script input = rbind (split_state input) (\<lambda>(out, complete). Inr out)"

definition script_complete :: "string \<Rightarrow> syntax_error + bool" where
  "script_complete input =
     (case split_state input of
        Inr (out, complete) \<Rightarrow> Inr complete
      | Inl e \<Rightarrow>
          if message e \<in> {''unterminated quote'', ''unterminated comment'', ''unclosed script delimiter''}
          then Inr False else Inl e)"

section \<open>Specification\<close>

definition balance :: "token list \<Rightarrow> int" where
  "balance ts = sum_list (map delimiter_weight ts)"

text \<open>No prefix of the tokens from \<open>a\<close> to \<open>b\<close> closes more than it opens.\<close>

definition nested :: "token list \<Rightarrow> nat \<Rightarrow> nat \<Rightarrow> bool" where
  "nested ts a b \<longleftrightarrow> (\<forall>k. a \<le> k \<and> k \<le> b \<longrightarrow> 0 \<le> balance (subslice ts a k))"

definition ends_statement :: "token list \<Rightarrow> nat \<Rightarrow> nat \<Rightarrow> bool" where
  "ends_statement ts a i \<longleftrightarrow>
     semicolon (ts ! i) \<and> balance (subslice ts a (i + 1)) = 0 \<and>
     (trigger_at ts a \<longrightarrow> trigger_closed ts a i)"

definition open_statement :: "token list \<Rightarrow> nat \<Rightarrow> nat \<Rightarrow> bool" where
  "open_statement ts a b \<longleftrightarrow>
     nested ts a b \<and> (\<forall>k. a \<le> k \<and> k < b \<longrightarrow> \<not> ends_statement ts a k) \<and>
     (a < b \<longrightarrow> \<not> semicolon (ts ! a))"

inductive tiles :: "token list \<Rightarrow> nat \<Rightarrow> (nat \<times> nat) list \<Rightarrow> bool" where
  tiles_start: "tiles ts 0 []"
| tiles_empty: "tiles ts a rs \<Longrightarrow> a < length ts \<Longrightarrow> semicolon (ts ! a) \<Longrightarrow> tiles ts (a + 1) rs"
| tiles_statement:
    "tiles ts a rs \<Longrightarrow> i < length ts \<Longrightarrow> a < i \<Longrightarrow> open_statement ts a i \<Longrightarrow> ends_statement ts a i \<Longrightarrow>
     tiles ts (i + 1) (rs @ [(a, i + 1)])"

lemma subslice_Suc: "a \<le> i \<Longrightarrow> i < length ts \<Longrightarrow> subslice ts a (Suc i) = subslice ts a i @ [ts ! i]"
  by (simp add: subslice_def Suc_diff_le take_Suc_conv_app_nth)

lemma balance_Suc:
  "a \<le> i \<Longrightarrow> i < length ts \<Longrightarrow>
   balance (subslice ts a (Suc i)) = balance (subslice ts a i) + delimiter_weight (ts ! i)"
  by (simp add: subslice_Suc balance_def)

lemma balance_Nil [simp]: "balance [] = 0"
  by (simp add: balance_def)

lemma nested_Suc:
  "a \<le> i \<Longrightarrow> nested ts a i \<Longrightarrow> 0 \<le> balance (subslice ts a (Suc i)) \<Longrightarrow> nested ts a (Suc i)"
  by (auto simp: nested_def le_Suc_eq)

lemma open_self [simp]: "open_statement ts a a"
  by (auto simp: open_statement_def nested_def)

lemma open_Suc:
  assumes "open_statement ts a i" and "a \<le> i" and "i < length ts"
    and "0 \<le> balance (subslice ts a (Suc i))" and "\<not> ends_statement ts a i"
    and "a = i \<Longrightarrow> \<not> semicolon (ts ! i)"
  shows "open_statement ts a (Suc i)"
  using assms by (auto simp: open_statement_def less_Suc_eq intro: nested_Suc)

lemma semicolon_weight: "semicolon t \<Longrightarrow> delimiter_weight t = 0"
  by (simp add: semicolon_def delimiter_weight_def)

text \<open>The state of the scan before token \<open>i\<close>.\<close>

definition scan_inv ::
  "string \<Rightarrow> token list \<Rightarrow> nat \<Rightarrow> nat \<Rightarrow> int \<Rightarrow> script_statement list \<Rightarrow> bool" where
  "scan_inv input ts i start depth out \<longleftrightarrow>
     i \<le> length ts \<and> start \<le> i \<and> depth = balance (subslice ts start i) \<and> open_statement ts start i \<and>
     (\<exists>rs. tiles ts start rs \<and> out = map (statement_of input ts) rs)"

lemma scan_depth: "scan_inv input ts i start depth out \<Longrightarrow> 0 \<le> depth"
  by (auto simp: scan_inv_def open_statement_def nested_def)

lemma scan_keep:
  assumes "scan_inv input ts i start depth out" and "i < length ts"
    and "0 \<le> depth + delimiter_weight (ts ! i)"
    and "\<not> (semicolon (ts ! i) \<and> depth + delimiter_weight (ts ! i) = 0 \<and>
          (start = i \<or> (trigger_at ts start \<longrightarrow> trigger_closed ts start i)))"
  shows "scan_inv input ts (i + 1) start (depth + delimiter_weight (ts ! i)) out"
proof -
  have "balance (subslice ts start (Suc i)) = depth + delimiter_weight (ts ! i)"
    using assms(1,2) by (simp add: scan_inv_def balance_Suc)
  moreover from this have "open_statement ts start (Suc i)"
    using assms by (intro open_Suc) (auto simp: scan_inv_def ends_statement_def semicolon_weight)
  ultimately show ?thesis using assms(1,2) by (auto simp: scan_inv_def)
qed

lemma scan_empty:
  assumes "scan_inv input ts i i depth out" and "i < length ts" and "semicolon (ts ! i)"
  shows "scan_inv input ts (i + 1) (i + 1) depth out"
  using assms tiles_empty [of ts i] by (auto simp: scan_inv_def)

lemma scan_cut:
  assumes "scan_inv input ts i start 0 out" and "i < length ts" and "semicolon (ts ! i)"
    and "start \<noteq> i" and "trigger_at ts start \<longrightarrow> trigger_closed ts start i"
  shows "scan_inv input ts (i + 1) (i + 1) 0 (out @ [statement_of input ts (start, i + 1)])"
proof -
  obtain rs where rs: "tiles ts start rs" "out = map (statement_of input ts) rs"
    using assms(1) by (auto simp: scan_inv_def)
  have "ends_statement ts start i"
    using assms by (simp add: ends_statement_def scan_inv_def balance_Suc semicolon_weight)
  then have "tiles ts (i + 1) (rs @ [(start, i + 1)])"
    using rs(1) assms(1,2,4) by (intro tiles_statement) (auto simp: scan_inv_def)
  then show ?thesis using rs(2) assms(2) by (auto simp: scan_inv_def intro!: exI [of _ "rs @ [_]"])
qed

lemma split_loop_inv:
  assumes "split_loop input ts i rest start depth out = Inr (start', depth', out')"
    and "rest = drop i ts" and "scan_inv input ts i start depth out"
  shows "scan_inv input ts (length ts) start' depth' out'"
  using assms
proof (induction input ts i rest start depth out rule: split_loop.induct)
  case (1 input ts i start depth out)
  then show ?case by (auto simp: scan_inv_def)
next
  case (2 input ts i t rest start depth out)
  have "drop i ts = t # rest" using "2.prems"(2) by simp
  then have t: "i < length ts" "ts ! i = t" and rest: "rest = drop (i + 1) ts"
    by (auto simp: drop_Cons_iff)
  note keep = scan_keep [OF "2.prems"(3) t(1), unfolded t(2)] and d = scan_depth [OF "2.prems"(3)]
  let ?d = "depth + delimiter_weight t"
  show ?case
  proof (cases "tok_kind t = KSymbol")
    case False
    then have "delimiter_weight t = 0" "\<not> semicolon t"
      by (simp_all add: delimiter_weight_def semicolon_def)
    then show ?thesis using "2.IH"(1) [OF False _ rest] "2.prems"(1) keep d False by simp
  next
    case sym: True
    show ?thesis
    proof (cases "?d < 0")
      case True
      then show ?thesis using "2.prems"(1) sym by (simp add: Let_def)
    next
      case pos: False
      show ?thesis
      proof (cases "semicolon t \<and> ?d = 0")
        case False
        then show ?thesis using "2.IH"(2) [OF _ refl pos _ _ rest] "2.prems"(1) keep pos sym
          by (auto simp: Let_def semicolon_def)
      next
        case True
        then have s: "semicolon t" "tok_text t = '';''" "?d = 0" "depth = 0"
          using semicolon_weight [of t] by (auto simp: semicolon_def)
        consider "i = start" | "i \<noteq> start" "trigger_at ts start \<and> \<not> trigger_closed ts start i"
          | "i \<noteq> start" "trigger_at ts start \<longrightarrow> trigger_closed ts start i" by blast
        then show ?thesis
        proof cases
          case 1
          then show ?thesis
            using "2.IH"(3) [OF _ refl pos _ _ _ rest] "2.prems"(1,3) sym s scan_empty [of input ts i depth out] t
            by (auto simp: Let_def)
        next
          case 2
          then show ?thesis
            using "2.IH"(4) [OF _ refl pos _ _ _ _ rest] "2.prems"(1) keep sym s by (auto simp: Let_def)
        next
          case 3
          then show ?thesis
            using "2.IH"(5) [OF _ refl pos _ _ _ _ rest] "2.prems"(1,3) sym s t
              scan_cut [of input ts i start out] by (auto simp: Let_def)
        qed
      qed
    qed
  qed
qed

lemma split_state_tiles:
  assumes "split_state input = Inr (out, complete)"
  obtains ts rs a where "tokenize input = Inr ts" "tiles ts a rs" "a \<le> length ts"
    "open_statement ts a (length ts)" "balance (subslice ts a (length ts)) = 0"
    "complete \<longleftrightarrow> a = length ts"
    "out = map (statement_of input ts) (if complete then rs else rs @ [(a, length ts)])"
proof -
  from assms obtain ts a depth out0 where ts: "tokenize input = Inr ts"
    and loop: "split_loop input ts 0 ts 0 0 [] = Inr (a, depth, out0)" and depth: "depth = 0"
    and out: "if a < length ts then out = out0 @ [statement_of input ts (a, length ts)] else out = out0"
    and complete: "complete \<longleftrightarrow> a = length ts"
    by (auto simp: split_state_def rbind_eq_Inr split: if_splits)
  have "scan_inv input ts 0 0 0 []" by (auto simp: scan_inv_def intro: tiles_start)
  from split_loop_inv [OF loop _ this] have inv: "scan_inv input ts (length ts) a depth out0" by simp
  then obtain rs where rs: "tiles ts a rs" "out0 = map (statement_of input ts) rs"
    by (auto simp: scan_inv_def)
  have le: "a \<le> length ts" and o: "open_statement ts a (length ts)"
    and b: "balance (subslice ts a (length ts)) = 0"
    using inv depth by (auto simp: scan_inv_def)
  have "out = map (statement_of input ts) (if complete then rs else rs @ [(a, length ts)])"
    using out rs(2) complete le by (auto split: if_splits)
  then show thesis by (rule that [OF ts rs(1) le o b complete])
qed

lemma balance_append [simp]: "balance (xs @ ys) = balance xs + balance ys"
  by (simp add: balance_def)

lemma tiles_closed:
  "tiles ts a rs \<Longrightarrow> balance (take a ts) = 0 \<and> (a = 0 \<or> semicolon (ts ! (a - 1)))"
proof (induction rule: tiles.induct)
  case (tiles_empty ts a rs)
  then show ?case by (simp add: take_Suc_conv_app_nth balance_def semicolon_weight)
next
  case (tiles_statement ts a rs i)
  have "take (i + 1) ts = take a ts @ subslice ts a (i + 1)"
    using tiles_statement.hyps(3) by (simp add: subslice_def take_add [symmetric])
  then show ?case using tiles_statement by (simp add: ends_statement_def)
qed (simp add: balance_def)

lemma tiles_ordered:
  "tiles ts a rs \<Longrightarrow>
   sorted_wrt (\<lambda>r r'. snd r \<le> fst r') rs \<and> (\<forall>r \<in> set rs. fst r < snd r \<and> snd r \<le> a) \<and> a \<le> length ts"
  by (induction rule: tiles.induct) (auto simp: sorted_wrt_append)

lemma spans_ordered:
  "spans_from i n ts \<Longrightarrow> j < k \<Longrightarrow> k < length ts \<Longrightarrow> tok_end (ts ! j) \<le> tok_start (ts ! k)"
proof (induction ts arbitrary: i j k)
  case (Cons t ts)
  show ?case
  proof (cases j)
    case 0
    have "tok_end t \<le> tok_start (ts ! (k - 1))"
      using Cons.prems spans_from_mem [of "tok_end t" n ts "ts ! (k - 1)"] by auto
    then show ?thesis using 0 Cons.prems by (simp add: nth_Cons')
  next
    case (Suc j')
    then show ?thesis using Cons by (cases k) auto
  qed
qed simp

text \<open>The ranges of tokens behind the statements of an accepted script.\<close>

lemma split_script_ranges:
  assumes "split_script input = Inr out"
  obtains ts rs where "tokenize input = Inr ts" "out = map (statement_of input ts) rs"
    "sorted_wrt (\<lambda>r r'. snd r \<le> fst r') rs" "\<forall>r \<in> set rs. fst r < snd r \<and> snd r \<le> length ts"
proof -
  from assms obtain complete where "split_state input = Inr (out, complete)"
    by (auto simp: split_script_def rbind_eq_Inr)
  then show thesis
  proof (rule split_state_tiles)
    fix ts rs a
    assume h: "tokenize input = Inr ts" "tiles ts a rs" "a \<le> length ts" "complete \<longleftrightarrow> a = length ts"
      "out = map (statement_of input ts) (if complete then rs else rs @ [(a, length ts)])"
    have "sorted_wrt (\<lambda>r r'. snd r \<le> fst r') (if complete then rs else rs @ [(a, length ts)])"
      using tiles_ordered [OF h(2)] by (simp add: sorted_wrt_append)
    moreover have "fst r < snd r \<and> snd r \<le> length ts"
      if "r \<in> set (if complete then rs else rs @ [(a, length ts)])" for r
      using that tiles_ordered [OF h(2)] h(3,4) by (force split: if_splits)
    ultimately show thesis using that h by blast
  qed
qed

lemma statement_slice:
  assumes "tokenize input = Inr ts" and "fst r < snd r" and "snd r \<le> length ts"
  shows "tok_start (ts ! fst r) < tok_end (ts ! (snd r - 1)) \<and> tok_end (ts ! (snd r - 1)) \<le> length input"
proof -
  note sp = tokenize_spans [OF assms(1)]
  have m: "ts ! fst r \<in> set ts" "ts ! (snd r - 1) \<in> set ts" using assms(2,3) by auto
  have "tok_start (ts ! fst r) < tok_end (ts ! (snd r - 1))"
  proof (cases "fst r = snd r - 1")
    case True
    then show ?thesis using spans_from_mem [OF sp m(1)] by simp
  next
    case False
    then have "tok_end (ts ! fst r) \<le> tok_start (ts ! (snd r - 1))"
      using assms(2,3) by (intro spans_ordered [OF sp]) auto
    then show ?thesis using spans_from_mem [OF sp m(1)] spans_from_mem [OF sp m(2)] by simp
  qed
  then show ?thesis using spans_from_mem [OF sp m(2)] by simp
qed

lemma statement_of_ordered:
  assumes "tokenize input = Inr ts" and "fst r < snd r" and "snd r \<le> fst r'" and "fst r' < length ts"
  shows "ss_offset (statement_of input ts r) + length (ss_sql (statement_of input ts r))
    \<le> ss_offset (statement_of input ts r')"
proof -
  have "tok_end (ts ! (snd r - 1)) \<le> tok_start (ts ! fst r')"
    using assms by (intro spans_ordered [OF tokenize_spans [OF assms(1)]]) auto
  then show ?thesis using statement_slice [of input ts r] assms
    by (simp add: statement_of_def length_slice)
qed

section \<open>Properties\<close>

text \<open>C3: the cut of a script. The tokens of an accepted script are lone semicolons and complete
statements, each from its first token to the first semicolon that is outside delimiters and, in a
\<open>CREATE TRIGGER\<close>, follows \<open>; END\<close>; delimiters nest inside every statement. What follows the
last cut is one more, unterminated statement exactly when the script is reported incomplete.\<close>

theorem split_state_cut:
  assumes "split_state input = Inr (out, complete)"
  shows "\<exists>ts rs a. tokenize input = Inr ts \<and> tiles ts a rs \<and> a \<le> length ts \<and>
    open_statement ts a (length ts) \<and> balance (subslice ts a (length ts)) = 0 \<and>
    (complete = (a = length ts)) \<and>
    out = map (statement_of input ts) (if complete then rs else rs @ [(a, length ts)])"
  using assms by (rule split_state_tiles) blast

definition sample_script :: string where
  "sample_script = ''a(;);;CREATE TRIGGER t BEGIN x; END; b''"

theorem split_state_cut_witness:
  "\<exists>out. split_state sample_script = Inr (out, False) \<and> length out = 3 \<and>
     (\<exists>ts rs a. tokenize sample_script = Inr ts \<and> tiles ts a rs \<and> a < length ts)"
proof -
  have "case split_state sample_script of Inl e \<Rightarrow> False | Inr (out, c) \<Rightarrow> \<not> c \<and> length out = 3"
    by code_simp
  then obtain out where out: "split_state sample_script = Inr (out, False)" "length out = 3"
    by (auto split: sum.splits)
  from split_state_cut [OF out(1)] obtain ts rs a where
    "tokenize sample_script = Inr ts" "tiles ts a rs" "a \<le> length ts" "a \<noteq> length ts" by blast
  then have "\<exists>ts rs a. tokenize sample_script = Inr ts \<and> tiles ts a rs \<and> a < length ts"
    using le_neq_implies_less by blast
  with out show ?thesis by blast
qed

text \<open>C38: the statements of a script are slices of it. Each is a nonempty part of the input at its
offset, and each ends before the next one starts.\<close>

theorem split_script_slices:
  assumes "split_script input = Inr out"
  shows "list_all (\<lambda>s. ss_sql s \<noteq> [] \<and> starts_with (ss_sql s) (drop (ss_offset s) input)) out \<and>
    sorted_wrt (\<lambda>s s'. ss_offset s + length (ss_sql s) \<le> ss_offset s') out"
  using assms
proof (rule split_script_ranges)
  fix ts rs
  assume ts: "tokenize input = Inr ts" and out: "out = map (statement_of input ts) rs"
    and sorted: "sorted_wrt (\<lambda>r r'. snd r \<le> fst r') rs"
    and r: "\<forall>r \<in> set rs. fst r < snd r \<and> snd r \<le> length ts"
  have "ss_sql (statement_of input ts r) \<noteq> [] \<and>
      starts_with (ss_sql (statement_of input ts r)) (drop (ss_offset (statement_of input ts r)) input)"
    if "r \<in> set rs" for r
    using statement_slice [OF ts, of r] r that
    by (auto simp: statement_of_def subslice_def starts_with_def min_def)
  moreover have "sorted_wrt (\<lambda>s s'. ss_offset s + length (ss_sql s) \<le> ss_offset s') out"
    unfolding out sorted_wrt_map
  proof (rule sorted_wrt_mono_rel [OF _ sorted])
    fix q q' assume "q \<in> set rs" "q' \<in> set rs" "snd q \<le> fst q'"
    moreover from this have "fst q < snd q" "fst q' < length ts"
      using r by (auto dest!: bspec [of _ _ q'])
    ultimately show "ss_offset (statement_of input ts q) + length (ss_sql (statement_of input ts q))
        \<le> ss_offset (statement_of input ts q')"
      by (intro statement_of_ordered [OF ts])
  qed
  ultimately show ?thesis by (simp add: out list_all_iff)
qed

theorem split_script_slices_witness:
  "\<exists>out. split_script sample_script = Inr out \<and> length out = 3 \<and>
     sorted_wrt (\<lambda>s s'. ss_offset s + length (ss_sql s) \<le> ss_offset s') out"
proof -
  have "case split_script sample_script of Inl e \<Rightarrow> False | Inr out \<Rightarrow> length out = 3"
    by code_simp
  then obtain out where out: "split_script sample_script = Inr out" "length out = 3"
    by (auto split: sum.splits)
  with split_script_slices [OF out(1)] show ?thesis by blast
qed

text \<open>C39: a script reported complete has only closed statements: its delimiters balance, and its
last token, if it has one, is a semicolon.\<close>

theorem script_complete_closed:
  assumes "script_complete input = Inr True"
  shows "\<exists>ts. tokenize input = Inr ts \<and> balance ts = 0 \<and> (ts = [] \<or> semicolon (last ts))"
proof -
  from assms obtain out where "split_state input = Inr (out, True)"
    by (auto simp: script_complete_def split: sum.splits if_splits)
  then show ?thesis
  proof (rule split_state_tiles)
    fix ts rs a
    assume h: "tokenize input = Inr ts" "tiles ts a rs" "True \<longleftrightarrow> a = length ts"
    with tiles_closed [OF h(2)] show ?thesis by (cases "ts = []") (auto simp: last_conv_nth)
  qed
qed

theorem script_complete_closed_witness:
  "\<exists>ts. tokenize ''a (b); c;'' = Inr ts \<and> balance ts = 0 \<and> (ts = [] \<or> semicolon (last ts))"
proof -
  have "script_complete ''a (b); c;'' = Inr True" by code_simp
  then show ?thesis by (rule script_complete_closed)
qed

end
