(* ===== verification/Precedence.thy ===== *)
theory Precedence
  imports Expressions
begin

text \<open>
  What the precedence-climbing loop of \<open>binary\<close> computes. An expression is read as a sequence of
  operands and operators; the specification of the grouping is a tree over that sequence in which
  every left subtree has operators of at least, and every right subtree of more than, the
  precedence of the node. Such a tree is unique, and \<open>binary\<close> returns it.
\<close>

section \<open>Operator trees\<close>

datatype otree = Leaf expr | Node otree string nat otree

primrec erase :: "otree \<Rightarrow> expr" where
  "erase (Leaf x) = x"
| "erase (Node l op prec r) = EBinary (erase l) op (erase r)"

primrec head_operand :: "otree \<Rightarrow> expr" where
  "head_operand (Leaf x) = x"
| "head_operand (Node l op prec r) = head_operand l"

primrec tail_operands :: "otree \<Rightarrow> (string \<times> nat \<times> expr) list" where
  "tail_operands (Leaf x) = []"
| "tail_operands (Node l op prec r) =
     tail_operands l @ (op, prec, head_operand r) # tail_operands r"

primrec well_grouped :: "nat \<Rightarrow> otree \<Rightarrow> bool" where
  "well_grouped m (Leaf x) \<longleftrightarrow> True"
| "well_grouped m (Node l op prec r) \<longleftrightarrow> m \<le> prec \<and> well_grouped prec l \<and> well_grouped (prec + 1) r"

lemma well_grouped_mono: "well_grouped m t \<Longrightarrow> k \<le> m \<Longrightarrow> well_grouped k t"
  by (cases t) auto

lemma well_grouped_operators: "well_grouped m t \<Longrightarrow> (op, prec, x) \<in> set (tail_operands t) \<Longrightarrow> m \<le> prec"
proof (induction t arbitrary: m)
  case (Node l op' prec' r)
  then have "m \<le> prec'" and "well_grouped prec' l" and "well_grouped (prec' + 1) r" by auto
  with Node.prems(2) Node.IH show ?case by fastforce
qed simp

lemma tail_Nil_iff: "tail_operands t = [] \<longleftrightarrow> (\<exists>x. t = Leaf x)"
  by (cases t) auto

text \<open>Two ways to split a sequence at a node agree, or one node lies inside a part of the other.\<close>

lemma split_cases:
  assumes "xs @ a # ys = xs' @ b # ys'"
  obtains "xs = xs'" "a = b" "ys = ys'" | "a \<in> set xs'" "b \<in> set ys" | "b \<in> set xs" "a \<in> set ys'"
proof -
  from assms consider us where "xs = xs' @ us" "us @ a # ys = b # ys'"
    | us where "xs' = xs @ us" "a # ys = us @ b # ys'"
    by (auto simp: append_eq_append_conv2)
  then show thesis using that by cases (auto simp: Cons_eq_append_conv append_eq_Cons_conv)
qed

lemma well_grouped_unique:
  "well_grouped m t \<Longrightarrow> well_grouped m' t' \<Longrightarrow> head_operand t = head_operand t' \<Longrightarrow>
   tail_operands t = tail_operands t' \<Longrightarrow> t = t'"
proof (induction t arbitrary: t' m m')
  case (Leaf x)
  then show ?case by (cases t') auto
next
  case (Node l op k r)
  then obtain l' op' k' r' where t': "t' = Node l' op' k' r'" by (cases t') auto
  have eq: "tail_operands l @ (op, k, head_operand r) # tail_operands r =
      tail_operands l' @ (op', k', head_operand r') # tail_operands r'"
    using Node.prems(4) by (simp add: t')
  have "well_grouped k l" "well_grouped (k + 1) r" "well_grouped k' l'" "well_grouped (k' + 1) r'"
    using Node.prems(1,2) by (auto simp: t')
  note low = well_grouped_operators [OF this(1)] well_grouped_operators [OF this(2)]
    well_grouped_operators [OF this(3)] well_grouped_operators [OF this(4)] and sub = this
  from eq show ?case
  proof (cases rule: split_cases)
    case 1
    then show ?thesis
      using Node.IH(1) [OF sub(1,3)] Node.IH(2) [OF sub(2,4)] Node.prems(3) by (simp add: t')
  next
    case 2
    then have "k' \<le> k" "k + 1 \<le> k'" using low by blast+
    then show ?thesis by simp
  next
    case 3
    then have "k \<le> k'" "k' + 1 \<le> k" using low by blast+
    then show ?thesis by simp
  qed
qed

section \<open>The sequence the parser reads\<close>

definition skip_tokens :: "nat \<Rightarrow> pstate \<Rightarrow> pstate" where
  "skip_tokens n p = p\<lparr>ps_pos := ps_pos p + n\<rparr>"

definition operand :: "pstate \<Rightarrow> expr \<Rightarrow> pstate \<Rightarrow> bool" where
  "operand p x p' \<longleftrightarrow> (\<exists>r. binary_head (binary_left r) p = Some (Inr (x, p')))"

inductive reads :: "pstate \<Rightarrow> expr \<Rightarrow> (string \<times> nat \<times> expr) list \<Rightarrow> pstate \<Rightarrow> bool" where
  reads_one: "operand p x p' \<Longrightarrow> reads p x [] p'"
| reads_more:
    "reads p x ops p1 \<Longrightarrow> operator p1 = Some (op, prec, count) \<Longrightarrow> operand (skip_tokens count p1) y p2 \<Longrightarrow>
     reads p x (ops @ [(op, prec, y)]) p2"

definition stops :: "nat \<Rightarrow> pstate \<Rightarrow> bool" where
  "stops m p \<longleftrightarrow> (case operator p of None \<Rightarrow> True | Some (op, prec, count) \<Rightarrow> prec < m)"

lemma reads_append:
  assumes "reads q y ops' p'" and "reads p x ops p1" and "operator p1 = Some (op, prec, count)"
    and "q = skip_tokens count p1"
  shows "reads p x (ops @ (op, prec, y) # ops') p'"
  using assms
proof (induction rule: reads.induct)
  case (reads_one q y p')
  then show ?case using reads_more by simp
next
  case (reads_more q y ops' p2 op2 prec2 count2 z p3)
  then show ?case
    using reads.reads_more [of p x "ops @ (op, prec, y) # ops'" p2 op2 prec2 count2 z p3] by simp
qed

text \<open>\<open>groups m p x p'\<close>: from \<open>p\<close> to \<open>p'\<close> the parser reads a sequence whose tree is \<open>x\<close>.\<close>

definition groups :: "nat \<Rightarrow> pstate \<Rightarrow> otree \<Rightarrow> pstate \<Rightarrow> bool" where
  "groups m p t p' \<longleftrightarrow> well_grouped m t \<and> reads p (head_operand t) (tail_operands t) p' \<and> stops m p'"

lemma bnd_Inr:
  "bnd m f p = Some (Inr (x, p')) \<longleftrightarrow>
   (\<exists>y q. m p = Some (Inr (y, q)) \<and> f y q = Some (Inr (x, p')))"
  by (auto simp: bnd_def split: option.splits sum.splits)

lemma binary_loop_groups:
  assumes IH: "\<And>m p x p'. binary_left r m p = Some (Inr (x, p')) \<Longrightarrow>
      \<exists>t. x = erase t \<and> groups m p t p'"
    and "binary_loop (binary_left r) n m (erase t0) p = Some (Inr (x, p'))"
    and "reads p0 (head_operand t0) (tail_operands t0) p" and "well_grouped m t0"
    and "\<And>op k c. operator p = Some (op, k, c) \<Longrightarrow> m \<le> k \<Longrightarrow> well_grouped k t0"
  shows "\<exists>t. x = erase t \<and> groups m p0 t p'"
  using assms(2-)
proof (induction n arbitrary: t0 p)
  case 0
  then show ?case by (simp add: out_of_fuel_def)
next
  case (Suc n)
  have h: "\<not> 64 < height (erase t0)"
    using Suc.prems(1) by (auto simp: bnd_def get_state_def fail_def)
  show ?case
  proof (cases "\<exists>op k c. operator p = Some (op, k, c) \<and> m \<le> k")
    case False
    then have "x = erase t0" "p' = p" "stops m p"
      using Suc.prems(1) h
      by (auto simp: bnd_def get_state_def ret_def stops_def split: option.splits if_splits)
    then show ?thesis using Suc.prems(2,3) by (auto simp: groups_def)
  next
    case True
    then obtain op k c where o: "operator p = Some (op, k, c)" "m \<le> k" by blast
    then obtain y q where rhs: "binary_left r (k + 1) (skip_tokens c p) = Some (Inr (y, q))"
      and loop: "binary_loop (binary_left r) n m (EBinary (erase t0) op y) q = Some (Inr (x, p'))"
      using Suc.prems(1) h by (auto simp: bnd_Inr get_state_def advance_def skip_tokens_def)
    from IH [OF rhs] obtain t1 where t1: "y = erase t1" "groups (k + 1) (skip_tokens c p) t1 q" by blast
    let ?t = "Node t0 op k t1"
    have t0: "well_grouped k t0" using Suc.prems(4) o by blast
    then have "well_grouped m ?t" using t1(2) o(2) by (simp add: groups_def)
    moreover have "reads p0 (head_operand ?t) (tail_operands ?t) q"
      using t1(2) Suc.prems(2) o(1) by (auto simp: groups_def intro: reads_append)
    moreover have "well_grouped k' ?t" if "operator q = Some (op', k', c')" "m \<le> k'" for op' k' c'
      using that t0 t1(2) by (auto simp: groups_def stops_def)
    ultimately show ?thesis using Suc.IH [of ?t q] loop t1(1) by simp
  qed
qed

lemma binary_left_groups:
  "binary_left r m p = Some (Inr (x, p')) \<Longrightarrow> \<exists>t. x = erase t \<and> groups m p t p'"
proof (induction r arbitrary: m p x p')
  case 0
  then show ?case by (simp add: fail_def)
next
  case (Suc r)
  then obtain y q where y: "binary_head (binary_left r) p = Some (Inr (y, q))"
    and loop: "binary_loop (binary_left r) (fuel_of q) m y q = Some (Inr (x, p'))"
    by (auto simp: bnd_Inr with_fuel_def)
  have "reads p (head_operand (Leaf y)) (tail_operands (Leaf y)) q"
    using reads_one [of p y q] y operand_def by auto
  with loop show ?case
    by (intro binary_loop_groups [OF Suc.IH, where n = "fuel_of q" and ?t0.0 = "Leaf y" and p = q]) auto
qed

section \<open>Property\<close>

text \<open>C1: precedence climbing is correct. A parsed expression is the tree of the sequence of operands
and operators it was read from in which operators bind by precedence and to the left, it is the only
such tree, and the sequence extends as far as the next operator allows.\<close>

theorem binary_precedence:
  assumes "binary depth m p = Some (Inr (x, p'))"
  shows "\<exists>t. x = erase t \<and> well_grouped m t \<and> reads p (head_operand t) (tail_operands t) p' \<and> stops m p' \<and>
    (\<forall>t'. well_grouped m t' \<and> head_operand t' = head_operand t \<and> tail_operands t' = tail_operands t \<longrightarrow> t' = t)"
proof -
  from binary_left_groups [OF assms [unfolded binary_def]] obtain t where
    "x = erase t" "groups m p t p'" by blast
  then show ?thesis using well_grouped_unique [of m _ m t] by (auto simp: groups_def)
qed

definition sample_state :: "nat \<Rightarrow> pstate" where
  "sample_state k =
     \<lparr>ps_input = ''a - b * 2 - c'',
      ps_tokens = (case tokenize ''a - b * 2 - c'' of Inl e \<Rightarrow> [] | Inr ts \<Rightarrow> ts), ps_pos = k\<rparr>"

theorem binary_precedence_witness:
  "\<exists>t. EBinary (EBinary (EField [''a'']) ''-'' (EBinary (EField [''b'']) ''*'' (EInteger 2))) ''-''
       (EField [''c'']) = erase t \<and> well_grouped 0 t \<and>
     reads (sample_state 0) (head_operand t) (tail_operands t) (sample_state 7)"
proof -
  have "binary 0 0 (sample_state 0) = Some (Inr
      (EBinary (EBinary (EField [''a'']) ''-'' (EBinary (EField [''b'']) ''*'' (EInteger 2))) ''-''
        (EField [''c'']), sample_state 7))"
    by code_simp
  from binary_precedence [OF this] show ?thesis by blast
qed

end
