(* ===== verification/Morton.thy ===== *)
theory Morton
  imports Prelude "HOL-Library.Product_Lexorder"
begin

text \<open>
  \<open>fastdb/frontend/src/spatial/morton.rs\<close>: Morton keys over quantized coordinates and the cover of
  a query window by key ranges. Coordinates of the 31-bit grid are naturals, the bit tricks of
  \<open>spread\<close> are on 64-bit words, keys and ranges are integers. The floating-point quantization and
  the polygon classifier are not modelled; the cover is generic in the classifier, as in the code.
\<close>

unbundle bit_operations_syntax

section \<open>Keys\<close>

abbreviation BITS :: nat where
  "BITS \<equiv> 31"

definition spread :: "64 word \<Rightarrow> 64 word" where
  "spread v0 =
     (let v1 = (v0 OR push_bit 16 v0) AND 0x0000FFFF0000FFFF;
          v2 = (v1 OR push_bit 8 v1) AND 0x00FF00FF00FF00FF;
          v3 = (v2 OR push_bit 4 v2) AND 0x0F0F0F0F0F0F0F0F;
          v4 = (v3 OR push_bit 2 v3) AND 0x3333333333333333
      in (v4 OR push_bit 1 v4) AND 0x5555555555555555)"

definition interleave :: "nat \<Rightarrow> nat \<Rightarrow> nat" where
  "interleave x y = unat (spread (word_of_nat x) OR push_bit 1 (spread (word_of_nat y)))"

text \<open>The specification: bit \<open>2 i\<close> of a key is bit \<open>i\<close> of \<open>x\<close>, bit \<open>2 i + 1\<close> is bit \<open>i\<close> of \<open>y\<close>.\<close>

primrec zorder :: "nat \<Rightarrow> nat \<Rightarrow> nat \<Rightarrow> nat" where
  "zorder 0 x y = 0"
| "zorder (Suc n) x y = x mod 2 + 2 * (y mod 2) + 4 * zorder n (x div 2) (y div 2)"

section \<open>Cells\<close>

record cell =
  cl_level :: nat
  cl_x :: nat
  cl_y :: nat

definition cell_size :: "cell \<Rightarrow> nat" where
  "cell_size c = 2 ^ (BITS - cl_level c)"

definition cell_range :: "cell \<Rightarrow> int \<times> int" where
  "cell_range c =
     (let first = interleave (cl_x c) (cl_y c); span = cell_size c * cell_size c
      in (int first, int (first + span - 1)))"

definition children :: "cell \<Rightarrow> cell list" where
  "children c =
     (let half = cell_size c div 2; level = cl_level c + 1 in
      [\<lparr>cl_level = level, cl_x = cl_x c, cl_y = cl_y c\<rparr>,
       \<lparr>cl_level = level, cl_x = cl_x c + half, cl_y = cl_y c\<rparr>,
       \<lparr>cl_level = level, cl_x = cl_x c, cl_y = cl_y c + half\<rparr>,
       \<lparr>cl_level = level, cl_x = cl_x c + half, cl_y = cl_y c + half\<rparr>])"

definition last_x :: "cell \<Rightarrow> nat" where
  "last_x c = cl_x c + cell_size c - 1"

definition last_y :: "cell \<Rightarrow> nat" where
  "last_y c = cl_y c + cell_size c - 1"

definition root_cell :: cell where
  "root_cell = \<lparr>cl_level = 0, cl_x = 0, cl_y = 0\<rparr>"

definition cell_code :: "cell \<Rightarrow> int" where
  "cell_code c =
     (let prefix = interleave (cl_x c) (cl_y c) div 2 ^ (2 * (BITS - cl_level c))
      in int (2 ^ (2 * cl_level c) + prefix))"

text \<open>\<open>ancestor_codes\<close> of a point with Morton key \<open>key\<close>.\<close>

definition ancestor_codes :: "nat \<Rightarrow> int list" where
  "ancestor_codes key =
     map (\<lambda>level. int (2 ^ (2 * level) + key div 2 ^ (2 * (BITS - level)))) [0 ..< BITS + 1]"

section \<open>Ranges\<close>

type_synonym ranges = "(int \<times> int) list"

text \<open>The loop of \<open>merge\<close> over the sorted ranges; \<open>merged\<close> is kept in reverse.\<close>

fun merge_loop :: "ranges \<Rightarrow> ranges \<Rightarrow> ranges" where
  "merge_loop merged [] = rev merged"
| "merge_loop [] (r # rs) = merge_loop [r] rs"
| "merge_loop (p # merged) (r # rs) =
     (if fst r \<le> snd p + 1 then merge_loop ((fst p, max (snd p) (snd r)) # merged) rs
      else merge_loop (r # p # merged) rs)"

definition merge :: "ranges \<Rightarrow> ranges" where
  "merge rs = merge_loop [] (sort rs)"

text \<open>The first index with the smallest gap to the next range, from index \<open>i\<close> on.\<close>

fun min_gap :: "nat \<Rightarrow> nat \<Rightarrow> int \<Rightarrow> ranges \<Rightarrow> nat" where
  "min_gap i best gap (r # r' # rs) =
     (let g = fst r' - snd r
      in if g < gap then min_gap (i + 1) i g (r' # rs) else min_gap (i + 1) best gap (r' # rs))"
| "min_gap i best gap _ = best"

definition gap_index :: "ranges \<Rightarrow> nat" where
  "gap_index rs = (case rs of r # r' # _ \<Rightarrow> min_gap 1 0 (fst r' - snd r) (drop 1 rs) | _ \<Rightarrow> 0)"

definition join_at :: "nat \<Rightarrow> ranges \<Rightarrow> ranges" where
  "join_at i rs = take i rs @ (fst (rs ! i), snd (rs ! (i + 1))) # drop (i + 2) rs"

lemma min_gap_bound: "best + 1 < i + length rs \<Longrightarrow> rs \<noteq> [] \<Longrightarrow> min_gap i best gap rs + 1 < i + length rs"
  by (induction i best gap rs rule: min_gap.induct) (auto simp: Let_def)

lemma gap_index_bound: "1 < length rs \<Longrightarrow> gap_index rs + 1 < length rs"
  using min_gap_bound [of 0 1 "drop 1 rs"] by (auto simp: gap_index_def split: list.split)

lemma length_join_at: "i + 1 < length rs \<Longrightarrow> length (join_at i rs) = length rs - 1"
  by (auto simp: join_at_def)

function coalesce :: "ranges \<Rightarrow> nat \<Rightarrow> ranges" where
  "coalesce rs arms =
     (if max arms 1 < length rs then coalesce (join_at (gap_index rs) rs) arms else rs)"
  by pat_completeness auto
termination
  by (relation "measure (\<lambda>(rs, arms). length rs)") (use gap_index_bound length_join_at in auto)

declare coalesce.simps [simp del]

section \<open>Covers\<close>

datatype overlap = Outside | Partial | Inside

record window =
  w_x0 :: nat
  w_x1 :: nat
  w_y0 :: nat
  w_y1 :: nat

definition overlap_window :: "cell \<Rightarrow> window \<Rightarrow> overlap" where
  "overlap_window c w =
     (if last_x c < w_x0 w \<or> w_x1 w < cl_x c \<or> last_y c < w_y0 w \<or> w_y1 w < cl_y c then Outside
      else if w_x0 w \<le> cl_x c \<and> last_x c \<le> w_x1 w \<and> w_y0 w \<le> cl_y c \<and> last_y c \<le> w_y1 w then Inside
      else Partial)"

text \<open>
  One level of the descent: the classified children of the partial cells, split into the ranges of
  the inside ones and the partial ones with their states.
\<close>

definition descend_child ::
  "(cell \<Rightarrow> 's \<Rightarrow> overlap \<times> 's) \<Rightarrow> 's \<Rightarrow> cell \<Rightarrow> ranges \<times> (cell \<times> 's) list \<Rightarrow>
   ranges \<times> (cell \<times> 's) list" where
  "descend_child classify s c acc =
     (case classify c s of
        (Outside, _) \<Rightarrow> acc
      | (Inside, _) \<Rightarrow> (fst acc @ [cell_range c], snd acc)
      | (Partial, s') \<Rightarrow> (fst acc, snd acc @ [(c, s')]))"

definition descend ::
  "(cell \<Rightarrow> 's \<Rightarrow> overlap \<times> 's) \<Rightarrow> (cell \<times> 's) list \<Rightarrow> ranges \<Rightarrow> ranges \<times> (cell \<times> 's) list" where
  "descend classify partial ranges =
     fold (\<lambda>(parent, s) acc. fold (descend_child classify s) (children parent) acc) partial (ranges, [])"

fun cover_loop ::
  "nat \<Rightarrow> nat \<Rightarrow> (cell \<Rightarrow> 's \<Rightarrow> overlap \<times> 's) \<Rightarrow> ranges \<Rightarrow> (cell \<times> 's) list \<Rightarrow> ranges option" where
  "cover_loop fuel budget classify ranges [] = Some ranges"
| "cover_loop 0 budget classify ranges ((c, s) # cs) = None"
| "cover_loop (Suc fuel) budget classify ranges ((c, s) # cs) =
     (if cl_level c = BITS \<or> max budget 1 < length ranges + 4 * length ((c, s) # cs)
      then Some (ranges @ map (\<lambda>e. cell_range (fst e)) ((c, s) # cs))
      else case descend classify ((c, s) # cs) ranges of
             (ranges', next_cells) \<Rightarrow> cover_loop fuel budget classify ranges' next_cells)"

text \<open>Each round goes one level down and the deepest level is 31, so 32 rounds are enough.\<close>

definition cover :: "nat \<Rightarrow> 's \<Rightarrow> (cell \<Rightarrow> 's \<Rightarrow> overlap \<times> 's) \<Rightarrow> ranges option" where
  "cover budget root classify =
     map_option merge (cover_loop (BITS + 1) budget classify [] [(root_cell, root)])"

definition overlap_rank :: "overlap \<Rightarrow> nat" where
  "overlap_rank v = (case v of Outside \<Rightarrow> 0 | Partial \<Rightarrow> 1 | Inside \<Rightarrow> 2)"

text \<open>\<open>max_by_key(...).unwrap_or(Outside)\<close>: a later element of equal rank wins, with the same value.\<close>

definition best_overlap :: "overlap list \<Rightarrow> overlap" where
  "best_overlap vs = fold (\<lambda>v best. if overlap_rank best \<le> overlap_rank v then v else best) vs Outside"

definition cover_windows :: "window list \<Rightarrow> nat \<Rightarrow> ranges option" where
  "cover_windows windows budget =
     cover budget () (\<lambda>c _. (best_overlap (map (overlap_window c) windows), ()))"

section \<open>Spreading bits\<close>

lemma all64: "n < 64 \<Longrightarrow> n \<in> set (map nat [0..63])"
  by (auto simp: image_iff intro!: bexI [of _ "int n"])

lemma masks:
  "list_all (\<lambda>n. bit (0x0000FFFF0000FFFF :: 64 word) n = (n mod 32 < 16) \<and>
     bit (0x00FF00FF00FF00FF :: 64 word) n = (n mod 16 < 8) \<and>
     bit (0x0F0F0F0F0F0F0F0F :: 64 word) n = (n mod 8 < 4) \<and>
     bit (0x3333333333333333 :: 64 word) n = (n mod 4 < 2) \<and>
     bit (0x5555555555555555 :: 64 word) n = (n mod 2 < 1)) (map nat [0..63])"
  by (simp add: upto_rec1)

definition stage :: "nat \<Rightarrow> (nat \<Rightarrow> bool) \<Rightarrow> nat \<Rightarrow> bool" where
  "stage k b n \<longleftrightarrow> (b n \<or> k \<le> n \<and> b (n - k)) \<and> n mod (2 * k) < k"

lemma bit_stage:
  assumes "\<And>n. n < 64 \<Longrightarrow> bit m n \<longleftrightarrow> n mod (2 * k) < k" and "n < 64"
  shows "bit ((v OR push_bit k v) AND m) n \<longleftrightarrow> stage k (bit (v :: 64 word)) n"
  using assms by (auto simp: stage_def bit_and_iff bit_or_iff bit_push_bit_iff)
lemma stage_cong:
  "(\<And>n. n < 64 \<Longrightarrow> b n = b' n) \<Longrightarrow> n < 64 \<Longrightarrow> stage k b n = stage k b' n"
  by (auto simp: stage_def)

lemma bit_spread_stage: "n < 64 \<Longrightarrow> bit (spread v) n = stage 1 (stage 2 (stage 4 (stage 8 (stage 16 (bit v))))) n"
proof -
  have m: "bit (0x0000FFFF0000FFFF :: 64 word) n = (n mod (2*16) < 16)" 
     "bit (0x00FF00FF00FF00FF :: 64 word) n = (n mod (2*8) < 8)" 
     "bit (0x0F0F0F0F0F0F0F0F :: 64 word) n = (n mod (2*4) < 4)" 
     "bit (0x3333333333333333 :: 64 word) n = (n mod (2*2) < 2)" 
     "bit (0x5555555555555555 :: 64 word) n = (n mod (2*1) < 1)" if "n < 64" for n
    using masks all64 [OF that] by (simp_all only: list_all_iff) simp_all
  show "n < 64 \<Longrightarrow> ?thesis"
    unfolding spread_def Let_def
    by (simp only: bit_stage [OF m(1)] bit_stage [OF m(2)] bit_stage [OF m(3)] bit_stage [OF m(4)] bit_stage [OF m(5)]
        cong: stage_cong)
qed


definition blocks :: "nat \<Rightarrow> (nat \<Rightarrow> bool) \<Rightarrow> nat \<Rightarrow> bool" where
  "blocks k b n \<longleftrightarrow> n mod (2 * k) < k \<and> b (n div (2 * k) * k + n mod k)"

lemma stage_blocks:
  "n < 64 \<Longrightarrow> stage 8 (blocks 16 b) n = blocks 8 b n"
  "n < 64 \<Longrightarrow> stage 4 (blocks 8 b) n = blocks 4 b n"
  "n < 64 \<Longrightarrow> stage 2 (blocks 4 b) n = blocks 2 b n"
  "n < 64 \<Longrightarrow> stage 1 (blocks 2 b) n = blocks 1 b n"
proof -
  have "list_all (\<lambda>n. stage 8 (blocks 16 b) n = blocks 8 b n) (map nat [0..63])"
    "list_all (\<lambda>n. stage 4 (blocks 8 b) n = blocks 4 b n) (map nat [0..63])"
    "list_all (\<lambda>n. stage 2 (blocks 4 b) n = blocks 2 b n) (map nat [0..63])"
    "list_all (\<lambda>n. stage 1 (blocks 2 b) n = blocks 1 b n) (map nat [0..63])"
    by (simp_all add: upto_rec1 stage_def blocks_def flip: numeral_2_eq_2)
  with all64 show "n < 64 \<Longrightarrow> stage 8 (blocks 16 b) n = blocks 8 b n"
  "n < 64 \<Longrightarrow> stage 4 (blocks 8 b) n = blocks 4 b n"
  "n < 64 \<Longrightarrow> stage 2 (blocks 4 b) n = blocks 2 b n"
  "n < 64 \<Longrightarrow> stage 1 (blocks 2 b) n = blocks 1 b n" by (simp_all only: list_all_iff)
qed

lemma stage_first:
  assumes "\<And>i. 32 \<le> i \<Longrightarrow> \<not> b i" and "n < 64"
  shows "stage 16 b n = blocks 16 b n"
proof -
  have "list_all (\<lambda>n. stage 16 b n = blocks 16 b n) (map nat [0..63])"
    using assms(1) by (simp add: upto_rec1 stage_def blocks_def flip: numeral_2_eq_2)
  with all64 [OF assms(2)] show ?thesis by (simp only: list_all_iff)
qed

lemma bit_spread:
  assumes "\<And>i. 32 \<le> i \<Longrightarrow> \<not> bit v i" and "n < 64"
  shows "bit (spread v) n \<longleftrightarrow> even n \<and> bit v (n div 2)"
proof -
  have "bit (spread v) n = blocks 1 (bit v) n"
    unfolding bit_spread_stage [OF assms(2)]
    using assms(2) stage_first [OF assms(1)] by (simp add: stage_blocks cong: stage_cong)
  then show ?thesis by (simp add: blocks_def even_iff_mod_2_eq_zero less_Suc_eq_0_disj)
qed

lemma bit_zorder:
  "bit (zorder n x y) i \<longleftrightarrow> i < 2 * n \<and> (if even i then bit x (i div 2) else bit y (i div 2))"
proof (induction n arbitrary: x y i)
  case (Suc n)
  let ?z = "zorder n (x div 2) (y div 2)"
  have z: "zorder (Suc n) x y = x mod 2 + 2 * (y mod 2) + 4 * ?z" by simp
  have div2: "zorder (Suc n) x y div 2 = y mod 2 + 2 * ?z" unfolding z by presburger
  have div4: "(y mod 2 + 2 * ?z) div 2 = ?z" by presburger
  have parity: "odd (zorder (Suc n) x y) = odd x" "odd (y mod 2 + 2 * ?z) = odd y"
    unfolding z by presburger+
  show ?case
  proof (cases i)
    case 0
    then show ?thesis using parity(1) by (simp only: bit_0) (simp add: bit_0)
  next
    case (Suc i')
    show ?thesis
    proof (cases i')
      case 0
      then show ?thesis using parity(2) by (simp only: Suc bit_Suc div2 bit_0) (simp add: bit_0)
    next
      case (Suc j)
      have "bit (zorder (Suc n) x y) i = bit ?z j"
        by (simp only: \<open>i = Suc i'\<close> Suc bit_Suc div2 div4)
      then show ?thesis unfolding Suc.IH by (simp add: \<open>i = Suc i'\<close> Suc bit_Suc)
    qed
  qed
qed simp

lemma not_bit_ge: "x < 2 ^ n \<Longrightarrow> n \<le> i \<Longrightarrow> \<not> bit (x :: nat) i"
  by (metis bit_iff_odd div_less even_zero order_less_le_trans power_increasing_iff one_less_numeral_iff
      semiring_norm(76))

lemma bit_word_of_nat: "x < 2 ^ 32 \<Longrightarrow> bit (word_of_nat x :: 64 word) i \<longleftrightarrow> bit x i"
  using not_bit_ge [of x 32 i] by (cases "i < 64") (auto simp: bit_of_nat_iff)

lemma bit_unat: "bit (unat (w :: 64 word)) i \<longleftrightarrow> bit w i"
proof (cases "i < 64")
  case True
  then show ?thesis using bit_of_nat_iff [of "unat w" i, where ?'a = "64 word"] by simp
next
  case False
  moreover have "unat w < 2 ^ 64" using unsigned_less [of w, where ?'a = nat] by simp
  ultimately show ?thesis using not_bit_ge [of "unat w" 64 i] by (auto dest: bit_imp_le_length)
qed

lemma interleave_zorder:
  assumes "x < 2 ^ 31" and "y < 2 ^ 31"
  shows "interleave x y = zorder 31 x y"
proof (rule bit_eqI)
  fix i :: nat
  have x: "x < 2 ^ 32" and y: "y < 2 ^ 32" using assms by simp_all
  have "bit (interleave x y) i \<longleftrightarrow> i < 64 \<and>
      (bit (spread (word_of_nat x)) i \<or> 1 \<le> i \<and> bit (spread (word_of_nat y)) (i - 1))"
    unfolding interleave_def bit_unat bit_or_iff bit_push_bit_iff by (auto dest: bit_imp_le_length)
  also have "\<dots> \<longleftrightarrow> i < 62 \<and> (if even i then bit x (i div 2) else bit y (i div 2))"
  proof -
    have hi: "\<not> bit x j" "\<not> bit y j" if "31 \<le> j" for j
      using not_bit_ge [OF assms(1) that] not_bit_ge [OF assms(2) that] by auto
    have b: "bit (spread (word_of_nat x)) j \<longleftrightarrow> even j \<and> bit x (j div 2)"
      "bit (spread (word_of_nat y)) j \<longleftrightarrow> even j \<and> bit y (j div 2)" if "j < 64" for j
      using that hi x y by (simp_all add: bit_spread bit_word_of_nat)
    show ?thesis
    proof (cases "even i")
      case True
      then obtain k where k: "i = 2 * k" by (rule evenE)
      show ?thesis using hi(1) [of k] b [of i] b [of "i - 1"] by (cases "k < 31") (auto simp: k)
    next
      case False
      then obtain k where k: "i = 2 * k + 1" by (rule oddE)
      show ?thesis using hi(2) [of k] b [of i] b [of "i - 1"] by (cases "k < 31") (auto simp: k)
    qed
  qed
  finally show "bit (interleave x y) i = bit (zorder 31 x y) i"
    by (simp add: bit_zorder)
qed

section \<open>Cells and their key ranges\<close>

lemma zorder_block:
  "k \<le> n \<Longrightarrow> i < 2 ^ k \<Longrightarrow> j < 2 ^ k \<Longrightarrow>
   zorder n (2 ^ k * a + i) (2 ^ k * b + j) = 4 ^ k * zorder (n - k) a b + zorder k i j"
proof (induction k arbitrary: n i j)
  case (Suc k)
  then obtain m where n: "n = Suc m" by (cases n) auto
  have "2 ^ Suc k * a + i = 2 * (2 ^ k * a) + i" "2 ^ Suc k * b + j = 2 * (2 ^ k * b) + j" by simp_all
  then have e: "(2 ^ Suc k * a + i) mod 2 = i mod 2" "(2 ^ Suc k * a + i) div 2 = 2 ^ k * a + i div 2"
    "(2 ^ Suc k * b + j) mod 2 = j mod 2" "(2 ^ Suc k * b + j) div 2 = 2 ^ k * b + j div 2"
    by presburger+
  have "i div 2 < 2 ^ k" "j div 2 < 2 ^ k" using Suc.prems by auto
  from Suc.IH [OF _ this, of m] Suc.prems show ?case unfolding n zorder.simps e by simp
qed simp

lemma zorder_less: "zorder k i j < 4 ^ k"
proof (induction k arbitrary: i j)
  case (Suc k)
  then have "zorder k (i div 2) (j div 2) + 1 \<le> 4 ^ k" by (simp add: Suc_le_eq)
  then show ?case unfolding zorder.simps by simp
qed simp

lemma zorder_0 [simp]: "zorder k 0 0 = 0"
  by (induction k) simp_all

lemma zorder_inject:
  assumes "zorder n x y = zorder n x' y'" and "x < 2 ^ n" "y < 2 ^ n" "x' < 2 ^ n" "y' < 2 ^ n"
  shows "x = x' \<and> y = y'"
proof -
  have "bit x i = bit x' i" for i
    using assms(1) bit_zorder [of n x y "2 * i"] bit_zorder [of n x' y' "2 * i"]
      not_bit_ge [OF assms(2), of i] not_bit_ge [OF assms(4), of i] by (cases "i < n") auto
  moreover have "bit y i = bit y' i" for i
    using assms(1) bit_zorder [of n x y "2 * i + 1"] bit_zorder [of n x' y' "2 * i + 1"]
      not_bit_ge [OF assms(3), of i] not_bit_ge [OF assms(5), of i] by (cases "i < n") auto
  ultimately show ?thesis by (auto intro: bit_eqI)
qed

definition wf_cell :: "cell \<Rightarrow> bool" where
  "wf_cell c \<longleftrightarrow>
     cl_level c \<le> 31 \<and> cell_size c dvd cl_x c \<and> cell_size c dvd cl_y c \<and>
     cl_x c + cell_size c \<le> 2 ^ 31 \<and> cl_y c + cell_size c \<le> 2 ^ 31"

definition in_cell :: "cell \<Rightarrow> nat \<Rightarrow> nat \<Rightarrow> bool" where
  "in_cell c x y \<longleftrightarrow> cl_x c \<le> x \<and> x < cl_x c + cell_size c \<and> cl_y c \<le> y \<and> y < cl_y c + cell_size c"

definition in_range :: "int \<Rightarrow> int \<times> int \<Rightarrow> bool" where
  "in_range k r \<longleftrightarrow> fst r \<le> k \<and> k \<le> snd r"

definition in_ranges :: "int \<Rightarrow> ranges \<Rightarrow> bool" where
  "in_ranges k rs \<longleftrightarrow> list_ex (in_range k) rs"

lemma cell_size_pos [simp]: "0 < cell_size c"
  by (simp add: cell_size_def)

text \<open>The key prefix of a cell, and the prefix of any grid point at the level of the cell.\<close>

lemma cell_prefix:
  assumes "wf_cell c"
  obtains a b k where "k = 31 - cl_level c" "k \<le> 31" "cl_x c = 2 ^ k * a" "cl_y c = 2 ^ k * b"
    "a < 2 ^ (31 - k)" "b < 2 ^ (31 - k)" "interleave (cl_x c) (cl_y c) = 4 ^ k * zorder (31 - k) a b"
proof -
  define k where "k = 31 - cl_level c"
  have s: "cell_size c = 2 ^ k" by (simp add: cell_size_def k_def)
  then obtain a b where ab: "cl_x c = 2 ^ k * a" "cl_y c = 2 ^ k * b"
    using assms by (auto simp: wf_cell_def dvd_def)
  have k31: "k \<le> 31" by (simp add: k_def)
  have p: "(2 :: nat) ^ 31 = 2 ^ k * 2 ^ (31 - k)" using k31 by (simp flip: power_add)
  have "2 ^ k * (a + 1) \<le> 2 ^ k * 2 ^ (31 - k)" "2 ^ k * (b + 1) \<le> 2 ^ k * 2 ^ (31 - k)"
    using assms ab s p by (simp_all add: wf_cell_def)
  then have "a + 1 \<le> 2 ^ (31 - k)" "b + 1 \<le> 2 ^ (31 - k)" by (simp_all only: mult_le_cancel1) simp_all
  then have lt: "a < 2 ^ (31 - k)" "b < 2 ^ (31 - k)" by simp_all
  have "cl_x c < 2 ^ 31" "cl_y c < 2 ^ 31"
    using assms cell_size_pos [of c] unfolding wf_cell_def by linarith+
  then have "interleave (cl_x c) (cl_y c) = 4 ^ k * zorder (31 - k) a b"
    using zorder_block [OF k31, of 0 0 a b] by (simp add: interleave_zorder ab)
  then show thesis using that k31 ab lt by (simp add: k_def)
qed

lemma point_prefix:
  assumes "x < 2 ^ 31" and "y < 2 ^ 31" and "k \<le> 31"
  shows "interleave x y = 4 ^ k * zorder (31 - k) (x div 2 ^ k) (y div 2 ^ k) +
    zorder k (x mod 2 ^ k) (y mod 2 ^ k)"
  using zorder_block [OF assms(3), of "x mod 2 ^ k" "y mod 2 ^ k" "x div 2 ^ k" "y div 2 ^ k"] assms
  by (simp add: interleave_zorder)

lemma point_prefix_div:
  assumes "x < 2 ^ 31" and "y < 2 ^ 31" and "k \<le> 31"
  shows "interleave x y div 4 ^ k = zorder (31 - k) (x div 2 ^ k) (y div 2 ^ k)"
  using zorder_less [of k "x mod 2 ^ k" "y mod 2 ^ k"] by (simp add: point_prefix [OF assms])

lemma div_less_power: "x < (2 :: nat) ^ 31 \<Longrightarrow> k \<le> 31 \<Longrightarrow> x div 2 ^ k < 2 ^ (31 - k)"
  by (simp add: less_mult_imp_div_less flip: power_add)

lemma in_cell_prefix:
  assumes "cl_x c = 2 ^ k * a" and "cl_y c = 2 ^ k * b" and "cell_size c = 2 ^ k"
  shows "in_cell c x y \<longleftrightarrow> x div 2 ^ k = a \<and> y div 2 ^ k = b"
proof -
  have "(2 ^ k * a \<le> x \<and> x < 2 ^ k * a + 2 ^ k) \<longleftrightarrow> x div 2 ^ k = a" for x a :: nat
  proof
    assume "2 ^ k * a \<le> x \<and> x < 2 ^ k * a + 2 ^ k"
    then show "x div 2 ^ k = a"
      by (intro div_nat_eqI) (simp_all add: mult.commute)
  next
    assume "x div 2 ^ k = a"
    then show "2 ^ k * a \<le> x \<and> x < 2 ^ k * a + 2 ^ k"
      using div_mult_mod_eq [of x "2 ^ k"] mod_less_divisor [of "2 ^ k" x]
      by (metis add_less_cancel_left le_add1 mult.commute zero_less_numeral zero_less_power)
  qed
  then show ?thesis by (auto simp: in_cell_def assms)
qed

text \<open>The range of a cell holds exactly the keys of its points.\<close>

lemma cell_range_exact:
  assumes "wf_cell c" and "x < 2 ^ 31" and "y < 2 ^ 31"
  shows "in_range (int (interleave x y)) (cell_range c) \<longleftrightarrow> in_cell c x y"
  using assms(1)
proof (rule cell_prefix)
  fix a b k
  assume k: "k = 31 - cl_level c" "k \<le> 31" and ab: "cl_x c = 2 ^ k * a" "cl_y c = 2 ^ k * b"
    and lt: "a < 2 ^ (31 - k)" "b < 2 ^ (31 - k)"
    and first: "interleave (cl_x c) (cl_y c) = 4 ^ k * zorder (31 - k) a b"
  have s: "cell_size c = 2 ^ k" by (simp add: cell_size_def k)
  have sq: "cell_size c * cell_size c = 4 ^ k" by (simp add: s flip: power_mult_distrib)
  have "in_range (int (interleave x y)) (cell_range c) \<longleftrightarrow>
      4 ^ k * zorder (31 - k) a b \<le> interleave x y \<and> interleave x y < 4 ^ k * zorder (31 - k) a b + 4 ^ k"
  proof -
    have "0 < (4 :: nat) ^ k" by simp
    then show ?thesis unfolding in_range_def cell_range_def Let_def first sq fst_conv snd_conv by linarith
  qed
  also have "\<dots> \<longleftrightarrow> interleave x y div 4 ^ k = zorder (31 - k) a b"
  proof
    assume "4 ^ k * zorder (31 - k) a b \<le> interleave x y \<and> interleave x y < 4 ^ k * zorder (31 - k) a b + 4 ^ k"
    then show "interleave x y div 4 ^ k = zorder (31 - k) a b"
      by (intro div_nat_eqI) (simp_all add: mult.commute)
  next
    assume "interleave x y div 4 ^ k = zorder (31 - k) a b"
    then show "4 ^ k * zorder (31 - k) a b \<le> interleave x y \<and>
        interleave x y < 4 ^ k * zorder (31 - k) a b + 4 ^ k"
      using div_mult_mod_eq [of "interleave x y" "4 ^ k"] mod_less_divisor [of "4 ^ k" "interleave x y"]
      by (metis add_less_cancel_left le_add1 mult.commute zero_less_numeral zero_less_power)
  qed
  also have "\<dots> \<longleftrightarrow> x div 2 ^ k = a \<and> y div 2 ^ k = b"
    unfolding point_prefix_div [OF assms(2,3) k(2)]
    using zorder_inject [of "31 - k" "x div 2 ^ k" "y div 2 ^ k" a b] lt
      div_less_power [OF assms(2) k(2)] div_less_power [OF assms(3) k(2)] by auto
  finally show ?thesis by (simp add: in_cell_prefix [OF ab s])
qed

lemma level_codes_disjoint:
  assumes "4 ^ l + p = 4 ^ l' + p'" and "p < 4 ^ l" and "p' < (4 :: nat) ^ l'"
  shows "l = l' \<and> p = p'"
proof -
  have lt: "4 ^ i + q < 4 ^ j + r" if "i < j" "q < 4 ^ i" for i j q r :: nat
  proof -
    have "4 ^ i + q < 4 * 4 ^ i" using that(2) by simp
    also have "\<dots> \<le> 4 ^ j" using power_increasing [of "Suc i" j "4 :: nat"] that(1) by simp
    finally show ?thesis by simp
  qed
  show ?thesis using lt [of l l' p p'] lt [of l' l p' p] assms by (cases l l' rule: linorder_cases) auto
qed

lemma ancestor_code_iff:
  assumes "wf_cell c" and "x < 2 ^ 31" and "y < 2 ^ 31"
  shows "cell_code c \<in> set (ancestor_codes (interleave x y)) \<longleftrightarrow> in_cell c x y"
  using assms(1)
proof (rule cell_prefix)
  fix a b k
  assume k: "k = 31 - cl_level c" "k \<le> 31" and ab: "cl_x c = 2 ^ k * a" "cl_y c = 2 ^ k * b"
    and lt: "a < 2 ^ (31 - k)" "b < 2 ^ (31 - k)"
    and first: "interleave (cl_x c) (cl_y c) = 4 ^ k * zorder (31 - k) a b"
  let ?l = "cl_level c"
  have l: "?l \<le> 31" "31 - k = ?l" using assms(1) k by (auto simp: wf_cell_def)
  have s: "cell_size c = 2 ^ k" by (simp add: cell_size_def k)
  have four: "(2 :: nat) ^ (2 * j) = 4 ^ j" for j by (simp add: power_mult)
  have code: "cell_code c = int (4 ^ ?l + zorder ?l a b)"
    using first l k by (simp add: cell_code_def four)
  have anc: "ancestor_codes (interleave x y) = map (\<lambda>i. int (4 ^ i +
      zorder i (x div 2 ^ (31 - i)) (y div 2 ^ (31 - i)))) [0 ..< 32]"
    unfolding ancestor_codes_def four
    by (intro map_cong) (auto simp: point_prefix_div [OF assms(2,3)])
  have "cell_code c \<in> set (ancestor_codes (interleave x y)) \<longleftrightarrow>
      (\<exists>i < 32. 4 ^ ?l + zorder ?l a b = 4 ^ i + zorder i (x div 2 ^ (31 - i)) (y div 2 ^ (31 - i)))"
    unfolding anc code of_nat_eq_iff set_map image_iff by auto
  also have "\<dots> \<longleftrightarrow> zorder ?l a b = zorder ?l (x div 2 ^ k) (y div 2 ^ k)"
  proof
    assume "\<exists>i < 32. 4 ^ ?l + zorder ?l a b = 4 ^ i + zorder i (x div 2 ^ (31 - i)) (y div 2 ^ (31 - i))"
    then obtain i where "4 ^ ?l + zorder ?l a b = 4 ^ i + zorder i (x div 2 ^ (31 - i)) (y div 2 ^ (31 - i))"
      by blast
    from level_codes_disjoint [OF this zorder_less zorder_less]
    show "zorder ?l a b = zorder ?l (x div 2 ^ k) (y div 2 ^ k)" by (auto simp: k(1))
  next
    assume "zorder ?l a b = zorder ?l (x div 2 ^ k) (y div 2 ^ k)"
    then show "\<exists>i < 32. 4 ^ ?l + zorder ?l a b = 4 ^ i + zorder i (x div 2 ^ (31 - i)) (y div 2 ^ (31 - i))"
      using l(1) by (intro exI [of _ ?l]) (simp add: k(1))
  qed
  also have "\<dots> \<longleftrightarrow> x div 2 ^ k = a \<and> y div 2 ^ k = b"
    using zorder_inject [of ?l a b "x div 2 ^ k" "y div 2 ^ k"] lt l(2)
      div_less_power [OF assms(2) k(2)] div_less_power [OF assms(3) k(2)] by auto
  finally show ?thesis by (simp add: in_cell_prefix [OF ab s])
qed

section \<open>Merging ranges\<close>

definition separated :: "ranges \<Rightarrow> bool" where
  "separated rs \<longleftrightarrow> sorted_wrt (\<lambda>a b. snd a + 1 < fst b) rs \<and> list_all (\<lambda>r. fst r \<le> snd r) rs"

lemma in_ranges_simps [simp]:
  "in_ranges k [] = False"
  "in_ranges k (r # rs) = (in_range k r \<or> in_ranges k rs)"
  "in_ranges k (rs @ rs') = (in_ranges k rs \<or> in_ranges k rs')"
  by (simp_all add: in_ranges_def)

lemma in_ranges_rev [simp]: "in_ranges k (rev rs) = in_ranges k rs"
  by (simp add: in_ranges_def list_ex_iff)

lemma in_ranges_sort [simp]: "in_ranges k (sort rs) = in_ranges k rs"
  by (simp add: in_ranges_def list_ex_iff)

lemma merge_loop_correct:
  assumes "sorted (map fst rs)" and "list_all (\<lambda>r. fst r \<le> snd r) rs" and "separated (rev acc)"
    and "\<forall>r \<in> set rs. \<forall>p \<in> set acc. fst p \<le> fst r"
  shows "separated (merge_loop acc rs) \<and> length (merge_loop acc rs) \<le> length acc + length rs \<and>
    (\<forall>k. in_ranges k (merge_loop acc rs) \<longleftrightarrow> in_ranges k acc \<or> in_ranges k rs)"
  using assms
proof (induction acc rs rule: merge_loop.induct)
  case (1 merged)
  then show ?case by simp
next
  case (2 r rs)
  then show ?case by (auto simp: separated_def)
next
  case (3 p merged r rs)
  have le: "fst p \<le> fst r" using "3.prems"(4) by simp
  have sep: "sorted_wrt (\<lambda>a b. snd a + 1 < fst b) (rev merged)" "\<forall>q \<in> set merged. snd q + 1 < fst p"
    "list_all (\<lambda>r. fst r \<le> snd r) (rev merged)" "fst p \<le> snd p"
    using "3.prems"(3) by (auto simp: separated_def sorted_wrt_append)
  show ?case
  proof (cases "fst r \<le> snd p + 1")
    case True
    have "separated (rev ((fst p, max (snd p) (snd r)) # merged))"
      using sep by (auto simp: separated_def sorted_wrt_append)
    moreover have "in_range k (fst p, max (snd p) (snd r)) \<longleftrightarrow> in_range k p \<or> in_range k r" for k
      using le True sep(4) by (auto simp: in_range_def)
    ultimately show ?thesis using "3.IH"(1) [OF True] "3.prems" True le by auto
  next
    case False
    have "separated (rev (r # p # merged))"
      using sep False le "3.prems"(2) by (fastforce simp: separated_def sorted_wrt_append)
    then show ?thesis using "3.IH"(2) [OF False] "3.prems" False by auto
  qed
qed

lemma sorted_fst: "sorted (rs :: ranges) \<Longrightarrow> sorted (map fst rs)"
  by (induction rs) (auto simp: less_eq_prod_def)

lemma merge_correct:
  assumes "list_all (\<lambda>r. fst r \<le> snd r) rs"
  shows "separated (merge rs) \<and> length (merge rs) \<le> length rs \<and>
    (\<forall>k. in_ranges k (merge rs) \<longleftrightarrow> in_ranges k rs)"
  using merge_loop_correct [of "sort rs" "[]"] assms
  by (simp add: merge_def sorted_fst list_all_iff separated_def)

section \<open>Coalescing ranges\<close>

lemma take_nth_drop2: "i + 1 < length xs \<Longrightarrow> xs = take i xs @ xs ! i # xs ! (i + 1) # drop (i + 2) xs"
  by (metis Cons_nth_drop_Suc Suc_eq_plus1 add_2_eq_Suc' append_take_drop_id add_lessD1)

lemma join_at_correct:
  assumes "separated rs" and "i + 1 < length rs"
  shows "separated (join_at i rs) \<and> (\<forall>k. in_ranges k rs \<longrightarrow> in_ranges k (join_at i rs))"
proof -
  let ?a = "take i rs" and ?b = "drop (i + 2) rs" and ?p = "rs ! i" and ?q = "rs ! (i + 1)"
  have rs: "rs = ?a @ ?p # ?q # ?b" by (rule take_nth_drop2 [OF assms(2)])
  have s: "separated (?a @ ?p # ?q # ?b)" using assms(1) rs by simp
  have "separated (?a @ (fst ?p, snd ?q) # ?b)"
    using s by (auto simp: separated_def sorted_wrt_append)
  moreover have "in_range k (fst ?p, snd ?q)" if "in_range k ?p \<or> in_range k ?q" for k
    using s that by (auto simp: separated_def sorted_wrt_append in_range_def)
  then have "in_ranges k (?a @ (fst ?p, snd ?q) # ?b)" if "in_ranges k (?a @ ?p # ?q # ?b)" for k
    using that by auto
  ultimately show ?thesis using rs by (metis join_at_def)
qed

lemma coalesce_correct:
  "separated rs \<Longrightarrow>
   separated (coalesce rs arms) \<and> length (coalesce rs arms) \<le> max arms 1 \<and>
   (\<forall>k. in_ranges k rs \<longrightarrow> in_ranges k (coalesce rs arms))"
proof (induction rs arms rule: coalesce.induct)
  case (1 rs arms)
  show ?case
  proof (cases "max arms 1 < length rs")
    case True
    then have "gap_index rs + 1 < length rs" by (intro gap_index_bound) simp
    note joined = join_at_correct [OF 1(2) this]
    have "coalesce rs arms = coalesce (join_at (gap_index rs) rs) arms"
      using True by (subst coalesce.simps) simp
    then show ?thesis using joined 1(1) [OF True] by auto
  next
    case False
    then have "coalesce rs arms = rs" by (subst coalesce.simps) auto
    then show ?thesis using 1(2) False by auto
  qed
qed

section \<open>The cover\<close>

lemma children_wf:
  assumes "wf_cell p" and "cl_level p < 31" and "c \<in> set (children p)"
  shows "wf_cell c \<and> cl_level c = Suc (cl_level p)"
proof -
  define h where "h = (2 :: nat) ^ (30 - cl_level p)"
  have s: "cell_size p = 2 * h"
    using assms(2) by (simp add: cell_size_def h_def Suc_diff_Suc flip: power_Suc)
  have c: "cell_size c = h" "cl_level c = Suc (cl_level p)"
    using assms(3) by (auto simp: children_def Let_def cell_size_def h_def)
  have xy: "cl_x c = cl_x p \<or> cl_x c = cl_x p + h" "cl_y c = cl_y p \<or> cl_y c = cl_y p + h"
    using assms(3) s by (auto simp: children_def Let_def)
  have d: "h dvd cl_x p" "h dvd cl_y p" using assms(1) s by (auto simp: wf_cell_def elim: dvd_mult_right)
  have "h dvd cl_x c" "h dvd cl_y c" using xy d by (auto intro: dvd_add)
  then show ?thesis using xy c assms(1,2) s by (auto simp: wf_cell_def)
qed

lemma children_cover:
  assumes "cl_level p < 31" and "in_cell p x y"
  shows "\<exists>c \<in> set (children p). in_cell c x y"
proof -
  define h where "h = (2 :: nat) ^ (30 - cl_level p)"
  have s: "cell_size p = 2 * h"
    using assms(1) by (simp add: cell_size_def h_def Suc_diff_Suc flip: power_Suc)
  have e: "31 - Suc (cl_level p) = 30 - cl_level p" by simp
  show ?thesis using assms(2)
    by (auto simp: children_def Let_def in_cell_def cell_size_def e s [unfolded cell_size_def]
        h_def [symmetric])
qed

lemma cell_range_valid: "fst (cell_range c) \<le> snd (cell_range c)"
proof -
  have "0 < cell_size c * cell_size c" by simp
  then show ?thesis by (simp add: cell_range_def Let_def Suc_le_eq del: nat_0_less_mult_iff)
qed

text \<open>
  The contract between the descent and a classifier: \<open>target\<close> are the points to cover, and
  \<open>tracks s c\<close> says that state \<open>s\<close> is usable for the children of \<open>c\<close>. A child with a target
  point is never reported outside.
\<close>

locale classifier =
  fixes classify :: "cell \<Rightarrow> 's \<Rightarrow> overlap \<times> 's"
    and target :: "nat \<Rightarrow> nat \<Rightarrow> bool"
    and tracks :: "'s \<Rightarrow> cell \<Rightarrow> bool"
  assumes keeps: "tracks s p \<Longrightarrow> c \<in> set (children p) \<Longrightarrow> wf_cell c \<Longrightarrow> in_cell c x y \<Longrightarrow> target x y \<Longrightarrow>
      fst (classify c s) \<noteq> Outside"
    and passes: "tracks s p \<Longrightarrow> c \<in> set (children p) \<Longrightarrow> classify c s = (Partial, s') \<Longrightarrow> tracks s' c"
begin

definition level_inv :: "nat \<Rightarrow> ranges \<Rightarrow> (cell \<times> 's) list \<Rightarrow> bool" where
  "level_inv l rs cs \<longleftrightarrow>
     list_all (\<lambda>r. fst r \<le> snd r) rs \<and>
     (\<forall>(c, s) \<in> set cs. wf_cell c \<and> cl_level c = l \<and> tracks s c)"

definition covered :: "nat \<Rightarrow> nat \<Rightarrow> ranges \<Rightarrow> (cell \<times> 's) list \<Rightarrow> bool" where
  "covered x y rs cs \<longleftrightarrow> in_ranges (int (interleave x y)) rs \<or> (\<exists>(c, s) \<in> set cs. in_cell c x y)"

lemma child_step:
  assumes "tracks s p" and "wf_cell p" and "cl_level p = l" and "l < 31" and "c \<in> set (children p)"
    and "level_inv (Suc l) (fst acc) (snd acc)"
  defines "acc' \<equiv> descend_child classify s c acc"
  shows "level_inv (Suc l) (fst acc') (snd acc') \<and>
    length (fst acc') + length (snd acc') \<le> length (fst acc) + length (snd acc) + 1 \<and>
    (\<forall>x y. x < 2 ^ 31 \<longrightarrow> y < 2 ^ 31 \<longrightarrow> target x y \<longrightarrow>
       covered x y (fst acc) (snd acc) \<or> in_cell c x y \<longrightarrow> covered x y (fst acc') (snd acc'))"
proof -
  have c: "wf_cell c" "cl_level c = Suc l" using children_wf [OF assms(2) _ assms(5)] assms(3,4) by auto
  obtain v s' where v: "classify c s = (v, s')" by force
  have out: "\<not> in_cell c x y" if "v = Outside" "target x y" for x y
    using keeps [OF assms(1,5) c(1)] that v by auto
  show ?thesis
  proof (cases v)
    case Outside
    then show ?thesis using out assms(6) by (auto simp: acc'_def descend_child_def v)
  next
    case Partial
    then have "tracks s' c" using passes [OF assms(1,5)] v by simp
    then show ?thesis using Partial c assms(6)
      by (auto simp: acc'_def descend_child_def v level_inv_def covered_def)
  next
    case Inside
    then show ?thesis using c assms(6) cell_range_valid [of c] cell_range_exact [OF c(1)]
      by (auto simp: acc'_def descend_child_def v level_inv_def covered_def)
  qed
qed

lemma children_step:
  assumes "tracks s p" and "wf_cell p" and "cl_level p = l" and "l < 31" and "set cs \<subseteq> set (children p)"
    and "level_inv (Suc l) (fst acc) (snd acc)"
  defines "acc' \<equiv> fold (descend_child classify s) cs acc"
  shows "level_inv (Suc l) (fst acc') (snd acc') \<and>
    length (fst acc') + length (snd acc') \<le> length (fst acc) + length (snd acc) + length cs \<and>
    (\<forall>x y. x < 2 ^ 31 \<longrightarrow> y < 2 ^ 31 \<longrightarrow> target x y \<longrightarrow>
       covered x y (fst acc) (snd acc) \<or> (\<exists>c \<in> set cs. in_cell c x y) \<longrightarrow>
       covered x y (fst acc') (snd acc'))"
  using assms(5,6) unfolding acc'_def
proof (induction cs arbitrary: acc)
  case (Cons c cs)
  let ?acc = "descend_child classify s c acc"
  have c: "c \<in> set (children p)" "set cs \<subseteq> set (children p)" using Cons.prems(1) by auto
  note step = child_step [OF assms(1-4) c(1) Cons.prems(2)]
  note rest = Cons.IH [OF c(2), of ?acc]
  show ?case using step rest by fastforce
qed auto

lemma descend_step:
  assumes "level_inv l rs cs" and "l < 31" and "descend classify cs rs = (rs', cs')"
  shows "level_inv (Suc l) rs' cs' \<and> length rs' + length cs' \<le> length rs + 4 * length cs \<and>
    (\<forall>x y. x < 2 ^ 31 \<longrightarrow> y < 2 ^ 31 \<longrightarrow> target x y \<longrightarrow> covered x y rs cs \<longrightarrow> covered x y rs' cs')"
proof -
  have gen: "level_inv (Suc l) (fst acc') (snd acc') \<and>
      length (fst acc') + length (snd acc') \<le> length (fst acc) + length (snd acc) + 4 * length cs \<and>
      (\<forall>x y. x < 2 ^ 31 \<longrightarrow> y < 2 ^ 31 \<longrightarrow> target x y \<longrightarrow>
         covered x y (fst acc) (snd acc) \<or> (\<exists>(c, s) \<in> set cs. in_cell c x y) \<longrightarrow>
         covered x y (fst acc') (snd acc'))"
    if "level_inv (Suc l) (fst acc) (snd acc)" "\<forall>(c, s) \<in> set cs. wf_cell c \<and> cl_level c = l \<and> tracks s c"
      "acc' = fold (\<lambda>(parent, s) acc. fold (descend_child classify s) (children parent) acc) cs acc"
    for acc acc'
    using that
  proof (induction cs arbitrary: acc)
    case (Cons e cs)
    obtain p s where e: "e = (p, s)" by force
    let ?acc = "fold (descend_child classify s) (children p) acc"
    have p: "tracks s p" "wf_cell p" "cl_level p = l" using Cons.prems(2) by (auto simp: e)
    note step = children_step [OF p assms(2) subset_refl Cons.prems(1)]
    have four: "length (children p) = 4" by (simp add: children_def Let_def)
    have tail: "\<forall>(c, s) \<in> set cs. wf_cell c \<and> cl_level c = l \<and> tracks s c"
      "acc' = fold (\<lambda>(parent, s) acc. fold (descend_child classify s) (children parent) acc) cs ?acc"
      using Cons.prems(2,3) by (simp_all add: e)
    note rest = Cons.IH [OF conjunct1 [OF step] tail]
    have "covered x y (fst acc') (snd acc')"
      if h: "x < 2 ^ 31" "y < 2 ^ 31" "target x y"
        "covered x y (fst acc) (snd acc) \<or> (\<exists>(c, s) \<in> set (e # cs). in_cell c x y)" for x y
    proof -
      have "covered x y (fst ?acc) (snd ?acc) \<or> (\<exists>(c, s) \<in> set cs. in_cell c x y)"
        using h step children_cover [of p x y] p(3) assms(2) by (auto simp: e)
      then show ?thesis using h(1-3) rest by blast
    qed
    then show ?case using step rest four by auto
  qed auto
  have "level_inv (Suc l) rs []" using assms(1) by (simp add: level_inv_def)
  then show ?thesis using gen [of "(rs, [])" "(rs', cs')"] assms(1,3)
    by (auto simp: descend_def level_inv_def covered_def)
qed

lemma cover_loop_correct:
  assumes "level_inv l rs cs" and "31 < l + fuel" and "length rs + length cs \<le> max budget 1" and "l \<le> 31"
  shows "\<exists>out. cover_loop fuel budget classify rs cs = Some out \<and> length out \<le> max budget 1 \<and>
    list_all (\<lambda>r. fst r \<le> snd r) out \<and>
    (\<forall>x y. x < 2 ^ 31 \<longrightarrow> y < 2 ^ 31 \<longrightarrow> target x y \<longrightarrow> covered x y rs cs \<longrightarrow>
       in_ranges (int (interleave x y)) out)"
  using assms
proof (induction fuel arbitrary: l rs cs)
  case 0
  then show ?case by simp
next
  case (Suc fuel)
  show ?case
  proof (cases cs)
    case Nil
    then show ?thesis using Suc.prems by (simp add: level_inv_def covered_def)
  next
    case (Cons e cs')
    obtain c s where e: "e = (c, s)" by force
    have lev: "cl_level c = l" using Suc.prems(1) by (auto simp: level_inv_def Cons e)
    show ?thesis
    proof (cases "l = 31 \<or> max budget 1 < length rs + 4 * length cs")
      case True
      have "in_ranges (int (interleave x y)) (map (\<lambda>e. cell_range (fst e)) cs)"
        if "x < 2 ^ 31" "y < 2 ^ 31" "(d, t) \<in> set cs" "in_cell d x y" for x y d t
        using that cell_range_exact [of d x y] Suc.prems(1)
        by (auto simp: level_inv_def in_ranges_def list_ex_iff intro!: bexI [of _ "(d, t)"])
      moreover have "cover_loop (Suc fuel) budget classify rs cs =
          Some (rs @ map (\<lambda>e. cell_range (fst e)) cs)"
        using True lev by (auto simp: Cons e)
      ultimately show ?thesis using Suc.prems(1,3) cell_range_valid
        by (auto simp: level_inv_def covered_def list_all_iff)
    next
      case False
      obtain rs' cs'' where d: "descend classify cs rs = (rs', cs'')" by force
      have l: "l < 31" using False Suc.prems(4) by simp
      note step = descend_step [OF Suc.prems(1) l d]
      have "length rs' + length cs'' \<le> max budget 1" using step False by linarith
      with step Suc.IH [of "Suc l" rs' cs''] Suc.prems(2) l
      obtain out where out: "cover_loop fuel budget classify rs' cs'' = Some out"
        "length out \<le> max budget 1" "list_all (\<lambda>r. fst r \<le> snd r) out"
        "\<forall>x y. x < 2 ^ 31 \<longrightarrow> y < 2 ^ 31 \<longrightarrow> target x y \<longrightarrow> covered x y rs' cs'' \<longrightarrow>
           in_ranges (int (interleave x y)) out"
        by auto
      moreover have "cover_loop (Suc fuel) budget classify rs cs = Some out"
        using False lev out(1) d by (auto simp: Cons e)
      ultimately show ?thesis using step by blast
    qed
  qed
qed

lemma cover_correct:
  assumes "tracks root root_cell"
  shows "\<exists>out. cover budget root classify = Some out \<and> separated out \<and> length out \<le> max budget 1 \<and>
    (\<forall>x y. x < 2 ^ 31 \<longrightarrow> y < 2 ^ 31 \<longrightarrow> target x y \<longrightarrow> in_ranges (int (interleave x y)) out)"
proof -
  have "wf_cell root_cell" "cl_level root_cell = 0"
    by (simp_all add: wf_cell_def root_cell_def cell_size_def)
  then have "level_inv 0 [] [(root_cell, root)]" using assms by (simp add: level_inv_def)
  from cover_loop_correct [OF this, of "31 + 1" budget] obtain out where
    out: "cover_loop (31 + 1) budget classify [] [(root_cell, root)] = Some out"
      "length out \<le> max budget 1" "list_all (\<lambda>r. fst r \<le> snd r) out"
      "\<forall>x y. x < 2 ^ 31 \<longrightarrow> y < 2 ^ 31 \<longrightarrow> target x y \<longrightarrow> covered x y [] [(root_cell, root)] \<longrightarrow>
         in_ranges (int (interleave x y)) out"
    by auto
  have "covered x y [] [(root_cell, root)]" if "x < 2 ^ 31" "y < 2 ^ 31" for x y
    using that by (simp add: covered_def in_cell_def root_cell_def cell_size_def)
  then show ?thesis using out merge_correct [OF out(3)] by (auto simp: cover_def)
qed

end

section \<open>Windows\<close>

definition in_window :: "window \<Rightarrow> nat \<Rightarrow> nat \<Rightarrow> bool" where
  "in_window w x y \<longleftrightarrow> w_x0 w \<le> x \<and> x \<le> w_x1 w \<and> w_y0 w \<le> y \<and> y \<le> w_y1 w"

lemma overlap_window_sound: "in_cell c x y \<Longrightarrow> in_window w x y \<Longrightarrow> overlap_window c w \<noteq> Outside"
  by (auto simp: overlap_window_def in_cell_def in_window_def last_x_def last_y_def)

lemma best_overlap_rank:
  fixes f
  defines "f \<equiv> \<lambda>v best. if overlap_rank best \<le> overlap_rank v then v else best"
  shows "overlap_rank b \<le> overlap_rank (fold f vs b) \<and>
    (\<forall>v \<in> set vs. overlap_rank v \<le> overlap_rank (fold f vs b))"
proof (induction vs arbitrary: b)
  case (Cons u vs)
  have "overlap_rank b \<le> overlap_rank (f u b)" "overlap_rank u \<le> overlap_rank (f u b)"
    by (auto simp: f_def)
  then show ?case using Cons.IH [of "f u b"] by auto
qed simp

lemma best_overlap_Outside: "v \<in> set vs \<Longrightarrow> v \<noteq> Outside \<Longrightarrow> best_overlap vs \<noteq> Outside"
  using best_overlap_rank [of Outside vs]
  by (cases v) (auto simp: best_overlap_def overlap_rank_def dest!: bspec [of _ _ v])

interpretation windowed: classifier
  "\<lambda>c _. (best_overlap (map (overlap_window c) windows), ())"
  "\<lambda>x y. \<exists>w \<in> set windows. in_window w x y" "\<lambda>_ _. True" for windows
proof unfold_locales
  fix s :: unit and p c x y
  assume "in_cell c x y" and "\<exists>w \<in> set windows. in_window w x y"
  then obtain w where "w \<in> set windows" "overlap_window c w \<noteq> Outside"
    using overlap_window_sound by blast
  then show "fst (best_overlap (map (overlap_window c) windows), ()) \<noteq> Outside"
    using best_overlap_Outside [of "overlap_window c w" "map (overlap_window c) windows"] by simp
qed simp

section \<open>Properties\<close>

text \<open>C33: the bit tricks of \<open>interleave\<close> compute the Morton key. On the 31-bit grid bit \<open>2 i\<close> of the
key is bit \<open>i\<close> of \<open>x\<close> and bit \<open>2 i + 1\<close> is bit \<open>i\<close> of \<open>y\<close>, the key fits a positive 64-bit integer,
and distinct points have distinct keys.\<close>

theorem interleave_morton:
  assumes "x < 2 ^ 31" and "y < 2 ^ 31"
  shows "bit (interleave x y) (2 * i) = bit x i \<and> bit (interleave x y) (2 * i + 1) = bit y i \<and>
    interleave x y < 2 ^ 62 \<and>
    (\<forall>x' y'. x' < 2 ^ 31 \<and> y' < 2 ^ 31 \<and> interleave x' y' = interleave x y \<longrightarrow> x' = x \<and> y' = y)"
proof -
  have "bit (interleave x y) (2 * i) = bit x i" "bit (interleave x y) (2 * i + 1) = bit y i"
    using assms not_bit_ge [OF assms(1), of i] not_bit_ge [OF assms(2), of i]
    by (cases "i < 31"; simp add: interleave_zorder bit_zorder)+
  moreover have "interleave x y < 2 ^ 62"
    using assms zorder_less [of 31 x y] by (simp add: interleave_zorder)
  moreover have "x' = x \<and> y' = y"
    if "x' < 2 ^ 31 \<and> y' < 2 ^ 31 \<and> interleave x' y' = interleave x y" for x' y'
  proof -
    have lt: "x' < 2 ^ 31" "y' < 2 ^ 31" and eq: "interleave x' y' = interleave x y" using that by auto
    have "zorder 31 x' y' = zorder 31 x y"
      using eq unfolding interleave_zorder [OF lt] interleave_zorder [OF assms] .
    then show ?thesis by (rule zorder_inject) (fact lt assms)+
  qed
  ultimately show ?thesis by blast
qed

theorem interleave_morton_witness:
  "bit (interleave 5 3) 4 = bit (5 :: nat) 2 \<and> bit (interleave 5 3) 3 = bit (3 :: nat) 1 \<and>
   interleave 5 3 < 2 ^ 62"
  using interleave_morton [of 5 3 2] interleave_morton [of 5 3 1] by simp

text \<open>C35: the key range of a quadtree cell contains the key of a grid point exactly when the cell
contains the point.\<close>

theorem cell_range_is_cell:
  assumes "wf_cell c" and "x < 2 ^ 31" and "y < 2 ^ 31"
  shows "(fst (cell_range c) \<le> int (interleave x y) \<and> int (interleave x y) \<le> snd (cell_range c)) =
    in_cell c x y"
  using cell_range_exact [OF assms] by (simp add: in_range_def)

theorem cell_range_is_cell_witness:
  "(fst (cell_range \<lparr>cl_level = 30, cl_x = 4, cl_y = 2\<rparr>) \<le> int (interleave 5 3) \<and>
    int (interleave 5 3) \<le> snd (cell_range \<lparr>cl_level = 30, cl_x = 4, cl_y = 2\<rparr>)) =
   in_cell \<lparr>cl_level = 30, cl_x = 4, cl_y = 2\<rparr> 5 3"
  by (rule cell_range_is_cell) (simp_all add: wf_cell_def cell_size_def)

text \<open>C34: the level-tagged codes decide containment. The code of a cell is among the 32 ancestor codes
of a point exactly when the cell, at any level, contains the point.\<close>

theorem ancestor_codes_exact:
  assumes "wf_cell c" and "x < 2 ^ 31" and "y < 2 ^ 31"
  shows "(cell_code c \<in> set (ancestor_codes (interleave x y))) = in_cell c x y"
  using ancestor_code_iff [OF assms] by simp

theorem ancestor_codes_exact_witness:
  "(cell_code \<lparr>cl_level = 30, cl_x = 4, cl_y = 2\<rparr> \<in> set (ancestor_codes (interleave 6 3))) =
   in_cell \<lparr>cl_level = 30, cl_x = 4, cl_y = 2\<rparr> 6 3"
  by (rule ancestor_codes_exact) (simp_all add: wf_cell_def cell_size_def)

text \<open>C8: covers are complete and bounded. \<open>cover_windows\<close> ends within its 32 rounds and returns at most
\<open>max budget 1\<close> separated ranges that contain the key of every grid point of every window.\<close>

theorem cover_windows_complete:
  "\<exists>out. cover_windows windows budget = Some out \<and> separated out \<and> length out \<le> max budget 1 \<and>
     (\<forall>w x y. w \<in> set windows \<and> in_window w x y \<and> x < 2 ^ 31 \<and> y < 2 ^ 31 \<longrightarrow>
        in_ranges (int (interleave x y)) out)"
proof -
  from windowed.cover_correct [where root = "()" and budget = budget and windows = windows] obtain out where
    out: "cover_windows windows budget = Some out" "separated out" "length out \<le> max budget 1"
    and all: "\<forall>x y. x < 2 ^ 31 \<longrightarrow> y < 2 ^ 31 \<longrightarrow> (\<exists>w \<in> set windows. in_window w x y) \<longrightarrow>
      in_ranges (int (interleave x y)) out"
    by (auto simp: cover_windows_def)
  have "in_ranges (int (interleave x y)) out"
    if "w \<in> set windows" "in_window w x y" "x < 2 ^ 31" "y < 2 ^ 31" for w x y
    using that all by blast
  then show ?thesis using out by blast
qed

definition sample_window :: window where
  "sample_window = \<lparr>w_x0 = 3, w_x1 = 9, w_y0 = 5, w_y1 = 6\<rparr>"

theorem cover_windows_complete_witness:
  "\<exists>out. cover_windows [sample_window] 8 = Some out \<and> length out \<le> 8 \<and>
     in_ranges (int (interleave 4 6)) out"
proof -
  from cover_windows_complete [of "[sample_window]" 8] obtain out where
    out: "cover_windows [sample_window] 8 = Some out" "length out \<le> max 8 1"
    and all: "\<forall>w x y. w \<in> set [sample_window] \<and> in_window w x y \<and> x < 2 ^ 31 \<and> y < 2 ^ 31 \<longrightarrow>
      in_ranges (int (interleave x y)) out"
    by blast
  have "sample_window \<in> set [sample_window] \<and> in_window sample_window 4 6 \<and> (4 :: nat) < 2 ^ 31 \<and>
      (6 :: nat) < 2 ^ 31"
    by (simp add: in_window_def sample_window_def)
  with all have "in_ranges (int (interleave 4 6)) out" by blast
  with out show ?thesis by simp
qed

text \<open>Merging and coalescing lose no key. \<open>merge\<close> denotes exactly the keys of its input, sorted and
separated; \<open>coalesce\<close> keeps every key and leaves at most \<open>max arms 1\<close> separated ranges.\<close>

lemma merge_coalesce_sound:
  assumes "list_all (\<lambda>r. fst r \<le> snd r) rs"
  shows "separated (merge rs) \<and> (\<forall>k. in_ranges k (merge rs) = in_ranges k rs) \<and>
    separated (coalesce (merge rs) arms) \<and> length (coalesce (merge rs) arms) \<le> max arms 1 \<and>
    (\<forall>k. in_ranges k rs \<longrightarrow> in_ranges k (coalesce (merge rs) arms))"
  using merge_correct [OF assms] coalesce_correct [of "merge rs" arms] by blast

end
