(* ===== verification/Admission.thy ===== *)
theory Admission
  imports Prelude "HOL-Library.Multiset"
begin

text \<open>
  Request admission of the service, \<open>fastdb/service/src/admission.rs\<close>: at most four requests run,
  at most 32 wait, and \<open>stop\<close> turns every later and every waiting request away.

  The mutex makes each passage of \<open>acquire\<close> between two waits atomic, so a passage is a function
  on \<open>State\<close>: \<open>acquire\<close> up to the first \<open>wait_timeout\<close> or return, \<open>resume\<close> from a wake-up to the
  next. Clock readings are arguments. \<open>usize\<close> subtraction is checked: taking one from a zero
  counter is the outcome \<open>Panicked\<close>, which would poison the mutex. The step relation interleaves
  the passages of any number of threads; \<open>sy_waiting\<close> holds the deadlines of the threads inside
  \<open>wait_timeout\<close>, \<open>sy_permits\<close> counts the live \<open>Permit\<close>s. Among the waiting threads \<open>sy_notified\<close>
  are those that \<open>notify_all\<close> has released and that have not yet run; the others are blocked, and one
  of them may still wake up by its timeout or spuriously. A thread that finds the gate full again
  waits for the next notification.
\<close>

section \<open>Passages through the lock\<close>

record adm_state =
  active :: nat
  queued :: nat
  closing :: bool

datatype adm_error = FDB_CLOSED | FDB_BUSY | FDB_CANCELLED

datatype outcome = Granted | Refused adm_error | Waiting | Panicked

text \<open>\<open>state.queued -= 1\<close>, then \<open>next\<close>.\<close>

definition leave_queue ::
  "adm_state \<Rightarrow> (adm_state \<Rightarrow> adm_state \<times> outcome) \<Rightarrow> adm_state \<times> outcome" where
  "leave_queue s next =
     (if queued s = 0 then (s, Panicked) else next (s\<lparr>queued := queued s - 1\<rparr>))"

definition admit :: "nat \<Rightarrow> nat \<Rightarrow> adm_state \<Rightarrow> adm_state \<times> outcome" where
  "admit now deadline s =
     (if closing s then (s, Refused FDB_CLOSED)
      else if deadline \<le> now then (s, Refused FDB_CANCELLED)
      else (s\<lparr>active := active s + 1\<rparr>, Granted))"

text \<open>
  The loop condition and body of the wait, \<open>now\<close> being the reading of the loop and \<open>now'\<close> that of
  the last check.
\<close>

definition resume :: "nat \<Rightarrow> nat \<Rightarrow> nat \<Rightarrow> adm_state \<Rightarrow> adm_state \<times> outcome" where
  "resume now now' deadline s =
     (if 4 \<le> active s \<and> \<not> closing s
      then if deadline - now = 0
        then leave_queue s (\<lambda>s'. (s', Refused FDB_CANCELLED))
        else (s, Waiting)
      else leave_queue s (admit now' deadline))"

definition acquire :: "nat \<Rightarrow> nat \<Rightarrow> nat \<Rightarrow> adm_state \<Rightarrow> adm_state \<times> outcome" where
  "acquire now now' deadline s =
     (if closing s then (s, Refused FDB_CLOSED)
      else if 4 \<le> active s
        then if 32 \<le> queued s then (s, Refused FDB_BUSY)
          else resume now now' deadline (s\<lparr>queued := queued s + 1\<rparr>)
        else admit now' deadline s)"

text \<open>What a method does to the condition variable \<open>changed\<close> before it unlocks the mutex.\<close>

datatype signal = Notify_all | No_signal

definition stop :: "adm_state \<Rightarrow> adm_state \<times> signal" where
  "stop s = (s\<lparr>closing := True\<rparr>, Notify_all)"

definition drop_permit :: "adm_state \<Rightarrow> (adm_state \<times> signal) option" where
  "drop_permit s = (if active s = 0 then None else Some (s\<lparr>active := active s - 1\<rparr>, Notify_all))"

section \<open>Threads\<close>

record system =
  sy_state :: adm_state
  sy_waiting :: "nat multiset"
  sy_notified :: "nat multiset"
  sy_permits :: nat
  sy_now :: nat
  sy_panicked :: bool

datatype event = Acquire nat outcome | Notified nat outcome | Wake nat outcome | Stop | Release

text \<open>The threads blocked in the condition variable.\<close>

definition blocked :: "system \<Rightarrow> nat multiset" where
  "blocked y = sy_waiting y - sy_notified y"

definition broadcast :: "signal \<Rightarrow> system \<Rightarrow> system" where
  "broadcast sig y = (case sig of Notify_all \<Rightarrow> y\<lparr>sy_notified := sy_waiting y\<rparr> | No_signal \<Rightarrow> y)"

text \<open>What a passage that ends with an outcome leaves behind, given the other waiting threads.\<close>

definition settle :: "nat multiset \<Rightarrow> nat \<Rightarrow> nat \<Rightarrow> adm_state \<times> outcome \<Rightarrow> system \<Rightarrow> system" where
  "settle others deadline now r y =
     y\<lparr>sy_state := fst r,
       sy_waiting := (if snd r = Waiting then add_mset deadline others else others),
       sy_permits := (if snd r = Granted then sy_permits y + 1 else sy_permits y),
       sy_now := now,
       sy_panicked := sy_panicked y \<or> snd r = Panicked\<rparr>"

inductive adm_step :: "system \<Rightarrow> event \<Rightarrow> system \<Rightarrow> bool" where
  step_acquire:
    "sy_now y \<le> now \<Longrightarrow> now \<le> now' \<Longrightarrow> r = acquire now now' deadline (sy_state y) \<Longrightarrow>
     adm_step y (Acquire deadline (snd r)) (settle (sy_waiting y) deadline now' r y)"
| step_notified:
    "sy_now y \<le> now \<Longrightarrow> now \<le> now' \<Longrightarrow> deadline \<in># sy_notified y \<Longrightarrow>
     r = resume now now' deadline (sy_state y) \<Longrightarrow>
     adm_step y (Notified deadline (snd r))
       (settle (sy_waiting y - {#deadline#}) deadline now' r y\<lparr>sy_notified := sy_notified y - {#deadline#}\<rparr>)"
| step_wake:
    "sy_now y \<le> now \<Longrightarrow> now \<le> now' \<Longrightarrow> deadline \<in># blocked y \<Longrightarrow>
     r = resume now now' deadline (sy_state y) \<Longrightarrow>
     adm_step y (Wake deadline (snd r)) (settle (sy_waiting y - {#deadline#}) deadline now' r y)"
| step_stop:
    "stop (sy_state y) = (s, sig) \<Longrightarrow> adm_step y Stop (broadcast sig (y\<lparr>sy_state := s\<rparr>))"
| step_release:
    "0 < sy_permits y \<Longrightarrow> drop_permit (sy_state y) = Some (s, sig) \<Longrightarrow>
     adm_step y Release (broadcast sig (y\<lparr>sy_state := s, sy_permits := sy_permits y - 1\<rparr>))"
| step_release_panic:
    "0 < sy_permits y \<Longrightarrow> drop_permit (sy_state y) = None \<Longrightarrow>
     adm_step y Release (y\<lparr>sy_permits := sy_permits y - 1, sy_panicked := True\<rparr>)"

definition initial :: system where
  "initial = \<lparr>sy_state = \<lparr>active = 0, queued = 0, closing = False\<rparr>, sy_waiting = {#},
     sy_notified = {#}, sy_permits = 0, sy_now = 0, sy_panicked = False\<rparr>"

inductive reachable :: "system \<Rightarrow> bool" where
  reachable_initial: "reachable initial"
| reachable_step: "reachable y \<Longrightarrow> adm_step y ev y' \<Longrightarrow> reachable y'"

text \<open>
  A run of the service: the states and the events from the initial state on, \<open>None\<close> when no thread
  moves. It is fair when a notified thread gets to run (one of them, if several stay notified) and a
  live permit is dropped at some time. Nothing is assumed of timeouts and of spurious wake-ups.
\<close>

definition is_run :: "(nat \<Rightarrow> system) \<Rightarrow> (nat \<Rightarrow> event option) \<Rightarrow> bool" where
  "is_run f e \<longleftrightarrow> f 0 = initial \<and>
     (\<forall>i. case e i of None \<Rightarrow> f (Suc i) = f i | Some ev \<Rightarrow> adm_step (f i) ev (f (Suc i)))"

definition fair :: "(nat \<Rightarrow> system) \<Rightarrow> (nat \<Rightarrow> event option) \<Rightarrow> bool" where
  "fair f e \<longleftrightarrow>
     (\<forall>i. (\<forall>j \<ge> i. sy_notified (f j) \<noteq> {#}) \<longrightarrow> (\<exists>j \<ge> i. \<exists>d out. e j = Some (Notified d out))) \<and>
     (\<forall>i. (\<forall>j \<ge> i. 0 < sy_permits (f j)) \<longrightarrow> (\<exists>j \<ge> i. e j = Some Release))"

inductive_cases step_StopE: "adm_step y Stop y'"

section \<open>The invariant\<close>

definition adm_inv :: "system \<Rightarrow> bool" where
  "adm_inv y \<longleftrightarrow>
     active (sy_state y) = sy_permits y \<and> sy_permits y \<le> 4 \<and>
     queued (sy_state y) = size (sy_waiting y) \<and> size (sy_waiting y) \<le> 32 \<and> \<not> sy_panicked y"

text \<open>
  No wake-up is lost: a thread is blocked only while all four permits are live and the service is not
  stopping, which is what the loop condition of its wait tests.
\<close>

definition wakeup_inv :: "system \<Rightarrow> bool" where
  "wakeup_inv y \<longleftrightarrow> sy_notified y \<subseteq># sy_waiting y \<and>
     (blocked y \<noteq> {#} \<longrightarrow> sy_permits y = 4 \<and> \<not> closing (sy_state y))"

lemmas passage_defs = leave_queue_def admit_def resume_def acquire_def settle_def adm_inv_def
lemmas signal_defs = stop_def drop_permit_def broadcast_def

lemma inv_acquire:
  assumes "adm_inv y"
  shows "adm_inv (settle (sy_waiting y) deadline now' (acquire now now' deadline (sy_state y)) y)"
  using assms by (auto simp: passage_defs)

lemma inv_resume:
  assumes "adm_inv y" and "deadline \<in># sy_waiting y"
  shows "adm_inv (settle (sy_waiting y - {#deadline#}) deadline now'
    (resume now now' deadline (sy_state y)) y)"
proof -
  obtain rest where rest: "sy_waiting y = add_mset deadline rest"
    using assms(2) by (meson mset_add)
  show ?thesis using assms(1) by (auto simp: passage_defs rest)
qed

lemma blocked_waiting: "d \<in># blocked y \<Longrightarrow> d \<in># sy_waiting y"
  by (simp add: blocked_def in_diffD)

lemma notified_waiting: "wakeup_inv y \<Longrightarrow> d \<in># sy_notified y \<Longrightarrow> d \<in># sy_waiting y"
  by (auto simp: wakeup_inv_def dest: mset_subset_eqD)

lemma adm_inv_notified: "adm_inv (y\<lparr>sy_notified := ds\<rparr>) = adm_inv y"
  by (simp add: adm_inv_def)

lemma inv_step: "adm_step y ev y' \<Longrightarrow> adm_inv y \<Longrightarrow> wakeup_inv y \<Longrightarrow> adm_inv y'"
proof (induction rule: adm_step.induct)
  case (step_acquire y now now' r deadline)
  then show ?case using inv_acquire by simp
next
  case (step_notified y now now' deadline r)
  then show ?case using inv_resume notified_waiting by (simp add: adm_inv_notified)
next
  case (step_wake y now now' deadline r)
  then show ?case using inv_resume blocked_waiting by simp
qed (auto simp: adm_inv_def signal_defs split: if_splits)

text \<open>The wake-up invariant after the passage of one thread.\<close>

lemma wakeup_acquire:
  assumes "adm_inv y" and "wakeup_inv y"
  shows "wakeup_inv (settle (sy_waiting y) deadline now' (acquire now now' deadline (sy_state y)) y)"
  using assms
  by (auto simp: passage_defs wakeup_inv_def blocked_def subset_mset.le_iff_add split: if_splits)

lemma wakeup_notified:
  assumes "adm_inv y" and "wakeup_inv y" and "deadline \<in># sy_notified y"
  shows "wakeup_inv (settle (sy_waiting y - {#deadline#}) deadline now'
    (resume now now' deadline (sy_state y)) y\<lparr>sy_notified := sy_notified y - {#deadline#}\<rparr>)"
proof -
  obtain n where n: "sy_notified y = add_mset deadline n" using assms(3) by (meson mset_add)
  obtain b where w: "sy_waiting y = add_mset deadline (n + b)"
    using assms(2) by (auto simp: wakeup_inv_def n subset_mset.le_iff_add)
  show ?thesis using assms(1,2)
    by (auto simp: passage_defs wakeup_inv_def blocked_def n w split: if_splits)
qed

lemma wakeup_wake:
  assumes "adm_inv y" and "wakeup_inv y" and "deadline \<in># blocked y"
  shows "wakeup_inv (settle (sy_waiting y - {#deadline#}) deadline now'
    (resume now now' deadline (sy_state y)) y)"
proof -
  obtain b where b: "blocked y = add_mset deadline b" using assms(3) by (meson mset_add)
  have w: "sy_waiting y = add_mset deadline (sy_notified y + b)"
    using assms(2) b by (auto simp: wakeup_inv_def blocked_def subset_mset.le_iff_add)
  show ?thesis using assms(1,2) b
    by (auto simp: passage_defs wakeup_inv_def blocked_def w split: if_splits)
qed

lemma wakeup_step: "adm_step y ev y' \<Longrightarrow> adm_inv y \<Longrightarrow> wakeup_inv y \<Longrightarrow> wakeup_inv y'"
proof (induction rule: adm_step.induct)
  case (step_acquire y now now' r deadline)
  then show ?case using wakeup_acquire by simp
next
  case (step_notified y now now' deadline r)
  then show ?case using wakeup_notified by simp
next
  case (step_wake y now now' deadline r)
  then show ?case using wakeup_wake by simp
next
  case (step_release_panic y)
  then show ?case by (auto simp: adm_inv_def drop_permit_def split: if_splits)
qed (auto simp: wakeup_inv_def blocked_def signal_defs split: if_splits)

lemma reachable_invs: "reachable y \<Longrightarrow> adm_inv y \<and> wakeup_inv y"
proof (induction rule: reachable.induct)
  case reachable_initial
  show ?case by (simp add: initial_def adm_inv_def wakeup_inv_def blocked_def)
qed (use inv_step wakeup_step in blast)

lemmas reachable_inv = reachable_invs [THEN conjunct1]

section \<open>After stop\<close>

lemma resume_closing:
  "adm_inv y \<Longrightarrow> closing (sy_state y) \<Longrightarrow> deadline \<in># sy_waiting y \<Longrightarrow>
   snd (resume now now' deadline (sy_state y)) = Refused FDB_CLOSED \<and>
   closing (fst (resume now now' deadline (sy_state y)))"
  by (auto simp: passage_defs)

text \<open>Once the service stops, every thread that runs is turned away and the rest of the work shrinks.\<close>

definition turned_away :: "event \<Rightarrow> bool" where
  "turned_away ev \<longleftrightarrow>
     (case ev of Acquire d out \<Rightarrow> out = Refused FDB_CLOSED | Notified d out \<Rightarrow> out = Refused FDB_CLOSED
      | Wake d out \<Rightarrow> out = Refused FDB_CLOSED | _ \<Rightarrow> True)"

definition remaining :: "system \<Rightarrow> nat" where
  "remaining y = size (sy_waiting y) + sy_permits y"

lemma closing_step:
  assumes "adm_step y ev y'" and "adm_inv y" and "wakeup_inv y" and "closing (sy_state y)"
  shows "closing (sy_state y') \<and> turned_away ev \<and> remaining y' \<le> remaining y \<and>
    ((\<exists>d out. ev = Notified d out) \<or> ev = Release \<longrightarrow> remaining y' < remaining y)"
  using assms
proof (induction rule: adm_step.induct)
  case (step_notified y now now' deadline r)
  then have w: "deadline \<in># sy_waiting y" by (blast intro: notified_waiting)
  then show ?case using step_notified resume_closing [OF _ _ w, of now now'] size_Suc_Diff1 [OF w]
    by (simp add: settle_def turned_away_def remaining_def)
next
  case (step_wake y now now' deadline r)
  then show ?case by (auto simp: wakeup_inv_def)
qed (auto simp: acquire_def settle_def turned_away_def remaining_def signal_defs split: if_splits)

text \<open>Under fairness a state with work left is followed by one with less.\<close>

lemma run_reachable: "is_run f e \<Longrightarrow> reachable (f i)"
proof (induction i)
  case (Suc i)
  then show ?case
    by (cases "e i") (auto simp: is_run_def intro: reachable_step dest!: spec [of _ i])
qed (auto simp: is_run_def intro: reachable_initial)

lemma run_stop: "is_run f e \<Longrightarrow> e k = Some Stop \<Longrightarrow> closing (sy_state (f (Suc k)))"
  by (auto simp: is_run_def signal_defs elim!: step_StopE dest!: spec [of _ k])

lemma run_closing_step:
  assumes "is_run f e" and "closing (sy_state (f i))"
  shows "closing (sy_state (f (Suc i))) \<and> (\<forall>ev. e i = Some ev \<longrightarrow> turned_away ev) \<and>
    remaining (f (Suc i)) \<le> remaining (f i) \<and>
    ((\<exists>d out. e i = Some (Notified d out)) \<or> e i = Some Release \<longrightarrow> remaining (f (Suc i)) < remaining (f i))"
proof (cases "e i")
  case None
  then have "f (Suc i) = f i" using assms(1) by (auto simp: is_run_def dest!: spec [of _ i])
  then show ?thesis using assms(2) None by simp
next
  case (Some ev)
  then have "adm_step (f i) ev (f (Suc i))" using assms(1) by (auto simp: is_run_def dest!: spec [of _ i])
  then show ?thesis using closing_step reachable_invs [OF run_reachable [OF assms(1)]] assms(2) Some by auto
qed

lemma run_closing:
  assumes "is_run f e" and "closing (sy_state (f i))" and "i \<le> j"
  shows "closing (sy_state (f j)) \<and> remaining (f j) \<le> remaining (f i)"
  using assms(3)
proof (induction rule: dec_induct)
  case (step n)
  then show ?case using run_closing_step [OF assms(1), of n] by (meson order_trans)
qed (use assms(2) in simp)

lemma run_progress:
  assumes run: "is_run f e" and fair: "fair f e" and closing: "closing (sy_state (f i))"
    and left: "0 < remaining (f i)"
  shows "\<exists>j \<ge> i. remaining (f j) < remaining (f i)"
proof (rule ccontr)
  assume "\<not> ?thesis"
  then have same: "remaining (f j) = remaining (f i)" if "i \<le> j" for j
    using that run_closing [OF run closing that] by (meson le_neq_implies_less)
  have quiet: "\<not> ((\<exists>d out. e j = Some (Notified d out)) \<or> e j = Some Release)" if "i \<le> j" for j
    using run_closing_step [OF run run_closing [OF run closing that, THEN conjunct1]]
      same [OF that] same [of "Suc j"] that by auto
  then obtain j where j: "i \<le> j" "sy_notified (f j) = {#}"
    using fair unfolding fair_def by blast
  have inv: "wakeup_inv (f k)" for k by (rule reachable_invs [OF run_reachable [OF run], THEN conjunct2])
  have idle: "sy_permits (f k) = remaining (f k)" if "j \<le> k" for k
    using that
  proof (induction rule: dec_induct)
    case base
    then show ?case using inv [of j] run_closing [OF run closing j(1)] j(2)
      by (auto simp: wakeup_inv_def blocked_def remaining_def)
  next
    case (step k)
    have k: "closing (sy_state (f k))" "i \<le> k" using run_closing [OF run closing] step.hyps j(1) by auto
    have w: "sy_waiting (f k) = {#}" using step.IH by (simp add: remaining_def)
    have "sy_waiting (f (Suc k)) = {#}"
    proof (cases "e k")
      case None
      then show ?thesis using run w by (auto simp: is_run_def dest!: spec [of _ k])
    next
      case (Some ev)
      then have "adm_step (f k) ev (f (Suc k))" using run by (auto simp: is_run_def dest!: spec [of _ k])
      then show ?thesis using k(1) w inv [of k]
        by (cases rule: adm_step.cases)
          (auto simp: acquire_def settle_def signal_defs wakeup_inv_def blocked_def split: if_splits)
    qed
    then show ?case by (simp add: remaining_def)
  qed
  have "\<forall>k \<ge> j. 0 < sy_permits (f k)" using idle same j(1) left by (metis order_trans)
  then obtain k where "j \<le> k" "e k = Some Release" using fair unfolding fair_def by blast
  then show False using quiet [of k] j(1) by simp
qed

lemma run_drains:
  assumes run: "is_run f e" and fair: "fair f e" and "closing (sy_state (f i))"
  shows "\<exists>n \<ge> i. remaining (f n) = 0"
  using assms(3)
proof (induction "remaining (f i)" arbitrary: i rule: less_induct)
  case less
  show ?case
  proof (cases "remaining (f i) = 0")
    case False
    then obtain j where j: "i \<le> j" "remaining (f j) < remaining (f i)"
      using run_progress [OF run fair less.prems] by auto
    then show ?thesis
      using less.hyps [OF j(2)] run_closing [OF run less.prems j(1)] by (meson order_trans)
  qed auto
qed

section \<open>Properties\<close>

text \<open>C9: in every interleaving of any number of threads at most four permits are live and at most 32
threads wait, the two counters of \<open>State\<close> are exactly these numbers, and no passage through the lock
underflows a counter, so the mutex is never poisoned.\<close>

theorem admission_bounds:
  assumes "reachable y"
  shows "active (sy_state y) = sy_permits y \<and> sy_permits y \<le> 4 \<and>
    queued (sy_state y) = size (sy_waiting y) \<and> size (sy_waiting y) \<le> 32 \<and> \<not> sy_panicked y"
  using reachable_inv [OF assms] by (simp add: adm_inv_def)

definition granted_once :: system where
  "granted_once = settle {#} 9 5 (acquire 3 5 9 (sy_state initial)) initial"

lemma reachable_granted_once: "reachable granted_once"
  using reachable_step [OF reachable_initial step_acquire [of initial 3 5 _ 9]]
  by (simp add: granted_once_def initial_def)

theorem admission_bounds_witness:
  "sy_permits granted_once = 1 \<and> active (sy_state granted_once) = sy_permits granted_once \<and>
   \<not> sy_panicked granted_once"
  using admission_bounds [OF reachable_granted_once]
  by (simp add: granted_once_def initial_def acquire_def admit_def settle_def)

text \<open>C27: the outcome of each passage, on every branch. A new request is refused as busy exactly when
four run and 32 wait; it waits only when four run and its deadline lies ahead. A waiting request that
wakes up is refused as closed after \<open>stop\<close>, is granted when a slot is free and its deadline lies ahead,
and never waits on once its deadline has passed.\<close>

theorem admission_outcomes:
  assumes "reachable y" and "now \<le> now'"
  shows "snd (acquire now now' deadline (sy_state y)) =
      (if closing (sy_state y) then Refused FDB_CLOSED
       else if sy_permits y = 4 \<and> size (sy_waiting y) = 32 then Refused FDB_BUSY
       else if sy_permits y = 4 then (if deadline \<le> now then Refused FDB_CANCELLED else Waiting)
       else if deadline \<le> now' then Refused FDB_CANCELLED else Granted) \<and>
    (deadline \<in># sy_waiting y \<longrightarrow> snd (resume now now' deadline (sy_state y)) =
      (if closing (sy_state y) then Refused FDB_CLOSED
       else if sy_permits y = 4 then (if deadline \<le> now then Refused FDB_CANCELLED else Waiting)
       else if deadline \<le> now' then Refused FDB_CANCELLED else Granted))"
  using reachable_inv [OF assms(1)] by (auto simp: passage_defs)

theorem admission_outcomes_witness:
  "snd (acquire 6 7 9 (sy_state granted_once)) = Granted"
  using admission_outcomes [OF reachable_granted_once, of 6 7 9]
  by (simp add: granted_once_def initial_def acquire_def admit_def settle_def)

text \<open>C26: the service always winds down. In every fair run of the service, a thread is blocked in the
condition variable only while all four permits are live and no \<open>stop\<close> has come, so no wake-up is lost;
from the first \<open>stop\<close> on every request, new or waiting, that runs is refused with \<open>FDB_CLOSED\<close>; and from
some point on no thread waits and no permit is live. Fairness asks only that threads released by
\<open>notify_all\<close> get to run and that permits are dropped: no thread needs its timeout.\<close>

theorem shutdown_completes:
  assumes "is_run f e" and "fair f e" and "e k = Some Stop"
  shows "(\<forall>i. blocked (f i) \<noteq> {#} \<longrightarrow> sy_permits (f i) = 4 \<and> \<not> closing (sy_state (f i))) \<and>
    (\<forall>i > k. \<forall>ev. e i = Some ev \<longrightarrow> turned_away ev) \<and>
    (\<exists>n. \<forall>i \<ge> n. sy_waiting (f i) = {#} \<and> sy_permits (f i) = 0)"
proof (intro conjI allI impI)
  fix i assume "blocked (f i) \<noteq> {#}"
  then show "sy_permits (f i) = 4" "\<not> closing (sy_state (f i))"
    using reachable_invs [OF run_reachable [OF assms(1)], of i] by (auto simp: wakeup_inv_def)
next
  note k = run_stop [OF assms(1,3)]
  fix i ev assume "k < i" "e i = Some ev"
  then show "turned_away ev"
    using run_closing_step [OF assms(1), of i] run_closing [OF assms(1) k, of i] by simp
next
  note k = run_stop [OF assms(1,3)]
  obtain n where n: "Suc k \<le> n" "remaining (f n) = 0" using run_drains [OF assms(1,2) k] by auto
  then have "remaining (f i) = 0" if "n \<le> i" for i
    using run_closing [OF assms(1) run_closing [OF assms(1) k n(1), THEN conjunct1] that] by simp
  then show "\<exists>n. \<forall>i \<ge> n. sy_waiting (f i) = {#} \<and> sy_permits (f i) = 0"
    by (auto simp: remaining_def intro!: exI [of _ n])
qed

text \<open>Four requests run and a fifth waits when the service stops.\<close>

definition sample_events :: "event list" where
  "sample_events =
     [Acquire 9 Granted, Acquire 9 Granted, Acquire 9 Granted, Acquire 9 Granted, Acquire 9 Waiting, Stop,
      Notified 9 (Refused FDB_CLOSED), Release, Release, Release, Release]"

definition sample_state :: "nat \<Rightarrow> nat \<Rightarrow> nat \<Rightarrow> bool \<Rightarrow> system" where
  "sample_state permits waiting notified stopping =
     \<lparr>sy_state = \<lparr>active = permits, queued = waiting, closing = stopping\<rparr>,
      sy_waiting = replicate_mset waiting 9, sy_notified = replicate_mset notified 9,
      sy_permits = permits, sy_now = 0, sy_panicked = False\<rparr>"

definition sample_states :: "system list" where
  "sample_states =
     [sample_state 0 0 0 False, sample_state 1 0 0 False, sample_state 2 0 0 False,
      sample_state 3 0 0 False, sample_state 4 0 0 False, sample_state 4 1 0 False,
      sample_state 4 1 1 True, sample_state 4 0 0 True, sample_state 3 0 0 True,
      sample_state 2 0 0 True, sample_state 1 0 0 True, sample_state 0 0 0 True]"

definition sample_run :: "nat \<Rightarrow> system" where
  "sample_run i = sample_states ! min i 11"

definition sample_event :: "nat \<Rightarrow> event option" where
  "sample_event i = (if i < 11 then Some (sample_events ! i) else None)"

lemma sample_steps:
  "adm_step (sample_state n 0 0 False) (Acquire 9 Granted) (sample_state (Suc n) 0 0 False)" if "n < 4"
  using that step_acquire [of "sample_state n 0 0 False" 0 0 _ 9]
  by (simp add: sample_state_def passage_defs)

lemma sample_wait:
  "adm_step (sample_state 4 0 0 False) (Acquire 9 Waiting) (sample_state 4 1 0 False)"
  using step_acquire [of "sample_state 4 0 0 False" 0 0 _ 9] by (simp add: sample_state_def passage_defs)

lemma sample_stop: "adm_step (sample_state 4 1 0 False) Stop (sample_state 4 1 1 True)"
  using step_stop [of "sample_state 4 1 0 False"] by (simp add: sample_state_def signal_defs)

lemma sample_notified:
  "adm_step (sample_state 4 1 1 True) (Notified 9 (Refused FDB_CLOSED)) (sample_state 4 0 0 True)"
  using step_notified [of "sample_state 4 1 1 True" 0 0 9] by (simp add: sample_state_def passage_defs)

lemma sample_release:
  "adm_step (sample_state (Suc n) 0 0 True) Release (sample_state n 0 0 True)"
  using step_release [of "sample_state (Suc n) 0 0 True"] by (simp add: sample_state_def signal_defs)

lemma sample_is_run: "is_run sample_run sample_event"
proof -
  have "adm_step (sample_run i) (sample_events ! i) (sample_run (Suc i))" if "i < 11" for i
  proof -
    have "i \<in> {0, 1, 2, 3, 4, 5, 6, 7, 8, 9, 10}"
      using that by (simp only: insert_iff empty_iff) presburger
    then show ?thesis
      using sample_steps [of 0] sample_steps [of 1] sample_steps [of 2] sample_steps [of 3] sample_wait
        sample_stop sample_notified sample_release [of 3] sample_release [of 2] sample_release [of 1]
        sample_release [of 0]
      by (auto simp: sample_run_def sample_states_def sample_events_def numeral_eq_Suc)
  qed
  then show ?thesis
    by (auto simp: is_run_def sample_event_def sample_run_def)
      (simp add: sample_states_def sample_state_def initial_def)
qed

lemma sample_fair: "fair sample_run sample_event"
proof -
  have "sample_run j = sample_state 0 0 0 True" if "11 \<le> j" for j
    using that by (simp add: sample_run_def sample_states_def)
  then have "sy_notified (sample_run (i + 11)) = {#} \<and> sy_permits (sample_run (i + 11)) = 0" for i
    by (simp add: sample_state_def)
  then show ?thesis unfolding fair_def by (metis le_add1 less_irrefl)
qed

theorem shutdown_completes_witness:
  "sy_waiting (sample_run 5) = {#9#} \<and> sample_event 5 = Some Stop \<and>
   (\<exists>n. \<forall>i \<ge> n. sy_waiting (sample_run i) = {#} \<and> sy_permits (sample_run i) = 0)"
proof -
  have stop: "sample_event 5 = Some Stop" by (simp add: sample_event_def sample_events_def)
  show ?thesis using shutdown_completes [OF sample_is_run sample_fair stop] stop
    by (simp add: sample_run_def sample_states_def sample_state_def)
qed

end
