(* ===== verification/Vectors.thy ===== *)
theory Vectors
  imports Parser_State
begin

text \<open>
  The error type of the frontend (\<open>fastdb/frontend/src/lib.rs\<close>) and the checks of vector
  representations (\<open>fastdb/frontend/src/vectors.rs\<close>): \<open>dimensions\<close>, which decides whether bytes are
  a valid dense 32-bit, dense 64-bit, sparse, 8-bit or 1-bit vector, and the constructors
  \<open>vector32\<close>, \<open>vector64\<close> and \<open>vector32_sparse_entries\<close> that write them. An \<open>f32\<close> or \<open>f64\<close> is
  its bit pattern. The conversions of the engine are not modelled.
\<close>

section \<open>Errors\<close>

datatype limbo_error =
    Interrupt | Busy | BusySnapshot | WriteWriteConflict | CommitDependencyAborted
  | Constraint string | ForeignKeyConstraint string | Raise string | ExtensionError string
  | TxError string | OtherLimbo string

datatype ferror =
    Syntax syntax_error
  | Engine limbo_error
  | Encoding string
  | Validation string
  | NotFound string
  | AlreadyExists string
  | Unsupported string
  | Parameter string
  | Storage string
  | Limit string
  | Cardinality nat
  | Migration int nat ferror
  | Rollback string string

fun error_code :: "ferror \<Rightarrow> string" where
  "error_code (Syntax e) = ''FDB_SYNTAX''"
| "error_code (Engine e) =
     (case e of
        Interrupt \<Rightarrow> ''FDB_CANCELLED''
      | Busy \<Rightarrow> ''FDB_BUSY''
      | BusySnapshot \<Rightarrow> ''FDB_BUSY_SNAPSHOT''
      | WriteWriteConflict \<Rightarrow> ''FDB_WRITE_CONFLICT''
      | CommitDependencyAborted \<Rightarrow> ''FDB_WRITE_CONFLICT''
      | Constraint m \<Rightarrow> ''FDB_CONSTRAINT''
      | ForeignKeyConstraint m \<Rightarrow> ''FDB_CONSTRAINT''
      | Raise m \<Rightarrow> ''FDB_CONSTRAINT''
      | ExtensionError m \<Rightarrow>
          (if starts_with ''__fastdb_udf_limit:'' m then ''FDB_LIMIT''
           else if starts_with ''__fastdb_udf_cancelled:'' m then ''FDB_CANCELLED''
           else if starts_with ''__fastdb_udf_validation:'' m then ''FDB_VALIDATION''
           else ''FDB_ENGINE'')
      | TxError m \<Rightarrow> ''FDB_ENGINE''
      | OtherLimbo m \<Rightarrow> ''FDB_ENGINE'')"
| "error_code (Encoding m) = ''FDB_STORAGE''"
| "error_code (Storage m) = ''FDB_STORAGE''"
| "error_code (Validation m) = ''FDB_VALIDATION''"
| "error_code (NotFound m) = ''FDB_NOT_FOUND''"
| "error_code (AlreadyExists m) = ''FDB_ALREADY_EXISTS''"
| "error_code (Unsupported m) = ''FDB_UNSUPPORTED''"
| "error_code (Parameter m) = ''FDB_PARAMETER''"
| "error_code (Limit m) = ''FDB_LIMIT''"
| "error_code (Cardinality n) = ''FDB_CARDINALITY''"
| "error_code (Migration version at source) =
     (if error_code source = ''FDB_CANCELLED'' then ''FDB_CANCELLED'' else ''FDB_MIGRATION'')"
| "error_code (Rollback cause rollback) = ''FDB_ROLLBACK''"

section \<open>Little-endian numbers and floats\<close>

fun le_value :: "string \<Rightarrow> nat" where
  "le_value [] = 0"
| "le_value (c # cs) = byte c + 256 * le_value cs"

fun to_le :: "nat \<Rightarrow> nat \<Rightarrow> string" where
  "to_le 0 n = []"
| "to_le (Suc k) n = char_of (n mod 256) # to_le k (n div 256)"

function chunks_exact :: "nat \<Rightarrow> 'a list \<Rightarrow> 'a list list" where
  "chunks_exact k xs =
     (if k = 0 \<or> length xs < k then [] else take k xs # chunks_exact k (drop k xs))"
  by pat_completeness auto
termination
  by (relation "measure (\<lambda>(k, xs). length xs)") auto

declare chunks_exact.simps [simp del]

definition f32_infinity :: nat where "f32_infinity = 255 * 2 ^ 23"

definition f32_magnitude :: "nat \<Rightarrow> nat" where
  "f32_magnitude bits = bits mod 2 ^ 31"

definition f32_finite :: "nat \<Rightarrow> bool" where
  "f32_finite bits \<longleftrightarrow> f32_magnitude bits < f32_infinity"

definition f64_finite :: "nat \<Rightarrow> bool" where
  "f64_finite bits \<longleftrightarrow> bits mod 2 ^ 63 < 2047 * 2 ^ 52"

text \<open>A finite \<open>f32\<close> as a multiple of \<open>2 ^ -149\<close>, the smallest positive one.\<close>

definition f32_units :: "nat \<Rightarrow> int" where
  "f32_units bits =
     (let e = f32_magnitude bits div 2 ^ 23; m = bits mod 2 ^ 23;
          u = (if e = 0 then m else (2 ^ 23 + m) * 2 ^ (e - 1))
      in if 2 ^ 31 \<le> bits then - int u else int u)"

text \<open>
  The bits of the \<open>f32\<close> nearest to \<open>u * 2 ^ -149\<close>, ties to even: \<open>s\<close> low bits are dropped, and a
  carry out of the rounding moves to the next exponent.
\<close>

definition round_f32 :: "int \<Rightarrow> nat" where
  "round_f32 u =
     (let n = nat \<bar>u\<bar>;
          s = bit_length n - 24;
          q = n div 2 ^ s;
          r = n mod 2 ^ s;
          q' = (if 2 ^ s < 2 * r \<or> 2 * r = 2 ^ s \<and> odd q \<and> 0 < s then q + 1 else q)
      in (if u < 0 then 2 ^ 31 else 0) + min f32_infinity (s * 2 ^ 23 + q'))"

text \<open>\<open>(alpha * q as f32 + shift).is_finite()\<close>, each operation rounded.\<close>

definition scaled_finite :: "nat \<Rightarrow> nat \<Rightarrow> nat \<Rightarrow> bool" where
  "scaled_finite alpha shift q =
     (let p = round_f32 (f32_units alpha * int q)
      in f32_finite p \<and> f32_finite (round_f32 (f32_units p + f32_units shift)))"

section \<open>Representations\<close>

definition vector_invalid :: ferror where
  "vector_invalid = Validation ''invalid vector representation''"

definition not_finite :: ferror where
  "not_finite = Validation ''vector components must be finite''"

definition check_dims :: "nat \<Rightarrow> ferror + nat" where
  "check_dims dims =
     (if dims = 0 then Inl vector_invalid
      else if 65536 < dims then Inl (Limit ''vector dimensions exceed 65536'')
      else Inr dims)"

definition finite32 :: "string \<Rightarrow> ferror + unit" where
  "finite32 bytes =
     (if list_all (\<lambda>c. f32_finite (le_value c)) (chunks_exact 4 bytes) then Inr ()
      else Inl not_finite)"

definition finite64 :: "string \<Rightarrow> ferror + unit" where
  "finite64 bytes =
     (if list_all (\<lambda>c. f64_finite (le_value c)) (chunks_exact 8 bytes) then Inr ()
      else Inl not_finite)"

definition dense_dimensions :: "nat \<Rightarrow> string \<Rightarrow> ferror + nat" where
  "dense_dimensions kind data =
     (let width = (if kind = 1 then 4 else 8)
      in if length data mod width \<noteq> 0 then Inl vector_invalid
         else rbind (check_dims (length data div width)) (\<lambda>dims.
           rbind (if kind = 1 then finite32 data else finite64 data) (\<lambda>_. Inr dims)))"

text \<open>The indices of a sparse vector are below the dimension and strictly increasing.\<close>

fun sparse_indices :: "nat \<Rightarrow> nat option \<Rightarrow> nat list \<Rightarrow> bool" where
  "sparse_indices dims previous [] \<longleftrightarrow> True"
| "sparse_indices dims previous (i # is) \<longleftrightarrow>
     \<not> (dims \<le> i \<or> (case previous of None \<Rightarrow> False | Some p \<Rightarrow> i \<le> p)) \<and>
     sparse_indices dims (Some i) is"

definition sparse_dimensions :: "string \<Rightarrow> ferror + nat" where
  "sparse_dimensions data =
     (if length data < 4 \<or> (length data - 4) mod 8 \<noteq> 0 then Inl vector_invalid
      else
        let stop = length data - 4
        in rbind (check_dims (le_value (drop stop data))) (\<lambda>dims.
             let count = stop div 8
             in if dims < count then Inl vector_invalid
                else rbind (finite32 (take (count * 4) data)) (\<lambda>_.
                  if sparse_indices dims None
                       (map le_value (chunks_exact 4 (subslice data (count * 4) stop)))
                  then Inr dims else Inl vector_invalid)))"

definition bit_dimensions :: "string \<Rightarrow> ferror + nat" where
  "bit_dimensions data =
     (if length data < 2 then Inl vector_invalid
      else
        let trailing = byte (last data); bits = length data * 8
        in if usize_max < bits \<or> bits < trailing then Inl vector_invalid
           else rbind (check_dims (bits - trailing)) (\<lambda>dims.
             let size = (dims + 7) div 8; padding = (if even size then 1 else 0)
             in if size + padding + 1 \<noteq> length data \<or>
                   list_ex (\<lambda>b. byte b \<noteq> 0) (subslice data size (size + padding))
                then Inl vector_invalid
                else if dims mod 8 \<noteq> 0 \<and> byte (data ! (size - 1)) div 2 ^ (dims mod 8) \<noteq> 0
                then Inl vector_invalid
                else Inr dims))"

definition quantized_dimensions :: "string \<Rightarrow> ferror + nat" where
  "quantized_dimensions data =
     (if length data < 14 then Inl vector_invalid
      else
        let aligned = length data - 10; trailing = byte (data ! (length data - 1))
        in if aligned mod 4 \<noteq> 0 \<or> 3 < trailing \<or> byte (data ! (length data - 2)) \<noteq> 0 \<or>
              aligned < trailing
           then Inl vector_invalid
           else rbind (check_dims (aligned - trailing)) (\<lambda>dims.
             if list_ex (\<lambda>b. byte b \<noteq> 0) (subslice data dims aligned) then Inl vector_invalid
             else
               let alpha = le_value (subslice data aligned (aligned + 4));
                   shift = le_value (subslice data (aligned + 4) (aligned + 8))
               in if \<not> f32_finite alpha \<or> \<not> f32_finite shift \<or>
                     list_ex (\<lambda>q. \<not> scaled_finite alpha shift (byte q)) (take dims data)
                  then Inl not_finite
                  else Inr dims))"

definition dimensions :: "string \<Rightarrow> ferror + nat" where
  "dimensions bytes =
     (let dense = even (length bytes);
          data = (if dense then bytes else butlast bytes);
          kind = (if dense then 1 else byte (last bytes))
      in if kind = 1 \<or> kind = 2 then dense_dimensions kind data
         else if kind = 9 then sparse_dimensions data
         else if kind = 3 then bit_dimensions data
         else if kind = 4 then quantized_dimensions data
         else Inl (Unsupported ''unknown vector representation''))"

definition validate_dimension :: "nat \<Rightarrow> ferror + unit" where
  "validate_dimension dims =
     (if 1 \<le> dims \<and> dims \<le> 65536 then Inr ()
      else Inl (Validation ''vector field dimensions must be 1..65536''))"

section \<open>Constructors\<close>

definition checked_vector :: "string \<Rightarrow> ferror + string" where
  "checked_vector bytes = rbind (dimensions bytes) (\<lambda>_. Inr bytes)"

definition vector32 :: "nat list \<Rightarrow> ferror + string" where
  "vector32 values =
     rbind (check_dims (length values)) (\<lambda>_. checked_vector (concat (map (to_le 4) values)))"

definition vector64 :: "nat list \<Rightarrow> ferror + string" where
  "vector64 values =
     rbind (check_dims (length values)) (\<lambda>_.
       checked_vector (concat (map (to_le 8) values) @ [char_of (2 :: nat)]))"

fun sparse_entries :: "nat \<Rightarrow> nat option \<Rightarrow> (nat \<times> nat) list \<Rightarrow> ferror + unit" where
  "sparse_entries dims previous [] = Inr ()"
| "sparse_entries dims previous ((i, v) # es) =
     (if dims \<le> i \<or> (case previous of None \<Rightarrow> False | Some p \<Rightarrow> i \<le> p) then Inl vector_invalid
      else if \<not> f32_finite v then Inl not_finite
      else sparse_entries dims (Some i) es)"

definition vector32_sparse_entries :: "nat \<Rightarrow> (nat \<times> nat) list \<Rightarrow> ferror + string" where
  "vector32_sparse_entries dims entries =
     rbind (check_dims dims) (\<lambda>_.
       if dims < length entries then Inl vector_invalid
       else rbind (sparse_entries dims None entries) (\<lambda>_.
         let kept = filter (\<lambda>e. f32_magnitude (snd e) \<noteq> 0) entries
         in checked_vector
              (concat (map (\<lambda>e. to_le 4 (snd e)) kept) @
               concat (map (\<lambda>e. to_le 4 (fst e mod 2 ^ 32)) kept) @
               to_le 4 (dims mod 2 ^ 32) @ [char_of (9 :: nat)])))"

section \<open>Writing and reading bytes\<close>

lemma length_to_le [simp]: "length (to_le k n) = k"
  by (induction k arbitrary: n) auto

lemma le_value_to_le: "le_value (to_le k n) = n mod 256 ^ k"
  by (induction k arbitrary: n) (simp_all add: mod_mult2_eq)

lemma chunks_exact_short: "length xs < k \<Longrightarrow> chunks_exact k xs = []"
  by (subst chunks_exact.simps) simp

lemma chunks_exact_append:
  "0 < k \<Longrightarrow> length xs = k \<Longrightarrow> chunks_exact k (xs @ ys) = xs # chunks_exact k ys"
  by (subst chunks_exact.simps) simp

lemma chunks_exact_concat:
  "0 < k \<Longrightarrow> (\<And>x. x \<in> set xs \<Longrightarrow> length (f x) = k) \<Longrightarrow>
   chunks_exact k (concat (map f xs)) = map f xs"
  by (induction xs) (simp_all add: chunks_exact_short chunks_exact_append)

lemma length_concat_const:
  "(\<And>x. x \<in> set xs \<Longrightarrow> length (f x) = k) \<Longrightarrow> length (concat (map f xs)) = k * length xs"
  by (induction xs) auto

lemma check_dims_Inr [simp]: "check_dims n = Inr m \<longleftrightarrow> m = n \<and> 1 \<le> n \<and> n \<le> 65536"
  by (auto simp: check_dims_def)

lemma check_dims_Inl: "check_dims n = Inl e \<Longrightarrow> n = 0 \<or> 65536 < n"
  by (auto simp: check_dims_def split: if_splits)

lemmas dimension_defs = dense_dimensions_def sparse_dimensions_def bit_dimensions_def
  quantized_dimensions_def

lemma dimensions_range: "dimensions b = Inr d \<Longrightarrow> 1 \<le> d \<and> d \<le> 65536"
  by (auto simp: dimensions_def dimension_defs Let_def split: if_splits)

section \<open>Dense vectors\<close>

lemma finite32_concat:
  assumes "\<forall>v \<in> set vs. v < 2 ^ 32"
  shows "finite32 (concat (map (to_le 4) vs)) =
    (if list_all f32_finite vs then Inr () else Inl not_finite)"
proof -
  have "chunks_exact 4 (concat (map (to_le 4) vs)) = map (to_le 4) vs"
    by (rule chunks_exact_concat) simp_all
  then show ?thesis
    using assms by (auto simp: finite32_def list_all_iff le_value_to_le)
qed

lemma finite64_concat:
  assumes "\<forall>v \<in> set vs. v < 2 ^ 64"
  shows "finite64 (concat (map (to_le 8) vs)) =
    (if list_all f64_finite vs then Inr () else Inl not_finite)"
proof -
  have "chunks_exact 8 (concat (map (to_le 8) vs)) = map (to_le 8) vs"
    by (rule chunks_exact_concat) simp_all
  then show ?thesis
    using assms by (auto simp: finite64_def list_all_iff le_value_to_le)
qed

lemma dimensions_dense32:
  assumes "\<forall>v \<in> set vs. v < 2 ^ 32"
  shows "dimensions (concat (map (to_le 4) vs)) =
    rbind (check_dims (length vs)) (\<lambda>n. if list_all f32_finite vs then Inr n else Inl not_finite)"
proof -
  have len: "length (concat (map (to_le 4) vs)) = 4 * length vs"
    by (rule length_concat_const) simp
  show ?thesis
    unfolding dimensions_def dense_dimensions_def Let_def
    using finite32_concat [OF assms] len by (cases "check_dims (length vs)") simp_all
qed

lemma dimensions_dense64:
  assumes "\<forall>v \<in> set vs. v < 2 ^ 64"
  shows "dimensions (concat (map (to_le 8) vs) @ [char_of (2 :: nat)]) =
    rbind (check_dims (length vs)) (\<lambda>n. if list_all f64_finite vs then Inr n else Inl not_finite)"
proof -
  have len: "length (concat (map (to_le 8) vs)) = 8 * length vs"
    by (rule length_concat_const) simp
  show ?thesis
    unfolding dimensions_def dense_dimensions_def Let_def
    using finite64_concat [OF assms] len by (cases "check_dims (length vs)") simp_all
qed

section \<open>Sparse vectors\<close>

lemma sparse_entries_Inr:
  "sparse_entries dims p es = Inr () \<longleftrightarrow>
   sparse_indices dims p (map fst es) \<and> list_all (\<lambda>e. f32_finite (snd e)) es"
  by (induction dims p es rule: sparse_entries.induct) auto

lemma sparse_indices_weaken:
  "sparse_indices dims (Some q) is \<Longrightarrow> (\<And>p'. p = Some p' \<Longrightarrow> p' \<le> q) \<Longrightarrow> sparse_indices dims p is"
  by (cases "is") (auto split: option.splits)

lemma sparse_indices_filter:
  "sparse_indices dims p (map fst es) \<Longrightarrow> sparse_indices dims p (map fst (filter P es))"
proof (induction es arbitrary: p)
  case (Cons e es)
  then have "sparse_indices dims (Some (fst e)) (map fst (filter P es))" by auto
  moreover have "p' \<le> fst e" if "p = Some p'" for p' using Cons.prems that by simp
  ultimately show ?case using Cons.prems sparse_indices_weaken [of dims "fst e" _ p] by auto
qed simp

lemma sparse_indices_less: "sparse_indices dims p is \<Longrightarrow> i \<in> set is \<Longrightarrow> i < dims"
  by (induction "is" arbitrary: p) auto

lemma sparse_indices_sorted:
  "sparse_indices dims p is \<longleftrightarrow>
   (\<forall>i \<in> set is. i < dims \<and> (case p of None \<Rightarrow> True | Some q \<Rightarrow> q < i)) \<and> sorted_wrt (<) is"
  by (induction "is" arbitrary: p) (fastforce split: option.splits)+

lemma sparse_indices_length: "sparse_indices dims p is \<Longrightarrow> length is \<le> dims"
proof -
  assume si: "sparse_indices dims p is"
  then have "distinct is" "set is \<subseteq> {..<dims}"
    by (auto simp: sparse_indices_sorted strict_sorted_iff)
  then show ?thesis using card_mono [of "{..<dims}" "set is"] by (simp add: distinct_card)
qed

definition sparse_bytes :: "nat \<Rightarrow> (nat \<times> nat) list \<Rightarrow> string" where
  "sparse_bytes dims es =
     concat (map (\<lambda>e. to_le 4 (snd e)) es) @ concat (map (\<lambda>e. to_le 4 (fst e mod 2 ^ 32)) es) @
     to_le 4 (dims mod 2 ^ 32) @ [char_of (9 :: nat)]"

lemma sparse_bytes_parts:
  fixes dims es
  defines "vals \<equiv> concat (map (\<lambda>e. to_le 4 (snd e)) es)"
    and "idx \<equiv> concat (map (\<lambda>e. to_le 4 (fst e mod 2 ^ 32)) es)"
  shows "length vals = 4 * length es" and "length idx = 4 * length es"
    and "butlast (sparse_bytes dims es) = vals @ idx @ to_le 4 (dims mod 2 ^ 32)"
    and "odd (length (sparse_bytes dims es))" and "last (sparse_bytes dims es) = char_of (9 :: nat)"
proof -
  show len: "length vals = 4 * length es" "length idx = 4 * length es"
    unfolding vals_def idx_def by (rule length_concat_const; simp)+
  show "butlast (sparse_bytes dims es) = vals @ idx @ to_le 4 (dims mod 2 ^ 32)"
    "last (sparse_bytes dims es) = char_of (9 :: nat)"
    by (simp_all add: sparse_bytes_def vals_def idx_def butlast_append)
  show "odd (length (sparse_bytes dims es))"
    using len by (simp add: sparse_bytes_def vals_def idx_def)
qed

lemma dimensions_sparse:
  assumes dims: "1 \<le> dims" "dims \<le> 65536" and es: "sparse_indices dims None (map fst es)"
    and fin: "list_all (\<lambda>e. f32_finite (snd e)) es" and small: "\<forall>e \<in> set es. snd e < 2 ^ 32"
  shows "dimensions (sparse_bytes dims es) = Inr dims"
proof -
  let ?n = "length es"
  let ?vals = "concat (map (\<lambda>e. to_le 4 (snd e)) es)"
  let ?idx = "concat (map (\<lambda>e. to_le 4 (fst e mod 2 ^ 32)) es)"
  let ?data = "?vals @ ?idx @ to_le 4 (dims mod 2 ^ 32)"
  note parts = sparse_bytes_parts(1,2) [of es] sparse_bytes_parts(3-5) [of dims es]
  have len: "length ?data = 8 * ?n + 4" using parts(1,2) by simp
  have tail: "drop (8 * ?n) ?data = to_le 4 (dims mod 2 ^ 32)" using parts(1,2) by simp
  have head: "take (4 * ?n) ?data = ?vals" using parts(1) by simp
  have mid: "subslice ?data (4 * ?n) (8 * ?n) = ?idx" using parts(1,2) by (simp add: subslice_def)
  have d: "le_value (to_le 4 (dims mod 2 ^ 32)) = dims" using dims by (simp add: le_value_to_le)
  have "?vals = concat (map (to_le 4) (map snd es))" by (simp add: comp_def)
  then have f: "finite32 ?vals = Inr ()"
    using finite32_concat [of "map snd es"] small fin by (simp add: list_all_iff)
  have "chunks_exact 4 ?idx = map (\<lambda>e. to_le 4 (fst e mod 2 ^ 32)) es"
    by (rule chunks_exact_concat) simp_all
  moreover have "fst e mod 2 ^ 32 = fst e" if "e \<in> set es" for e
    using sparse_indices_less [OF es, of "fst e"] that dims(2) by simp
  ultimately have i: "map le_value (chunks_exact 4 ?idx) = map fst es"
    by (simp add: le_value_to_le)
  have n: "\<not> dims < ?n" using sparse_indices_length [OF es] by simp
  have "sparse_dimensions ?data = Inr dims"
    unfolding sparse_dimensions_def len Let_def
    using tail d dims n head f mid i es by (simp add: mult.commute)
  then show ?thesis
    using parts(3-5) by (simp add: dimensions_def Let_def)
qed

section \<open>Properties\<close>

text \<open>C30: dense vectors round-trip. \<open>vector32\<close> and \<open>vector64\<close> accept exactly the lists of 1 to 65536 finite
components; the bytes they write have that many dimensions under \<open>dimensions\<close> and read back, component
by component, as the input bits.\<close>

theorem dense_vector_roundtrip:
  assumes "\<forall>v \<in> set vs. v < 2 ^ 32" and "\<forall>w \<in> set ws. w < 2 ^ 64"
  shows "((\<exists>b. vector32 vs = Inr b) \<longleftrightarrow> 1 \<le> length vs \<and> length vs \<le> 65536 \<and> list_all f32_finite vs) \<and>
    (\<forall>b. vector32 vs = Inr b \<longrightarrow>
      dimensions b = Inr (length vs) \<and> map le_value (chunks_exact 4 b) = vs) \<and>
    ((\<exists>b. vector64 ws = Inr b) \<longleftrightarrow> 1 \<le> length ws \<and> length ws \<le> 65536 \<and> list_all f64_finite ws) \<and>
    (\<forall>b. vector64 ws = Inr b \<longrightarrow>
      dimensions b = Inr (length ws) \<and> map le_value (chunks_exact 8 (butlast b)) = ws)"
proof -
  have c4: "map le_value (chunks_exact 4 (concat (map (to_le 4) vs))) = vs"
    using assms(1) by (subst chunks_exact_concat) (simp_all add: le_value_to_le map_idI)
  have c8: "map le_value (chunks_exact 8 (concat (map (to_le 8) ws))) = ws"
    using assms(2) by (subst chunks_exact_concat) (simp_all add: le_value_to_le map_idI)
  show ?thesis
    unfolding vector32_def vector64_def checked_vector_def
      dimensions_dense32 [OF assms(1)] dimensions_dense64 [OF assms(2)]
    using c4 c8 dimensions_dense32 [OF assms(1)] dimensions_dense64 [OF assms(2)]
    by (auto split: if_splits)
qed

theorem dense_vector_roundtrip_witness:
  "\<exists>b. vector32 [0x3F800000, 0xBF800000] = Inr b \<and> dimensions b = Inr 2 \<and>
     map le_value (chunks_exact 4 b) = [0x3F800000, 0xBF800000]"
  using dense_vector_roundtrip [of "[0x3F800000, 0xBF800000]" "[]"]
  by (force simp: f32_finite_def f32_magnitude_def f32_infinity_def)

text \<open>C31: sparse vectors. \<open>vector32_sparse_entries\<close> accepts exactly a dimension from 1 to 65536 with finite
entries at strictly increasing indices below it, and what it writes is a valid representation of that
dimension.\<close>

theorem sparse_vector_accepts:
  assumes "\<forall>e \<in> set es. snd e < 2 ^ 32"
  shows "((\<exists>b. vector32_sparse_entries dims es = Inr b) \<longleftrightarrow>
      1 \<le> dims \<and> dims \<le> 65536 \<and> sorted_wrt (<) (map fst es) \<and>
      list_all (\<lambda>e. fst e < dims \<and> f32_finite (snd e)) es) \<and>
    (\<forall>b. vector32_sparse_entries dims es = Inr b \<longrightarrow> dimensions b = Inr dims)"
proof -
  let ?kept = "filter (\<lambda>e. f32_magnitude (snd e) \<noteq> 0) es"
  have ok: "dimensions (sparse_bytes dims ?kept) = Inr dims"
    if "1 \<le> dims" "dims \<le> 65536" "sparse_entries dims None es = Inr ()"
    using that assms dimensions_sparse [of dims ?kept]
    by (auto simp: sparse_entries_Inr sparse_indices_filter list_all_iff)
  have si: "sparse_indices dims None (map fst es) \<longleftrightarrow>
      (\<forall>e \<in> set es. fst e < dims) \<and> sorted_wrt (<) (map fst es)"
    by (auto simp: sparse_indices_sorted)
  have len: "\<not> dims < length es" if "sparse_entries dims None es = Inr ()"
    using that sparse_indices_length [of dims None "map fst es"] by (auto simp: sparse_entries_Inr)
  have "vector32_sparse_entries dims es = Inr b \<longleftrightarrow>
      1 \<le> dims \<and> dims \<le> 65536 \<and> sparse_entries dims None es = Inr () \<and> b = sparse_bytes dims ?kept" for b
    unfolding vector32_sparse_entries_def checked_vector_def Let_def sparse_bytes_def [symmetric]
    using ok len by auto
  then show ?thesis
    using ok by (auto simp: sparse_entries_Inr si list_all_iff)
qed

theorem sparse_vector_accepts_witness:
  "\<exists>b. vector32_sparse_entries 100 [(3, 0x3F800000), (7, 0), (99, 0x40000000)] = Inr b \<and>
     dimensions b = Inr 100"
  using sparse_vector_accepts [of "[(3, 0x3F800000), (7, 0), (99, 0x40000000)]" 100]
  by (force simp: f32_finite_def f32_magnitude_def f32_infinity_def)

end
