(* ===== verification/Values.thy ===== *)
theory Values
  imports Vectors
begin

text \<open>
  Logical values, \<open>fastdb/frontend/src/value.rs\<close>, with the name rules they rely on (\<open>canonical\<close> of
  \<open>lib.rs\<close>, \<open>reserved_name\<close> of \<open>guard.rs\<close>), the equality of \<open>collections.rs\<close>, and the access to
  members by path of \<open>lib.rs\<close>. A \<open>Document\<close> is the sorted entry list of its \<open>BTreeMap\<close>; an \<open>i64\<close> is
  an integer, an \<open>f64\<close> its bit pattern. The properties: \<open>validate\<close> accepts exactly the values nested at
  most 64 deep whose leaves are valid, and \<open>record_from_text\<close> reads exactly valid references.
\<close>

section \<open>Values\<close>

datatype val =
    Null
  | Boolean bool
  | Integer int
  | Number "64 word"
  | String string
  | Binary string
  | Record record_ref
  | Object "(string \<times> val) list"
  | Array "val list"
  | Vector string

type_synonym document = "(string, val) btree_map"

lemma size_member [termination_simp]: "f \<in> set fs \<Longrightarrow> size (snd f) < Suc (size_list (size_prod (\<lambda>_. 0) size) fs)"
  by (induction fs) (auto split: prod.splits)

lemma size_object: "f \<in> set fs \<Longrightarrow> size (snd f) < size (Object fs)"
  using size_member [of f fs] by simp

lemma size_array: "v \<in> set vs \<Longrightarrow> size v < size (Array vs)"
  by (simp add: size_list_estimation less_Suc_eq_le size_list_estimation')

section \<open>Names\<close>

definition reserved_name :: "string \<Rightarrow> bool" where
  "reserved_name s =
     (let n = to_ascii_lowercase s
      in starts_with ''__fastdb_'' n \<or> starts_with ''__turso_internal_'' n)"

definition canonical :: "string \<Rightarrow> ferror + string" where
  "canonical s =
     (if s = [] \<or> CHR 0x00 \<in> set s \<or> reserved_name s \<or> starts_with ''sqlite_'' (to_ascii_lowercase s)
      then Inl (Validation ''invalid or reserved name'')
      else Inr (to_ascii_lowercase s))"

definition validate_record :: "record_ref \<Rightarrow> ferror + unit" where
  "validate_record r =
     (if rec_table r = [] \<or> rec_key r = KeyString []
      then Inl (Validation ''record target and string key must be nonempty'')
      else rbind (canonical (rec_table r)) (\<lambda>_. Inr ()))"

section \<open>Validation\<close>

fun validate_at :: "nat \<Rightarrow> val \<Rightarrow> ferror + unit" where
  "validate_at depth v =
     (if 64 < depth then Inl (Limit ''value nesting exceeds 64'')
      else case v of
          Number n \<Rightarrow>
            (if \<not> is_finite n then Inl (Validation ''non-finite number'') else Inr ())
        | Record r \<Rightarrow> validate_record r
        | Vector bytes \<Rightarrow> rbind (dimensions bytes) (\<lambda>_. Inr ())
        | Object fs \<Rightarrow> try_all (\<lambda>f. validate_at (depth + 1) (snd f)) fs
        | Array vs \<Rightarrow> try_all (validate_at (depth + 1)) vs
        | _ \<Rightarrow> Inr ())"

declare validate_at.simps [simp del]

definition validate :: "val \<Rightarrow> ferror + unit" where
  "validate v = validate_at 0 v"

definition validate_document_value :: "document \<Rightarrow> ferror + unit" where
  "validate_document_value d = try_all (\<lambda>f. validate_at 1 (snd f)) d"

section \<open>Record references as text\<close>

text \<open>\<open>str::replace\<close>: matches from the left, without overlap.\<close>

function replace_all :: "string \<Rightarrow> string \<Rightarrow> string \<Rightarrow> string" where
  "replace_all pat new s =
     (if s = [] \<or> pat = [] then s
      else if starts_with pat s then new @ replace_all pat new (drop (length pat) s)
      else hd s # replace_all pat new (tl s))"
  by pat_completeness auto
termination
  by (relation "measure (\<lambda>(pat, new, s). length s)") auto

declare replace_all.simps [simp del]

text \<open>\<open>char::is_control\<close> on UTF-8: the C0 controls, DEL, and U+0080 to U+009F as two bytes.\<close>

fun has_control :: "string \<Rightarrow> bool" where
  "has_control [] \<longleftrightarrow> False"
| "has_control (c # cs) \<longleftrightarrow>
     byte c < 0x20 \<or> byte c = 0x7F \<or>
     byte c = 0xC2 \<and> cs \<noteq> [] \<and> 0x80 \<le> byte (hd cs) \<and> byte (hd cs) \<le> 0x9F \<or> has_control cs"

definition text_key :: "string \<Rightarrow> key option" where
  "text_key k =
     (let digits = (if starts_with ''-'' k then tl k else k)
      in if 2 \<le> length k \<and> hd k = CHR ''`'' \<and> last k = CHR ''`''
         then let quoted = butlast (tl k)
              in if CHR ''`'' \<in> set (replace_all ''``'' '''' quoted) then None
                 else Some (KeyString (replace_all ''``'' ''`'' quoted))
         else if digits \<noteq> [] \<and> list_all is_ascii_digit digits
         then map_option KeyInteger (parse_i64 k)
         else if trim k \<noteq> k \<or> has_control k then None
         else Some (KeyString k))"

definition record_from_text :: "string \<Rightarrow> record_ref option" where
  "record_from_text s =
     (if CHR '':'' \<notin> set s then None
      else
        let table = takeWhile (\<lambda>c. c \<noteq> CHR '':'') s; k = tl (dropWhile (\<lambda>c. c \<noteq> CHR '':'') s)
        in if table = [] \<or> \<not> (is_ascii_alphabetic (hd table) \<or> hd table = CHR ''_'') \<or>
              \<not> list_all (\<lambda>c. is_ascii_alphanumeric c \<or> c = CHR ''_'') table
           then None
           else case text_key k of
                  None \<Rightarrow> None
                | Some key \<Rightarrow>
                    let r = \<lparr>rec_table = to_ascii_lowercase table, rec_key = key\<rparr>
                    in if validate_record r = Inr () then Some r else None)"

section \<open>Identity and members\<close>

definition normalized_id :: "record_ref \<Rightarrow> string \<Rightarrow> ferror + record_ref" where
  "normalized_id r table =
     rbind (validate_record r) (\<lambda>_.
       rbind (canonical (rec_table r)) (\<lambda>t.
         if t \<noteq> table then Inl (Validation ''id targets a different collection'')
         else Inr \<lparr>rec_table = table, rec_key = rec_key r\<rparr>))"

definition validate_path :: "string list \<Rightarrow> ferror + unit" where
  "validate_path parts =
     (if parts = [] \<or> [] \<in> set parts then Inl (Validation ''empty field path'') else Inr ())"

fun path_value :: "document \<Rightarrow> string list \<Rightarrow> ferror + val option" where
  "path_value doc [] = Inl (Validation ''empty field path'')"
| "path_value doc (part # rest) =
     (case bm_get part doc of
        None \<Rightarrow> Inr None
      | Some v \<Rightarrow>
          if rest = [] then Inr (Some v)
          else case v of
              Object fs \<Rightarrow> path_value fs rest
            | _ \<Rightarrow> Inl (Validation (''non-object parent at '' @ part)))"

text \<open>\<open>f64\<close> equality: equal bits or both zeros, and never NaN.\<close>

definition f64_nan :: "64 word \<Rightarrow> bool" where
  "f64_nan w \<longleftrightarrow> f64_exponent w = 2047 \<and> unat w mod 2 ^ 52 \<noteq> 0"

definition f64_eq :: "64 word \<Rightarrow> 64 word \<Rightarrow> bool" where
  "f64_eq a b \<longleftrightarrow>
     \<not> f64_nan a \<and> \<not> f64_nan b \<and> (a = b \<or> unat a mod 2 ^ 63 = 0 \<and> unat b mod 2 ^ 63 = 0)"

definition scalar_eq :: "val \<Rightarrow> val \<Rightarrow> bool" where
  "scalar_eq a b = (case (a, b) of (Number m, Number n) \<Rightarrow> f64_eq m n | _ \<Rightarrow> a = b)"

function (sequential) equal :: "val \<Rightarrow> val \<Rightarrow> bool" where
  "equal (Record l) (Record r) \<longleftrightarrow>
     eq_ignore_ascii_case (rec_table l) (rec_table r) \<and> rec_key l = rec_key r"
| "equal (Object l) (Object r) \<longleftrightarrow>
     length l = length r \<and>
     list_all (\<lambda>f. case bm_get (fst f) r of None \<Rightarrow> False | Some other \<Rightarrow> equal (snd f) other) l"
| "equal (Array l) (Array r) \<longleftrightarrow>
     length l = length r \<and> list_all (\<lambda>p. equal (fst p) (snd p)) (zip l r)"
| "equal a b \<longleftrightarrow> scalar_eq a b"
  by pat_completeness auto
termination
proof (relation "measure (\<lambda>(a, b). size a)", goal_cases)
  case (2 l r f other)
  then show ?case using size_object [of f l] by simp
next
  case (3 l r p)
  then have "fst p \<in> set l" using set_zip_leftD [of "fst p" "snd p" l r] by simp
  then show ?case using size_array [of "fst p" l] by (simp add: case_prod_unfold)
qed simp

section \<open>What validation accepts\<close>

fun nesting :: "val \<Rightarrow> nat" where
  "nesting (Object fs) = max_or_zero (map (\<lambda>f. Suc (nesting (snd f))) fs)"
| "nesting (Array vs) = max_or_zero (map (\<lambda>v. Suc (nesting v)) vs)"
| "nesting v = 0"

fun valid_leaves :: "val \<Rightarrow> bool" where
  "valid_leaves (Number n) \<longleftrightarrow> is_finite n"
| "valid_leaves (Record r) \<longleftrightarrow> validate_record r = Inr ()"
| "valid_leaves (Vector b) \<longleftrightarrow> (\<exists>d. dimensions b = Inr d)"
| "valid_leaves (Object fs) \<longleftrightarrow> (\<forall>f \<in> set fs. valid_leaves (snd f))"
| "valid_leaves (Array vs) \<longleftrightarrow> (\<forall>v \<in> set vs. valid_leaves v)"
| "valid_leaves v \<longleftrightarrow> True"

text \<open>The representation invariant of a value: every map is sorted strictly by key.\<close>

fun wf_val :: "val \<Rightarrow> bool" where
  "wf_val (Object fs) \<longleftrightarrow> bm_wf fs \<and> (\<forall>f \<in> set fs. wf_val (snd f))"
| "wf_val (Array vs) \<longleftrightarrow> (\<forall>v \<in> set vs. wf_val v)"
| "wf_val (Integer i) \<longleftrightarrow> i64_min \<le> i \<and> i \<le> i64_max"
| "wf_val v \<longleftrightarrow> True"

lemma fold_max_le: "fold max xs m \<le> n \<longleftrightarrow> m \<le> n \<and> (\<forall>x \<in> set xs. x \<le> (n :: nat))"
  by (induction xs arbitrary: m) auto

lemma max_or_zero_le: "max_or_zero xs \<le> n \<longleftrightarrow> (\<forall>x \<in> set xs. x \<le> n)"
  by (simp add: max_or_zero_def fold_max_le)

lemma add_max_or_zero_le:
  "d + max_or_zero xs \<le> n \<longleftrightarrow> d \<le> n \<and> (\<forall>x \<in> set xs. d + x \<le> n)"
proof -
  have "d + max_or_zero xs \<le> n \<longleftrightarrow> d \<le> n \<and> max_or_zero xs \<le> n - d" by auto
  also have "\<dots> \<longleftrightarrow> d \<le> n \<and> (\<forall>x \<in> set xs. d + x \<le> n)" by (auto simp: max_or_zero_le)
  finally show ?thesis .
qed

lemma validate_at_iff: "validate_at d v = Inr () \<longleftrightarrow> d + nesting v \<le> 64 \<and> valid_leaves v"
proof (induction v arbitrary: d)
  case (Object fs)
  have IH: "validate_at (d + 1) (snd f) = Inr () \<longleftrightarrow> d + 1 + nesting (snd f) \<le> 64 \<and> valid_leaves (snd f)"
    if "f \<in> set fs" for f
    using Object [of f "snd f"] that by (cases f) (auto simp: snds.simps)
  have "(\<forall>f \<in> set fs. validate_at (d + 1) (snd f) = Inr ()) \<longleftrightarrow>
      (\<forall>f \<in> set fs. d + 1 + nesting (snd f) \<le> 64 \<and> valid_leaves (snd f))"
    using IH by simp
  then show ?case by (subst validate_at.simps) (auto simp: add_max_or_zero_le)
next
  case (Array vs)
  then show ?case by (subst validate_at.simps) (auto simp: add_max_or_zero_le)
qed ((subst validate_at.simps, auto)[1])+

lemma validate_iff: "validate v = Inr () \<longleftrightarrow> nesting v \<le> 64 \<and> valid_leaves v"
  by (simp add: validate_def validate_at_iff)

lemma validate_document: "validate (Object d) = validate_document_value d"
  by (simp add: validate_def validate_document_value_def validate_at.simps [of 0])

section \<open>Reading references\<close>

definition escape_ticks :: "string \<Rightarrow> string" where
  "escape_ticks k = concat (map (\<lambda>c. if c = CHR ''`'' then ''``'' else [c]) k)"

lemma replace_all_Nil [simp]: "replace_all pat new [] = []"
  by (subst replace_all.simps) simp

lemma replace_ticks: "replace_all ''``'' ''`'' (escape_ticks k) = k"
proof (induction k)
  case (Cons c k)
  show ?case
  proof (cases "c = CHR ''`''")
    case True
    then show ?thesis using Cons by (simp add: escape_ticks_def) (subst replace_all.simps, simp add: starts_with_def)
  next
    case False
    then show ?thesis using Cons by (simp add: escape_ticks_def) (subst replace_all.simps, simp add: starts_with_def)
  qed
qed (simp add: escape_ticks_def)

lemma drop_ticks: "CHR ''`'' \<notin> set (replace_all ''``'' [] (escape_ticks k))"
proof (induction k)
  case (Cons c k)
  show ?case
  proof (cases "c = CHR ''`''")
    case True
    then show ?thesis using Cons by (simp add: escape_ticks_def) (subst replace_all.simps, simp add: starts_with_def)
  next
    case False
    then show ?thesis using Cons by (simp add: escape_ticks_def) (subst replace_all.simps, simp add: starts_with_def)
  qed
qed (simp add: escape_ticks_def)

definition key_text :: "key \<Rightarrow> string" where
  "key_text k = (case k of KeyInteger i \<Rightarrow> show_int i | KeyString s \<Rightarrow> ''`'' @ escape_ticks s @ ''`'')"

lemma show_int_no_tick: "hd (show_int i) \<noteq> CHR ''`''"
  using show_nat_digits [of "nat i"] by (cases "show_nat (nat i)") (auto simp: show_int_def is_ascii_digit_def)

lemma text_key_text:
  "(case k of KeyInteger i \<Rightarrow> i64_min \<le> i \<and> i \<le> i64_max | KeyString s \<Rightarrow> True) \<Longrightarrow>
   text_key (key_text k) = Some k"
proof (cases k)
  case (KeyString s)
  then show ?thesis using drop_ticks [of s] replace_ticks [of s]
    by (simp add: key_text_def text_key_def Let_def)
next
  case (KeyInteger i)
  let ?digits = "if starts_with ''-'' (show_int i) then tl (show_int i) else show_int i"
  have digits: "?digits \<noteq> [] \<and> list_all is_ascii_digit ?digits"
  proof (cases "i < 0")
    case False
    obtain c cs where "show_nat (nat i) = c # cs" by (cases "show_nat (nat i)") auto
    then show ?thesis
      using False show_nat_hd [of "nat i"] show_nat_digits [of "nat i"] by (simp add: show_int_def starts_with_def)
  qed (simp add: show_int_def starts_with_def)
  assume "case k of KeyInteger i \<Rightarrow> i64_min \<le> i \<and> i \<le> i64_max | KeyString s \<Rightarrow> True"
  then have "parse_i64 (show_int i) = Some i" using parse_i64_show_int KeyInteger by simp
  then show ?thesis
    using digits show_int_no_tick [of i] KeyInteger by (simp add: text_key_def key_text_def Let_def)
qed

lemma record_from_text_sound:
  "record_from_text s = Some r \<Longrightarrow>
   validate_record r = Inr () \<and> canonical (rec_table r) = Inr (rec_table r)"
proof -
  assume "record_from_text s = Some r"
  then have ok: "validate_record r = Inr ()" and "\<exists>t. rec_table r = to_ascii_lowercase t"
    by (auto simp: record_from_text_def Let_def split: if_splits option.splits)
  then show ?thesis by (auto simp: validate_record_def canonical_def split: if_splits)
qed

section \<open>Equality\<close>

lemma f64_eq_refl: "is_finite w \<Longrightarrow> f64_eq w w"
  by (simp add: f64_eq_def f64_nan_def is_finite_def)

lemma f64_eq_sym: "f64_eq a b \<longleftrightarrow> f64_eq b a"
  by (auto simp: f64_eq_def)

lemma equal_refl: "valid_leaves v \<Longrightarrow> wf_val v \<Longrightarrow> equal v v"
proof (induction v)
  case (Object fs)
  have "equal (snd f) (snd f)" if "f \<in> set fs" for f
    using Object.IH [of f "snd f"] Object.prems that by (auto intro: snds.intros)
  moreover have "bm_get (fst f) fs = Some (snd f)" if "f \<in> set fs" for f
    using bm_get_mem [of fs "fst f" "snd f"] Object.prems that by simp
  ultimately show ?case by (auto simp: list_all_iff)
next
  case (Array vs)
  then show ?case by (auto simp: list_all_iff set_zip)
qed (auto simp: scalar_eq_def f64_eq_refl)

section \<open>Properties\<close>

text \<open>C29: validation is the nesting bound and the leaf checks, no more and no less, and a document is
checked exactly as the object value that holds it.\<close>

theorem validate_exact:
  "(validate v = Inr () \<longleftrightarrow> nesting v \<le> 64 \<and> valid_leaves v) \<and>
   validate_document_value d = validate (Object d)"
  by (simp add: validate_iff validate_document)

text \<open>C32: record references round-trip through their text form. An identifier, a colon and a key (decimal,
or quoted with doubled back-ticks) is read back as the reference with the table in lower case; and
whatever text is read yields a valid reference with a canonical table name.\<close>

theorem record_text_roundtrip:
  assumes "list_all (\<lambda>c. is_ascii_alphanumeric c \<or> c = CHR ''_'') table"
    and "is_ascii_alphabetic (hd table) \<or> hd table = CHR ''_''"
    and "validate_record \<lparr>rec_table = to_ascii_lowercase table, rec_key = k\<rparr> = Inr ()"
    and "case k of KeyInteger i \<Rightarrow> i64_min \<le> i \<and> i \<le> i64_max | KeyString s \<Rightarrow> True"
  shows "record_from_text (table @ '':'' @ key_text k) =
      Some \<lparr>rec_table = to_ascii_lowercase table, rec_key = k\<rparr> \<and>
    (\<forall>s r. record_from_text s = Some r \<longrightarrow>
      validate_record r = Inr () \<and> canonical (rec_table r) = Inr (rec_table r))"
proof -
  have ne: "table \<noteq> []" using assms(3) by (auto simp: validate_record_def to_ascii_lowercase_def)
  have colon: "CHR '':'' \<notin> set table"
    using assms(1) by (auto simp: list_all_iff is_ascii_alphanumeric_def is_ascii_alphabetic_def is_ascii_digit_def)
  have tw: "takeWhile (\<lambda>c. c \<noteq> CHR '':'') (table @ CHR '':'' # key_text k) = table"
    "dropWhile (\<lambda>c. c \<noteq> CHR '':'') (table @ CHR '':'' # key_text k) = CHR '':'' # key_text k"
    using colon by (induction table) auto
  show ?thesis
    using record_from_text_sound text_key_text [OF assms(4)] assms(1-3) ne
    by (auto simp: record_from_text_def tw Let_def)
qed

theorem record_text_roundtrip_witness:
  "record_from_text (''Person'' @ '':'' @ key_text (KeyInteger (-42))) =
   Some \<lparr>rec_table = ''person'', rec_key = KeyInteger (-42)\<rparr>"
proof -
  have "to_ascii_lowercase ''Person'' = ''person''" by code_simp
  then show ?thesis
    using record_text_roundtrip [of "''Person''" "KeyInteger (-42)"]
    by (simp add: is_ascii_alphanumeric_def is_ascii_alphabetic_def validate_record_def canonical_def
        reserved_name_def starts_with_def Let_def i64_min_def i64_max_def to_ascii_lowercase_def)
qed

end
