(* ===== verification/Budgets.thy ===== *)
theory Budgets
  imports Values
begin

text \<open>
  Byte and row budgets: \<open>ResultBudget\<close> (\<open>fastdb/frontend/src/budget.rs\<close>), which bounds query results
  and write buffers, \<open>FetchBudget\<close> (\<open>links.rs\<close>), which counts JSON without allocating it, and the
  counter of \<open>Value::encode_with_limit\<close> (\<open>value.rs\<close>). The three share a contract, the locale \<open>meter\<close>:
  adding succeeds exactly while the sum stays within the cap. Its consequence for sequences of charges
  is proved once and used through the three interpretations.

  \<open>writes v\<close> stands for the buffers that \<open>serde_json::to_writer\<close> hands to its writer for \<open>v\<close>, in order.
\<close>

section \<open>Operations that change a state and may fail\<close>

type_synonym 's op = "'s \<Rightarrow> (ferror + unit) \<times> 's"

definition seq :: "'s op \<Rightarrow> 's op \<Rightarrow> 's op" where
  "seq f g s = (case f s of (Inl e, s') \<Rightarrow> (Inl e, s') | (Inr _, s') \<Rightarrow> g s')"

text \<open>\<open>for x in xs { f(x)?; }\<close>\<close>

fun seq_all :: "('a \<Rightarrow> 's op) \<Rightarrow> 'a list \<Rightarrow> 's op" where
  "seq_all f [] = (\<lambda>s. (Inr (), s))"
| "seq_all f (x # xs) = seq (f x) (seq_all f xs)"

lemma seq_all_cong [fundef_cong]:
  "xs = ys \<Longrightarrow> (\<And>x. x \<in> set ys \<Longrightarrow> f x = g x) \<Longrightarrow> seq_all f xs = seq_all g ys"
  by (induction ys arbitrary: xs) auto

lemma seq_assoc: "seq (seq f g) h = seq f (seq g h)"
  by (rule ext) (auto simp: seq_def split: prod.splits sum.splits)

lemma seq_unit [simp]: "seq (\<lambda>s. (Inr (), s)) f = f" "seq f (\<lambda>s. (Inr (), s)) = f"
  by (rule ext, auto simp: seq_def split: prod.splits sum.splits)+

lemma seq_all_append: "seq_all f (xs @ ys) = seq (seq_all f xs) (seq_all f ys)"
  by (induction xs) (simp_all add: seq_assoc)

lemma seq_all_concat: "seq_all f (concat xss) = seq_all (seq_all f) xss"
  by (induction xss) (simp_all add: seq_all_append)

lemma seq_all_map: "seq_all f (map g xs) = seq_all (\<lambda>x. f (g x)) xs"
  by (induction xs) simp_all

section \<open>The contract\<close>

locale meter =
  fixes add :: "nat \<Rightarrow> 's op"
    and used :: "'s \<Rightarrow> nat"
    and cap :: "'s \<Rightarrow> nat"
    and live :: "'s \<Rightarrow> bool"
  assumes add_ok: "live s \<Longrightarrow> used s + n \<le> cap s \<Longrightarrow>
      \<exists>s'. add n s = (Inr (), s') \<and> used s' = used s + n \<and> cap s' = cap s \<and> live s'"
    and add_err: "live s \<Longrightarrow> cap s < used s + n \<Longrightarrow> \<exists>e s'. add n s = (Inl e, s')"
begin

lemma add_all_ok:
  "live s \<Longrightarrow> used s + sum_list ns \<le> cap s \<Longrightarrow>
   \<exists>s'. seq_all add ns s = (Inr (), s') \<and> used s' = used s + sum_list ns \<and> cap s' = cap s \<and> live s'"
proof (induction ns arbitrary: s)
  case (Cons n ns)
  from add_ok [of s n] Cons.prems obtain s1 where
    s1: "add n s = (Inr (), s1)" "used s1 = used s + n" "cap s1 = cap s" "live s1" by auto
  then show ?case using Cons.IH [of s1] Cons.prems by (auto simp: seq_def)
qed simp

lemma add_all_err:
  "live s \<Longrightarrow> cap s < used s + sum_list ns \<Longrightarrow> used s \<le> cap s \<Longrightarrow> \<exists>e s'. seq_all add ns s = (Inl e, s')"
proof (induction ns arbitrary: s)
  case (Cons n ns)
  show ?case
  proof (cases "used s + n \<le> cap s")
    case True
    from add_ok [of s n] Cons.prems True obtain s1 where
      s1: "add n s = (Inr (), s1)" "used s1 = used s + n" "cap s1 = cap s" "live s1" by auto
    then show ?thesis using Cons.IH [of s1] Cons.prems True by (auto simp: seq_def)
  next
    case False
    then show ?thesis using add_err [of s n] Cons.prems by (auto simp: seq_def)
  qed
qed simp

lemma add_all_iff:
  assumes "live s" and "used s \<le> cap s"
  shows "(\<exists>s'. seq_all add ns s = (Inr (), s')) \<longleftrightarrow> used s + sum_list ns \<le> cap s"
proof (cases "used s + sum_list ns \<le> cap s")
  case True
  then show ?thesis using add_all_ok [OF assms(1) True] by auto
next
  case False
  then show ?thesis using add_all_err [OF assms(1) _ assms(2), of ns] by auto
qed

end

section \<open>Result budgets\<close>

record result_limits =
  max_rows :: nat
  max_payload_bytes :: nat

record result_budget =
  rb_limits :: "result_limits option"
  rb_rows :: nat
  rb_bytes :: nat

definition payload_error :: ferror where
  "payload_error = Limit ''result payload limit exceeded''"

text \<open>
  The only callers have tested that limits are set; \<open>the\<close> is the \<open>expect\<close> of the code, which panics
  without limits.
\<close>

definition rb_add :: "nat \<Rightarrow> result_budget op" where
  "rb_add n b =
     (let bytes = rb_bytes b + n
      in if usize_max < bytes then (Inl payload_error, b)
         else if max_payload_bytes (the (rb_limits b)) < bytes
         then (Inl payload_error, b\<lparr>rb_bytes := bytes\<rparr>)
         else (Inr (), b\<lparr>rb_bytes := bytes\<rparr>))"

definition key_cost :: "key \<Rightarrow> nat" where
  "key_cost k = (case k of KeyString s \<Rightarrow> length s | KeyInteger i \<Rightarrow> 8)"

fun rb_value :: "val \<Rightarrow> result_budget op" where
  "rb_value v = (\<lambda>b.
     if rb_limits b = None then (Inr (), b)
     else (case v of
         Null \<Rightarrow> rb_add 1
       | Boolean x \<Rightarrow> rb_add 1
       | Integer i \<Rightarrow> rb_add 8
       | Number n \<Rightarrow> rb_add 8
       | String s \<Rightarrow> rb_add (length s)
       | Binary s \<Rightarrow> rb_add (length s)
       | Vector s \<Rightarrow> rb_add (length s)
       | Record r \<Rightarrow> seq (rb_add (length (rec_table r))) (rb_add (key_cost (rec_key r)))
       | Array vs \<Rightarrow> seq_all rb_value vs
       | Object fs \<Rightarrow> seq_all (\<lambda>f. seq (rb_add (length (fst f))) (rb_value (snd f))) fs) b)"

declare rb_value.simps [simp del]

definition new_budget :: "result_limits option \<Rightarrow> string list \<Rightarrow> (ferror + unit) \<times> result_budget" where
  "new_budget limits columns =
     (let b = \<lparr>rb_limits = limits, rb_rows = 0, rb_bytes = 0\<rparr>
      in if limits = None then (Inr (), b) else seq_all (\<lambda>c. rb_add (length c)) columns b)"

text \<open>The values of a row that are charged: those whose fetch flag is unset or missing.\<close>

fun charged :: "val list \<Rightarrow> bool list \<Rightarrow> val list" where
  "charged [] fetched = []"
| "charged (v # vs) [] = v # charged vs []"
| "charged (v # vs) (f # fetched) = (if f then charged vs fetched else v # charged vs fetched)"

definition row_with_fetches :: "val list \<Rightarrow> bool list \<Rightarrow> result_budget op" where
  "row_with_fetches row fetched b =
     (case rb_limits b of
        None \<Rightarrow> (Inr (), b)
      | Some limits \<Rightarrow>
          if max_rows limits \<le> rb_rows b then (Inl (Limit ''result row limit exceeded''), b)
          else seq_all rb_value (charged row fetched) (b\<lparr>rb_rows := rb_rows b + 1\<rparr>))"

definition rb_row :: "val list \<Rightarrow> result_budget op" where
  "rb_row row = row_with_fetches row []"

definition document_fields :: "document \<Rightarrow> result_budget op" where
  "document_fields d b =
     (if rb_limits b = None then (Inr (), b)
      else seq_all (\<lambda>f. seq (rb_add (length (fst f))) (rb_value (snd f))) d b)"

definition rb_document :: "document \<Rightarrow> result_budget op" where
  "rb_document d = seq (rb_row []) (document_fields d)"

section \<open>Fetch budgets\<close>

record fetch_budget =
  fb_used :: nat
  fb_limit :: nat

definition fb_write :: "nat \<Rightarrow> fetch_budget op" where
  "fb_write n b =
     (if fb_limit b - fb_used b < n then (Inl (Encoding ''fetch byte limit exceeded''), b)
      else (Inr (), b\<lparr>fb_used := fb_used b + n\<rparr>))"

definition fb_charge ::
  "(val \<Rightarrow> string list) \<Rightarrow> val \<Rightarrow> fetch_budget \<Rightarrow> (ferror + nat) \<times> fetch_budget" where
  "fb_charge writes v b =
     (case seq_all fb_write (map length (writes v)) b of
        (Inl e, b') \<Rightarrow> (Inl (Limit ''fetch byte limit exceeded''), b')
      | (Inr _, b') \<Rightarrow> (Inr (fb_used b' - fb_used b), b'))"

section \<open>Encoding\<close>

definition magic :: string where
  "magic = ''FDB'' @ [CHR 0x01]"

definition encode :: "(val \<Rightarrow> string list) \<Rightarrow> val \<Rightarrow> ferror + string" where
  "encode writes v = rbind (validate v) (\<lambda>_. Inr (magic @ concat (writes v)))"

record counter =
  co_used :: nat
  co_limit :: nat

definition co_write :: "nat \<Rightarrow> counter op" where
  "co_write n c =
     (if co_limit c - co_used c < n then (Inl (Encoding ''encoded value limit exceeded''), c)
      else (Inr (), c\<lparr>co_used := co_used c + n\<rparr>))"

definition encode_with_limit ::
  "(val \<Rightarrow> string list) \<Rightarrow> nat option \<Rightarrow> val \<Rightarrow> ferror + string" where
  "encode_with_limit writes limit v =
     (case limit of
        None \<Rightarrow> encode writes v
      | Some n \<Rightarrow>
          rbind (validate v) (\<lambda>_.
            case seq (co_write (length magic)) (seq_all co_write (map length (writes v)))
                   \<lparr>co_used = 0, co_limit = n\<rparr> of
              (Inl e, _) \<Rightarrow> Inl (Limit ''encoded value limit exceeded'')
            | (Inr _, _) \<Rightarrow> encode writes v))"

definition encode_document :: "(val \<Rightarrow> string list) \<Rightarrow> document \<Rightarrow> ferror + string" where
  "encode_document writes d =
     rbind (validate_document_value d) (\<lambda>_. Inr (magic @ concat (writes (Object d))))"

section \<open>The three meters\<close>

definition rb_cap :: "result_budget \<Rightarrow> nat" where
  "rb_cap b = (case rb_limits b of None \<Rightarrow> 0 | Some l \<Rightarrow> min (max_payload_bytes l) usize_max)"

interpretation results: meter rb_add rb_bytes rb_cap "\<lambda>b. rb_limits b \<noteq> None"
  by unfold_locales (auto simp: rb_add_def rb_cap_def Let_def)

interpretation fetches: meter fb_write fb_used fb_limit "\<lambda>b. fb_used b \<le> fb_limit b"
  by unfold_locales (auto simp: fb_write_def)

interpretation encoder: meter co_write co_used co_limit "\<lambda>c. co_used c \<le> co_limit c"
  by unfold_locales (auto simp: co_write_def)

section \<open>Costs\<close>

fun costs :: "val \<Rightarrow> nat list" where
  "costs (Integer i) = [8]"
| "costs (Number n) = [8]"
| "costs (String s) = [length s]"
| "costs (Binary s) = [length s]"
| "costs (Vector s) = [length s]"
| "costs (Record r) = [length (rec_table r), key_cost (rec_key r)]"
| "costs (Array vs) = concat (map costs vs)"
| "costs (Object fs) = concat (map (\<lambda>f. length (fst f) # costs (snd f)) fs)"
| "costs v = [1]"

text \<open>The payload of a value, as the documentation of \<open>ResultLimits\<close> defines it.\<close>

fun payload :: "val \<Rightarrow> nat" where
  "payload (Integer i) = 8"
| "payload (Number n) = 8"
| "payload (String s) = length s"
| "payload (Binary s) = length s"
| "payload (Vector s) = length s"
| "payload (Record r) = length (rec_table r) + (case rec_key r of KeyString s \<Rightarrow> length s | KeyInteger i \<Rightarrow> 8)"
| "payload (Array vs) = sum_list (map payload vs)"
| "payload (Object fs) = sum_list (map (\<lambda>f. length (fst f) + payload (snd f)) fs)"
| "payload v = 1"

lemma sum_list_concat: "sum_list (concat xss) = sum_list (map sum_list xss)"
  by (induction xss) simp_all

lemma sum_costs [simp]: "sum_list (costs v) = payload v"
proof (induction v)
  case (Object fs)
  then have "f \<in> set fs \<Longrightarrow> sum_list (costs (snd f)) = payload (snd f)" for f
    using snds.intros by metis
  then show ?case by (simp add: sum_list_concat comp_def cong: map_cong)
next
  case (Array vs)
  then show ?case by (simp add: sum_list_concat comp_def cong: map_cong)
qed (simp_all add: key_cost_def)

lemma rb_add_live: "rb_limits (snd (rb_add n b)) = rb_limits b"
  by (simp add: rb_add_def Let_def)

lemma seq_all_live:
  "(\<And>x b. x \<in> set xs \<Longrightarrow> rb_limits (snd (f x b)) = rb_limits b) \<Longrightarrow>
   rb_limits (snd (seq_all f xs b)) = rb_limits b"
proof (induction xs arbitrary: b)
  case (Cons x xs)
  obtain r b1 where "f x b = (r, b1)" by force
  then show ?case using Cons.prems [of x b] Cons.IH [of b1] Cons.prems
    by (auto simp: seq_def split: sum.splits)
qed simp

text \<open>Under limits, charging a value is charging its costs one after the other.\<close>

lemma seq_all_agree:
  assumes "\<And>x b. x \<in> set xs \<Longrightarrow> rb_limits b \<noteq> None \<Longrightarrow> f x b = g x b"
    and "\<And>x b. x \<in> set xs \<Longrightarrow> rb_limits (snd (g x b)) = rb_limits b" and "rb_limits b \<noteq> None"
  shows "seq_all f xs b = seq_all g xs b"
  using assms
proof (induction xs arbitrary: b)
  case (Cons x xs)
  obtain r b1 where g: "g x b = (r, b1)" by force
  then have "f x b = (r, b1)" "rb_limits b1 \<noteq> None"
    using Cons.prems(1) [of x b] Cons.prems(2) [of x b] Cons.prems(3) by simp_all
  then show ?case using Cons g by (auto simp: seq_def split: sum.splits)
qed simp

lemma rb_costs_live: "rb_limits (snd (seq_all rb_add ns b)) = rb_limits b"
  by (rule seq_all_live) (rule rb_add_live)

lemma rb_value_costs: "rb_limits b \<noteq> None \<Longrightarrow> rb_value v b = seq_all rb_add (costs v) b"
proof (induction v arbitrary: b)
  case (Array vs)
  have "seq_all rb_value vs b = seq_all (\<lambda>v. seq_all rb_add (costs v)) vs b"
    using Array by (intro seq_all_agree) (auto simp: rb_costs_live)
  then show ?case using Array.prems by (subst rb_value.simps) (auto simp: seq_all_concat seq_all_map)
next
  case (Object fs)
  let ?f = "\<lambda>f. seq (rb_add (length (fst f))) (rb_value (snd f))"
  let ?g = "\<lambda>f. seq_all rb_add (length (fst f) # costs (snd f))"
  have "?f f b = ?g f b" if f: "f \<in> set fs" and b: "rb_limits b \<noteq> None" for f b
  proof -
    obtain r b1 where a: "rb_add (length (fst f)) b = (r, b1)" by force
    have "rb_limits b1 \<noteq> None" using b rb_add_live [of "length (fst f)" b] a by simp
    then show ?thesis using Object.IH [OF f snds.intros, where b = b1] a
      by (auto simp: seq_def split: sum.splits)
  qed
  then have "seq_all ?f fs b = seq_all ?g fs b"
    using Object.prems by (intro seq_all_agree) (auto simp del: seq_all.simps simp: rb_costs_live)
  then show ?case using Object.prems
    by (subst rb_value.simps) (auto simp: seq_all_concat seq_all_map)
qed ((subst rb_value.simps, auto)[1])+

lemma rb_costs_rows: "rb_rows (snd (seq_all rb_add ns b)) = rb_rows b"
proof (induction ns arbitrary: b)
  case (Cons n ns)
  then show ?case by (auto simp: seq_def rb_add_def Let_def)
qed simp

lemma rb_values_costs:
  "rb_limits b \<noteq> None \<Longrightarrow> seq_all rb_value vs b = seq_all rb_add (concat (map costs vs)) b"
  unfolding seq_all_concat seq_all_map by (rule seq_all_agree) (auto simp: rb_value_costs rb_costs_live)

section \<open>Whole results\<close>

definition row_payload :: "val list \<Rightarrow> nat" where
  "row_payload row = sum_list (map payload row)"

lemma charged_Nil [simp]: "charged row [] = row"
  by (induction row) auto

lemma rb_row_step:
  assumes "rb_limits b = Some l" and "max_payload_bytes l \<le> usize_max" and "rb_bytes b \<le> max_payload_bytes l"
  shows "rb_rows b < max_rows l \<and> rb_bytes b + row_payload row \<le> max_payload_bytes l \<Longrightarrow>
      rb_row row b = (Inr (), b\<lparr>rb_rows := rb_rows b + 1, rb_bytes := rb_bytes b + row_payload row\<rparr>)"
    and "\<not> (rb_rows b < max_rows l \<and> rb_bytes b + row_payload row \<le> max_payload_bytes l) \<Longrightarrow>
      \<exists>e b'. rb_row row b = (Inl e, b')"
proof -
  let ?b = "b\<lparr>rb_rows := rb_rows b + 1\<rparr>"
  let ?ns = "concat (map costs row)"
  have row: "rb_row row b = (if max_rows l \<le> rb_rows b then (Inl (Limit ''result row limit exceeded''), b)
      else seq_all rb_add ?ns ?b)"
    using assms(1) rb_values_costs [of ?b row] by (simp add: rb_row_def row_with_fetches_def)
  have cap: "rb_cap ?b = max_payload_bytes l" using assms(1,2) by (simp add: rb_cap_def)
  have sum: "sum_list ?ns = row_payload row"
    by (simp add: row_payload_def sum_list_concat comp_def)
  show "rb_row row b = (Inr (), b\<lparr>rb_rows := rb_rows b + 1, rb_bytes := rb_bytes b + row_payload row\<rparr>)"
    if ok: "rb_rows b < max_rows l \<and> rb_bytes b + row_payload row \<le> max_payload_bytes l"
  proof -
    have "rb_bytes ?b + sum_list ?ns \<le> rb_cap ?b" using ok cap sum by simp
    from results.add_all_ok [OF _ this] assms(1) sum obtain b' where
      b': "seq_all rb_add ?ns ?b = (Inr (), b')" "rb_bytes b' = rb_bytes b + row_payload row" by auto
    moreover have "rb_limits b' = rb_limits b" "rb_rows b' = rb_rows b + 1"
      using rb_costs_live [of ?ns ?b] rb_costs_rows [of ?ns ?b] b'(1) by simp_all
    ultimately show ?thesis using row ok by simp
  qed
  show "\<exists>e b'. rb_row row b = (Inl e, b')"
    if "\<not> (rb_rows b < max_rows l \<and> rb_bytes b + row_payload row \<le> max_payload_bytes l)"
  proof (cases "max_rows l \<le> rb_rows b")
    case False
    then have "\<exists>e b'. seq_all rb_add ?ns ?b = (Inl e, b')"
      using that assms(1,3) cap sum by (intro results.add_all_err) simp_all
    then show ?thesis using row False by simp
  qed (simp add: row)
qed

lemma rb_rows_exact:
  assumes "rb_limits b = Some l" and "max_payload_bytes l \<le> usize_max"
    and "rb_bytes b \<le> max_payload_bytes l" and "rb_rows b \<le> max_rows l"
  shows "(\<exists>b'. seq_all rb_row rows b = (Inr (), b')) \<longleftrightarrow>
    rb_rows b + length rows \<le> max_rows l \<and>
    rb_bytes b + sum_list (map row_payload rows) \<le> max_payload_bytes l"
  using assms
proof (induction rows arbitrary: b)
  case (Cons row rows)
  let ?ok = "rb_rows b < max_rows l \<and> rb_bytes b + row_payload row \<le> max_payload_bytes l"
  let ?b = "b\<lparr>rb_rows := rb_rows b + 1, rb_bytes := rb_bytes b + row_payload row\<rparr>"
  show ?case
  proof (cases ?ok)
    case True
    then show ?thesis
      using rb_row_step(1) [OF Cons.prems(1-3) True] Cons.IH [of ?b] Cons.prems by (simp add: seq_def add.assoc)
  next
    case False
    then show ?thesis using rb_row_step(2) [OF Cons.prems(1-3) False] by (auto simp: seq_def)
  qed
qed simp

lemma unlimited_rows: "rb_limits b = None \<Longrightarrow> seq_all rb_row rows b = (Inr (), b)"
  by (induction rows) (simp_all add: seq_def rb_row_def row_with_fetches_def)

lemma new_budget_exact:
  assumes "max_payload_bytes l \<le> usize_max"
  shows "(\<exists>b. new_budget (Some l) columns = (Inr (), b)) \<longleftrightarrow> sum_list (map length columns) \<le> max_payload_bytes l"
    and "new_budget (Some l) columns = (Inr (), b) \<Longrightarrow>
      rb_limits b = Some l \<and> rb_rows b = 0 \<and> rb_bytes b = sum_list (map length columns)"
proof -
  let ?b = "\<lparr>rb_limits = Some l, rb_rows = 0, rb_bytes = 0\<rparr>"
  let ?ns = "map length columns"
  have new: "new_budget (Some l) columns = seq_all rb_add ?ns ?b"
    by (simp add: new_budget_def seq_all_map)
  have cap: "rb_cap ?b = max_payload_bytes l" using assms by (simp add: rb_cap_def)
  show iff: "(\<exists>b. new_budget (Some l) columns = (Inr (), b)) \<longleftrightarrow> sum_list ?ns \<le> max_payload_bytes l"
    using results.add_all_iff [of ?b ?ns] new cap by simp
  show "rb_limits b = Some l \<and> rb_rows b = 0 \<and> rb_bytes b = sum_list ?ns"
    if b: "new_budget (Some l) columns = (Inr (), b)"
    using results.add_all_ok [of ?b ?ns] iff b new cap rb_costs_live [of ?ns ?b] rb_costs_rows [of ?ns ?b] by auto
qed

section \<open>Encodings under a limit\<close>

lemma encode_with_limit_eq:
  "encode_with_limit writes (Some n) v =
     (case encode writes v of
        Inl e \<Rightarrow> Inl e
      | Inr bytes \<Rightarrow> if length bytes \<le> n then Inr bytes else Inl (Limit ''encoded value limit exceeded''))"
proof -
  define c where "c = \<lparr>co_used = 0, co_limit = n\<rparr>"
  define ns where "ns = length magic # map length (writes v)"
  have c: "co_used c = 0" "co_limit c = n" by (simp_all add: c_def)
  have len: "length (magic @ concat (writes v)) = sum_list ns" by (simp add: length_concat ns_def)
  have run: "seq (co_write (length magic)) (seq_all co_write (map length (writes v))) = seq_all co_write ns"
    by (simp add: ns_def)
  show ?thesis
  proof (cases "sum_list ns \<le> n")
    case True
    then obtain c' where "seq_all co_write ns c = (Inr (), c')"
      using encoder.add_all_ok [of c ns] c by auto
    then show ?thesis using True len
      by (cases "validate v") (simp_all add: encode_with_limit_def encode_def run flip: c_def)
  next
    case False
    then obtain e c' where "seq_all co_write ns c = (Inl e, c')"
      using encoder.add_all_err [of c ns] c by auto
    then show ?thesis using False len
      by (cases "validate v") (simp_all add: encode_with_limit_def encode_def run flip: c_def)
  qed
qed

lemma fb_limit_write: "fb_limit (snd (seq_all fb_write ns b)) = fb_limit b"
  by (induction ns arbitrary: b) (auto simp: seq_def fb_write_def)

lemma fb_charge_ok:
  assumes "fb_used b + sum_list (map length (writes v)) \<le> fb_limit b"
  shows "fb_charge writes v b = (Inr (sum_list (map length (writes v))),
    b\<lparr>fb_used := fb_used b + sum_list (map length (writes v))\<rparr>)"
proof -
  from fetches.add_all_ok [of b "map length (writes v)"] assms obtain b' where
    b': "seq_all fb_write (map length (writes v)) b = (Inr (), b')"
      "fb_used b' = fb_used b + sum_list (map length (writes v))" by auto
  then have "fb_limit b' = fb_limit b" using fb_limit_write [of "map length (writes v)" b] by simp
  with b' show ?thesis by (simp add: fb_charge_def)
qed

lemma fb_charge_err:
  assumes "fb_used b \<le> fb_limit b" and "\<not> fb_used b + sum_list (map length (writes v)) \<le> fb_limit b"
  shows "\<exists>b'. fb_charge writes v b = (Inl (Limit ''fetch byte limit exceeded''), b')"
proof -
  from fetches.add_all_err [of b "map length (writes v)"] assms obtain e b' where
    "seq_all fb_write (map length (writes v)) b = (Inl e, b')" by auto
  then show ?thesis by (simp add: fb_charge_def)
qed

section \<open>Properties\<close>

text \<open>C28: a result is accepted exactly when it has at most \<open>max_rows\<close> rows and its payload, column names
included, is at most \<open>max_payload_bytes\<close>; without limits every result is accepted and nothing is counted.
The checked additions never change the verdict.\<close>

theorem result_budget_exact:
  assumes "max_payload_bytes l \<le> usize_max"
  shows "((\<exists>b b'. new_budget (Some l) columns = (Inr (), b) \<and> seq_all rb_row rows b = (Inr (), b')) \<longleftrightarrow>
      length rows \<le> max_rows l \<and>
      sum_list (map length columns) + sum_list (map row_payload rows) \<le> max_payload_bytes l) \<and>
    (\<exists>b. new_budget None columns = (Inr (), b) \<and> seq_all rb_row rows b = (Inr (), b))"
proof -
  note new = new_budget_exact [OF assms, of columns]
  have rows: "(\<exists>b'. seq_all rb_row rows b = (Inr (), b')) \<longleftrightarrow> length rows \<le> max_rows l \<and>
      sum_list (map length columns) + sum_list (map row_payload rows) \<le> max_payload_bytes l"
    if b: "new_budget (Some l) columns = (Inr (), b)" for b
    using rb_rows_exact [OF _ assms, of b rows] new(2) [OF b] new(1) b by auto
  have none: "\<exists>b. new_budget None columns = (Inr (), b) \<and> seq_all rb_row rows b = (Inr (), b)"
    using unlimited_rows by (auto simp: new_budget_def Let_def)
  show ?thesis using rows new(1) none by auto
qed

theorem result_budget_exact_witness:
  "\<exists>b b'. new_budget (Some \<lparr>max_rows = 2, max_payload_bytes = 20\<rparr>) [''id''] = (Inr (), b) \<and>
     seq_all rb_row [[Integer 1], [String ''abc'']] b = (Inr (), b')"
  using result_budget_exact [of "\<lparr>max_rows = 2, max_payload_bytes = 20\<rparr>" "[''id'']" "[[Integer 1], [String ''abc'']]"]
  by (simp add: usize_max_def row_payload_def)

text \<open>C36: \<open>encode_with_limit\<close> returns the encoding of \<open>encode\<close> when it fits the limit and a limit error when
it does not, and a value that fails validation is reported as such in both; \<open>FetchBudget::charge\<close> counts
exactly the bytes of the JSON text and fails exactly when they do not fit.\<close>

theorem encode_with_limit_exact:
  assumes "fb_used b \<le> fb_limit b"
  shows "encode_with_limit writes (Some n) v =
      (case encode writes v of
         Inl e \<Rightarrow> Inl e
       | Inr bytes \<Rightarrow> if length bytes \<le> n then Inr bytes else Inl (Limit ''encoded value limit exceeded'')) \<and>
    (let size = length (concat (writes v))
     in if fb_used b + size \<le> fb_limit b then fb_charge writes v b = (Inr size, b\<lparr>fb_used := fb_used b + size\<rparr>)
        else \<exists>b'. fb_charge writes v b = (Inl (Limit ''fetch byte limit exceeded''), b'))"
  using encode_with_limit_eq fb_charge_ok fb_charge_err assms by (simp add: Let_def length_concat)

theorem encode_with_limit_exact_witness:
  "encode_with_limit (\<lambda>v. [''null'']) (Some 8) Null = Inr (magic @ ''null'') \<and>
   fb_charge (\<lambda>v. [''null'']) Null \<lparr>fb_used = 3, fb_limit = 7\<rparr> = (Inr 4, \<lparr>fb_used = 7, fb_limit = 7\<rparr>)"
  using encode_with_limit_exact [of "\<lparr>fb_used = 3, fb_limit = 7\<rparr>" "\<lambda>v. [''null'']" 8 Null]
  by (simp add: encode_def validate_def validate_at.simps magic_def)

end
