(* ===== verification/Documents.thy ===== *)
theory Documents
  imports Budgets Statements "HOL-Library.Sublist"
begin

text \<open>
  Changes to documents: \<open>SELECT * OMIT\<close> (\<open>fastdb/frontend/src/omit.rs\<close>), the \<open>CONTENT\<close> and \<open>MERGE\<close>
  mutations (\<open>mutation.rs\<close>) and JSON patches (\<open>patch.rs\<close>). A function that mutates a value through a
  reference returns the changed value; \<open>parent\<close>, which hands out a mutable reference into a value,
  takes the code that uses the reference as an argument. \<open>writes\<close> is the JSON writer, as in
  \<open>Budgets\<close>; \<open>parse_paths\<close> is \<open>serde_json::from_str\<close> at the type of the omitted paths.
\<close>

section \<open>OMIT\<close>

fun omit_remove :: "document \<Rightarrow> string list \<Rightarrow> document" where
  "omit_remove d [] = d"
| "omit_remove d (k # rest) =
     (if rest = [] then bm_remove k d
      else case bm_get k d of
          Some (Object child) \<Rightarrow> bm_insert k (Object (omit_remove child rest)) d
        | _ \<Rightarrow> d)"

definition omit_apply :: "(string \<Rightarrow> (string list list) option) \<Rightarrow> document \<Rightarrow> string \<Rightarrow> ferror + val" where
  "omit_apply parse_paths d encoded =
     (case parse_paths encoded of
        None \<Rightarrow> Inl (Encoding encoded)
      | Some ps \<Rightarrow>
          if 1024 < length ps \<or> list_ex (\<lambda>p. p = [] \<or> 64 < length p) ps
          then Inl (Limit ''invalid OMIT path bounds'')
          else Inr (Object (fold (\<lambda>p d. omit_remove d p) ps d)))"

section \<open>MERGE\<close>

lemma size_entry [termination_simp]:
  "size_list (size_prod (\<lambda>_. 0) size) inc < size_list (size_prod (\<lambda>_. 0) size) ((k, Object inc) # rest)"
  by simp

function merge_doc :: "document \<Rightarrow> document \<Rightarrow> document" where
  "merge_doc d [] = d"
| "merge_doc d ((k, v) # rest) =
     merge_doc
       (case (bm_get k d, v) of
          (Some (Object existing), Object incoming) \<Rightarrow> bm_insert k (Object (merge_doc existing incoming)) d
        | _ \<Rightarrow> bm_insert k v d) rest"
  by pat_completeness auto
termination
  by (relation "measure (\<lambda>(d, i). size_list (size_prod (\<lambda>_. 0) size) i)") auto

section \<open>JSON patches\<close>

record patch_budget =
  pb_bytes :: fetch_budget
  pb_work :: nat

definition pb_limit_error :: ferror where
  "pb_limit_error = Limit ''PATCH cumulative values exceed 64 MiB''"

definition pb_charge :: "(val \<Rightarrow> string list) \<Rightarrow> val \<Rightarrow> patch_budget \<Rightarrow> ferror + patch_budget" where
  "pb_charge writes v b =
     (case fb_charge writes v (pb_bytes b) of
        (Inl _, _) \<Rightarrow> Inl pb_limit_error
      | (Inr _, bytes) \<Rightarrow> Inr (b\<lparr>pb_bytes := bytes\<rparr>))"

definition pb_step :: "nat \<Rightarrow> patch_budget \<Rightarrow> ferror + patch_budget" where
  "pb_step amount b =
     (if pb_work b < amount then Inl (Limit ''PATCH work exceeds 1000000 steps'')
      else Inr (b\<lparr>pb_work := pb_work b - amount\<rparr>))"

definition patch_invalid :: "string \<Rightarrow> ferror" where
  "patch_invalid m = Validation (''PATCH '' @ m)"

definition patch_string :: "document \<Rightarrow> string \<Rightarrow> ferror + string" where
  "patch_string operation field =
     (case bm_get field operation of
        Some (String s) \<Rightarrow> Inr s
      | _ \<Rightarrow> Inl (patch_invalid (''requires a string '' @ field)))"

text \<open>\<open>str::split('/')\<close>: always at least one part.\<close>

fun split_slash :: "string \<Rightarrow> string list" where
  "split_slash [] = [[]]"
| "split_slash (c # cs) =
     (if c = CHR ''/'' then [] # split_slash cs
      else case split_slash cs of [] \<Rightarrow> [[c]] | p # ps \<Rightarrow> (c # p) # ps)"

fun unescape_part :: "string \<Rightarrow> ferror + string" where
  "unescape_part [] = Inr []"
| "unescape_part (c # cs) =
     (if c = CHR ''~''
      then (case cs of
              d # ds \<Rightarrow>
                if d = CHR ''0'' then rbind (unescape_part ds) (\<lambda>n. Inr (CHR ''~'' # n))
                else if d = CHR ''1'' then rbind (unescape_part ds) (\<lambda>n. Inr (CHR ''/'' # n))
                else Inl (patch_invalid ''has an invalid pointer escape'')
            | [] \<Rightarrow> Inl (patch_invalid ''has an invalid pointer escape''))
      else rbind (unescape_part cs) (\<lambda>n. Inr (c # n)))"

fun pointer_parts :: "nat \<Rightarrow> string list \<Rightarrow> ferror + string list" where
  "pointer_parts n [] = Inr []"
| "pointer_parts n (p # ps) =
     (if n = 64 then Inl (Limit ''PATCH pointer exceeds 64 steps'')
      else rbind (unescape_part p) (\<lambda>name. rbind (pointer_parts (n + 1) ps) (\<lambda>r. Inr (name # r))))"

definition pointer :: "string \<Rightarrow> ferror + string list" where
  "pointer s =
     (if 16384 < length s then Inl (Limit ''PATCH pointer exceeds 16384 bytes'')
      else if \<not> starts_with ''/'' s then Inl (patch_invalid ''requires a member pointer beginning with /'')
      else pointer_parts 0 (split_slash (tl s)))"

definition writable :: "string list \<Rightarrow> ferror + unit" where
  "writable ps =
     (if ps \<noteq> [] \<and> hd ps = ''id'' then Inl (patch_invalid ''cannot change id'') else Inr ())"

definition patch_index :: "string \<Rightarrow> nat \<Rightarrow> bool \<Rightarrow> ferror + nat" where
  "patch_index k len adding =
     (if adding \<and> k = ''-'' then Inr len
      else if k = [] \<or> 1 < length k \<and> starts_with ''0'' k \<or> \<not> list_all is_ascii_digit k
      then Inl (patch_invalid ''array index is not a canonical nonnegative integer'')
      else case parse_unsigned usize_max k of
          None \<Rightarrow> Inl (patch_invalid ''array index is too large'')
        | Some i \<Rightarrow>
            if len < i \<or> \<not> adding \<and> i = len then Inl (patch_invalid ''array index is out of bounds'')
            else Inr i)"

fun patch_get :: "val \<Rightarrow> string list \<Rightarrow> patch_budget \<Rightarrow> ferror + val \<times> patch_budget" where
  "patch_get v [] b = Inr (v, b)"
| "patch_get v (k # ks) b =
     rbind (pb_step 1 b) (\<lambda>b.
       case v of
         Object d \<Rightarrow>
           (case bm_get k d of
              None \<Rightarrow> Inl (patch_invalid ''member is missing'')
            | Some w \<Rightarrow> patch_get w ks b)
       | Array vs \<Rightarrow> rbind (patch_index k (length vs) False) (\<lambda>i. patch_get (vs ! i) ks b)
       | _ \<Rightarrow> Inl (patch_invalid ''pointer cannot traverse this value''))"

text \<open>
  \<open>parent\<close> and the use of the reference it returns: \<open>f\<close> changes the value at the path and may
  return a result.
\<close>

fun at_parent ::
  "(val \<Rightarrow> patch_budget \<Rightarrow> ferror + val \<times> 'r \<times> patch_budget) \<Rightarrow> val \<Rightarrow> string list \<Rightarrow> patch_budget \<Rightarrow>
   ferror + val \<times> 'r \<times> patch_budget" where
  "at_parent f v [] b = f v b"
| "at_parent f v (k # ks) b =
     rbind (pb_step 1 b) (\<lambda>b.
       case v of
         Object d \<Rightarrow>
           (case bm_get k d of
              None \<Rightarrow> Inl (patch_invalid ''parent is missing'')
            | Some w \<Rightarrow>
                rbind (at_parent f w ks b) (\<lambda>(w', r, b). Inr (Object (bm_insert k w' d), r, b)))
       | Array vs \<Rightarrow>
           rbind (patch_index k (length vs) False) (\<lambda>i.
             rbind (at_parent f (vs ! i) ks b) (\<lambda>(w', r, b). Inr (Array (vs[i := w']), r, b)))
       | _ \<Rightarrow> Inl (patch_invalid ''pointer cannot traverse this value''))"

definition remove_member :: "string \<Rightarrow> val \<Rightarrow> patch_budget \<Rightarrow> ferror + val \<times> val \<times> patch_budget" where
  "remove_member k v b =
     (case v of
        Object d \<Rightarrow>
          (case bm_get k d of
             None \<Rightarrow> Inl (patch_invalid ''member is missing'')
           | Some w \<Rightarrow> Inr (Object (bm_remove k d), w, b))
      | Array vs \<Rightarrow>
          rbind (patch_index k (length vs) False) (\<lambda>i.
            rbind (pb_step (length vs - i) b) (\<lambda>b.
              Inr (Array (take i vs @ drop (Suc i) vs), vs ! i, b)))
      | _ \<Rightarrow> Inl (patch_invalid ''destination parent must be an object or array''))"

definition patch_remove :: "val \<Rightarrow> string list \<Rightarrow> patch_budget \<Rightarrow> ferror + val \<times> val \<times> patch_budget" where
  "patch_remove v ps b =
     rbind (writable ps) (\<lambda>_.
       if ps = [] then Inl (patch_invalid ''requires a member path'')
       else at_parent (remove_member (last ps)) v (butlast ps) b)"

definition put_member ::
  "string \<Rightarrow> val \<Rightarrow> bool \<Rightarrow> val \<Rightarrow> patch_budget \<Rightarrow> ferror + val \<times> unit \<times> patch_budget" where
  "put_member k incoming adding v b =
     (case v of
        Object d \<Rightarrow>
          if \<not> adding \<and> \<not> bm_contains k d then Inl (patch_invalid ''replace member is missing'')
          else Inr (Object (bm_insert k incoming d), (), b)
      | Array vs \<Rightarrow>
          rbind (patch_index k (length vs) adding) (\<lambda>i.
            if adding
            then rbind (pb_step (length vs - i + 1) b) (\<lambda>b.
              Inr (Array (take i vs @ incoming # drop i vs), (), b))
            else Inr (Array (vs[i := incoming]), (), b))
      | _ \<Rightarrow> Inl (patch_invalid ''destination parent must be an object or array''))"

definition patch_put ::
  "val \<Rightarrow> string list \<Rightarrow> val \<Rightarrow> bool \<Rightarrow> patch_budget \<Rightarrow> ferror + val \<times> unit \<times> patch_budget" where
  "patch_put v ps incoming adding b =
     rbind (writable ps) (\<lambda>_.
       if ps = [] then Inl (patch_invalid ''requires a member path'')
       else at_parent (put_member (last ps) incoming adding) v (butlast ps) b)"

definition patch_relocate ::
  "(val \<Rightarrow> string list) \<Rightarrow> bool \<Rightarrow> val \<Rightarrow> string list \<Rightarrow> string list \<Rightarrow> patch_budget \<Rightarrow>
   ferror + val \<times> patch_budget" where
  "patch_relocate writes moving doc from_ps ps b =
     rbind (writable ps) (\<lambda>_.
       if moving \<and> length from_ps < length ps \<and> starts_with from_ps ps
       then Inl (patch_invalid ''cannot move a parent into its descendant'')
       else rbind
         (if moving then patch_remove doc from_ps b
          else rbind (patch_get doc from_ps b) (\<lambda>(w, b).
            rbind (pb_charge writes w b) (\<lambda>b. Inr (doc, w, b))))
         (\<lambda>(doc, w, b). rbind (patch_put doc ps w True b) (\<lambda>(doc, _, b). Inr (doc, b))))"

definition patch_perform ::
  "(val \<Rightarrow> string list) \<Rightarrow> string \<Rightarrow> document \<Rightarrow> string list \<Rightarrow> val \<Rightarrow> patch_budget \<Rightarrow>
   ferror + val \<times> patch_budget" where
  "patch_perform writes op operation ps doc b =
     (if op = ''add'' \<or> op = ''replace''
      then (case bm_get ''value'' operation of
              None \<Rightarrow> Inl (patch_invalid ''requires value'')
            | Some w \<Rightarrow>
                rbind (patch_put doc ps w (op = ''add'') b) (\<lambda>(doc, _, b). Inr (doc, b)))
      else if op = ''remove''
      then rbind (patch_remove doc ps b) (\<lambda>(doc, _, b). Inr (doc, b))
      else if op = ''copy'' \<or> op = ''move''
      then rbind (rbind (patch_string operation ''from'') pointer) (\<lambda>from_ps.
        patch_relocate writes (op = ''move'') doc from_ps ps b)
      else if op = ''test''
      then (case bm_get ''value'' operation of
              None \<Rightarrow> Inl (patch_invalid ''requires value'')
            | Some expected \<Rightarrow>
                rbind (patch_get doc ps b) (\<lambda>(actual, b).
                  if equal actual expected then Inr (doc, b)
                  else Inl (patch_invalid ''test failed'')))
      else Inl (patch_invalid ''operation must be add, remove, replace, copy, move or test''))"

definition patch_operation ::
  "(val \<Rightarrow> string list) \<Rightarrow> val \<Rightarrow> val \<Rightarrow> patch_budget \<Rightarrow> ferror + val \<times> patch_budget" where
  "patch_operation writes operation doc b =
     (case operation of
        Object operation \<Rightarrow>
          rbind (rbind (patch_string operation ''path'') pointer) (\<lambda>ps.
            rbind (patch_string operation ''op'') (\<lambda>op.
              patch_perform writes op operation ps doc b))
      | _ \<Rightarrow> Inl (patch_invalid ''operation must be an object''))"

fun patch_loop ::
  "(val \<Rightarrow> string list) \<Rightarrow> val list \<Rightarrow> val \<Rightarrow> patch_budget \<Rightarrow> ferror + val \<times> patch_budget" where
  "patch_loop writes [] doc b = Inr (doc, b)"
| "patch_loop writes (operation # operations) doc b =
     rbind (pb_step 1 b) (\<lambda>b.
       rbind (patch_operation writes operation doc b) (\<lambda>(doc, b).
         rbind (validate doc) (\<lambda>_.
           rbind (pb_charge writes doc b) (\<lambda>b. patch_loop writes operations doc b))))"

text \<open>
  The document is charged as a bare map, \<open>doc_writes\<close>, before the first operation. In
  \<open>patch_apply\<close>, \<open>None\<close> is the \<open>unreachable!\<close> at the end.
\<close>

definition patch_budget_init :: patch_budget where
  "patch_budget_init =
     \<lparr>pb_bytes = \<lparr>fb_used = 0, fb_limit = 64 * 1024 * 1024\<rparr>, pb_work = 1000000\<rparr>"

definition patch_run ::
  "(val \<Rightarrow> string list) \<Rightarrow> (document \<Rightarrow> string list) \<Rightarrow> document \<Rightarrow> val \<Rightarrow> ferror + val \<times> patch_budget" where
  "patch_run writes doc_writes before operations =
     rbind (pb_charge writes operations patch_budget_init) (\<lambda>b.
       case operations of
         Array ops \<Rightarrow>
           if 1024 < length ops then Inl (Limit ''PATCH exceeds 1024 operations'')
           else (case seq_all fb_write (map length (doc_writes before)) (pb_bytes b) of
                   (Inl _, _) \<Rightarrow> Inl pb_limit_error
                 | (Inr _, bytes) \<Rightarrow> patch_loop writes ops (Object before) (b\<lparr>pb_bytes := bytes\<rparr>))
       | _ \<Rightarrow> Inl (patch_invalid ''requires an array of operations''))"

definition patch_apply ::
  "(val \<Rightarrow> string list) \<Rightarrow> (document \<Rightarrow> string list) \<Rightarrow> document \<Rightarrow> val \<Rightarrow> (ferror + document) option" where
  "patch_apply writes doc_writes before operations =
     (case patch_run writes doc_writes before operations of
        Inl e \<Rightarrow> Some (Inl e)
      | Inr r \<Rightarrow> (case fst r of Object d \<Rightarrow> Some (Inr d) | _ \<Rightarrow> None))"

section \<open>Mutations\<close>

definition check_id :: "record_ref \<Rightarrow> val option \<Rightarrow> ferror + unit" where
  "check_id rid provided =
     (case provided of
        None \<Rightarrow> Inr ()
      | Some (Record r) \<Rightarrow>
          rbind (normalized_id r (rec_table rid)) (\<lambda>n.
            if n \<noteq> rid then Inl (Validation ''id is immutable'') else Inr ())
      | _ \<Rightarrow> Inl (Validation ''id is immutable''))"

definition mutation_apply ::
  "(val \<Rightarrow> string list) \<Rightarrow> (document \<Rightarrow> string list) \<Rightarrow> mutation_mode \<Rightarrow> document \<Rightarrow> val \<Rightarrow>
   (ferror + document) option" where
  "mutation_apply writes doc_writes mode before v =
     (if mode = Patch then patch_apply writes doc_writes before v
      else case v of
          Object fs \<Rightarrow>
            (case bm_get ''id'' before of
               Some (Record rid) \<Rightarrow>
                 Some (rbind (check_id rid (bm_get ''id'' fs)) (\<lambda>_.
                   let fs = bm_remove ''id'' fs;
                       d = (if mode = Content then fs else merge_doc before fs);
                       d = bm_insert ''id'' (Record rid) d
                   in rbind (validate_document_value d) (\<lambda>_. Inr d)))
             | _ \<Rightarrow> Some (Inl (Storage ''mutation source has no typed id'')))
        | _ \<Rightarrow> Some (Inl (Validation ''CONTENT and MERGE require an object'')))"

section \<open>What OMIT leaves\<close>

fun locate :: "val \<Rightarrow> string list \<Rightarrow> val option" where
  "locate v [] = Some v"
| "locate v (k # ks) =
     (case v of
        Object d \<Rightarrow> (case bm_get k d of None \<Rightarrow> None | Some w \<Rightarrow> locate w ks)
      | _ \<Rightarrow> None)"

definition omit_val :: "string list \<Rightarrow> val \<Rightarrow> val" where
  "omit_val p v = (case v of Object d \<Rightarrow> Object (omit_remove d p) | _ \<Rightarrow> v)"

lemma bm_get_omit:
  "bm_get q (omit_remove d (k # rest)) =
     (if q = k then (if rest = [] then None else map_option (omit_val rest) (bm_get k d)) else bm_get q d)"
  by (auto simp: omit_val_def split: option.splits val.splits)

lemma locate_omit_val:
  "p \<noteq> [] \<Longrightarrow> locate (omit_val p v) q =
     (if prefix p q then None
      else if prefix q p then map_option (omit_val (drop (length q) p)) (locate v q)
      else locate v q)"
proof (induction p arbitrary: v q)
  case (Cons k rest)
  show ?case
  proof (cases q)
    case (Cons j js)
    note q = this
    show ?thesis
    proof (cases v)
      case (Object d)
      have v: "omit_val (k # rest) (Object d) = Object (omit_remove d (k # rest))" by (simp add: omit_val_def)
      show ?thesis
      proof (cases "j = k \<and> rest \<noteq> []")
        case True
        then show ?thesis
          unfolding q Object v using Cons.IH
          by (simp add: bm_get_omit del: omit_remove.simps split: option.split)
      next
        case False
        then show ?thesis unfolding q Object v by (auto simp: bm_get_omit simp del: omit_remove.simps)
      qed
    qed (auto simp: q omit_val_def)
  qed simp
qed simp

lemma wf_entry: "wf_val (Object d) \<Longrightarrow> bm_get k d = Some v \<Longrightarrow> wf_val v"
  using bm_get_SomeD [of k d v] by force

lemma wf_insert: "wf_val (Object d) \<Longrightarrow> wf_val v \<Longrightarrow> wf_val (Object (bm_insert k v d))"
  by (auto dest!: bm_insert_set)

lemma wf_remove: "wf_val (Object d) \<Longrightarrow> wf_val (Object (bm_remove k d))"
  by (auto simp: bm_wf_remove) (auto simp: bm_remove_def)

lemma wf_omit_remove: "wf_val (Object d) \<Longrightarrow> wf_val (Object (omit_remove d p))"
proof (induction d p rule: omit_remove.induct)
  case (2 d k rest)
  show ?case
  proof (cases "rest \<noteq> [] \<and> (\<exists>c. bm_get k d = Some (Object c))")
    case True
    then obtain c where c: "bm_get k d = Some (Object c)" by blast
    then have "wf_val (Object (omit_remove c rest))" using 2 True wf_entry [OF 2(2) c] by simp
    then show ?thesis using wf_insert [OF 2(2)] True c by (simp del: wf_val.simps(1))
  next
    case False
    then show ?thesis using 2(2) wf_remove [OF 2(2), of k] by (auto split: option.splits val.splits)
  qed
qed simp

lemma locate_omit_all:
  fixes d ps
  assumes "list_all (\<lambda>p. p \<noteq> []) ps"
  defines "out \<equiv> fold (\<lambda>p d. omit_remove d p) ps d"
  shows "(locate (Object out) q = None \<longleftrightarrow> locate (Object d) q = None \<or> (\<exists>p \<in> set ps. prefix p q)) \<and>
    ((\<forall>p \<in> set ps. \<not> prefix p q \<and> \<not> prefix q p) \<longrightarrow> locate (Object out) q = locate (Object d) q)"
  using assms(1) unfolding out_def
proof (induction ps arbitrary: d)
  case (Cons p ps)
  have "locate (Object (omit_remove d p)) q = locate (omit_val p (Object d)) q"
    by (simp add: omit_val_def)
  then show ?case using Cons locate_omit_val [of p "Object d" q] by auto
qed simp

section \<open>What MERGE computes\<close>

definition merged :: "val option \<Rightarrow> val \<Rightarrow> val" where
  "merged old v =
     (case (old, v) of (Some (Object a), Object b) \<Rightarrow> Object (merge_doc a b) | _ \<Rightarrow> v)"

lemma merge_doc_Cons: "merge_doc d ((k, v) # rest) = merge_doc (bm_insert k (merged (bm_get k d) v) d) rest"
  by (auto simp: merged_def split: option.splits val.splits)

lemma bm_get_merge:
  "distinct (map fst i) \<Longrightarrow> bm_get q (merge_doc d i) =
     (case bm_get q i of None \<Rightarrow> bm_get q d | Some v \<Rightarrow> Some (merged (bm_get q d) v))"
proof (induction i arbitrary: d)
  case (Cons e i)
  obtain k v where e: "e = (k, v)" by force
  have "bm_get k i = None" using Cons.prems by (auto simp: e bm_get_None)
  then show ?case
    using Cons by (auto simp: e merge_doc_Cons simp del: merge_doc.simps(2) split: option.split)
qed simp

lemma wf_merge: "wf_val (Object d) \<Longrightarrow> wf_val (Object i) \<Longrightarrow> wf_val (Object (merge_doc d i))"
proof (induction "size (Object i)" arbitrary: d i rule: less_induct)
  case less
  show ?case
  proof (cases i)
    case (Cons e rest)
    obtain k v where e: "e = (k, v)" by force
    have v: "wf_val v" and rest: "wf_val (Object rest)" using less(3) by (auto simp: Cons e bm_wf_Cons)
    have "wf_val (Object (merge_doc a b))" if "bm_get k d = Some (Object a)" "v = Object b" for a b
      using less(1) [of b a] wf_entry [OF less(2) that(1)] v that(2) by (simp add: Cons e)
    then have "wf_val (merged (bm_get k d) v)"
      using v by (auto simp: merged_def split: option.splits val.splits)
    then have "wf_val (Object (bm_insert k (merged (bm_get k d) v) d))"
      using wf_insert [OF less(2)] by blast
    then show ?thesis
      using less(1) [of rest] rest by (simp add: Cons e merge_doc_Cons del: wf_val.simps(1) merge_doc.simps(2))
  qed (simp add: less(2) del: wf_val.simps(1))
qed

lemma wf_distinct: "wf_val (Object d) \<Longrightarrow> distinct (map fst d)"
  by (simp add: bm_wf_distinct)

lemma size_get: "bm_get k d = Some v \<Longrightarrow> size v < size (Object d)"
  using bm_get_SomeD [of k d v] size_object [of "(k, v)" d] by simp

lemma merge_self: "wf_val (Object d) \<Longrightarrow> merge_doc d d = d"
proof (induction "size (Object d)" arbitrary: d rule: less_induct)
  case less
  have "merged (bm_get k d) v = v" if v: "bm_get k d = Some v" for k v
  proof (cases v)
    case (Object a)
    then show ?thesis
      using less(1) [of a] size_get [OF v] wf_entry [OF less(2) v] v by (simp add: merged_def)
  qed (simp_all add: merged_def v)
  then have "bm_get k (merge_doc d d) = bm_get k d" for k
    by (auto simp: bm_get_merge [OF wf_distinct [OF less(2)]] split: option.splits)
  then show ?case
    using wf_merge [OF less(2) less(2)] less(2) by (intro bm_ext) auto
qed

lemma merge_idem:
  "wf_val (Object d) \<Longrightarrow> wf_val (Object i) \<Longrightarrow> merge_doc (merge_doc d i) i = merge_doc d i"
proof (induction "size (Object i)" arbitrary: d i rule: less_induct)
  case less
  note get = bm_get_merge [OF wf_distinct [OF less(3)]]
  have "merged (Some (merged (bm_get k d) v)) v = merged (bm_get k d) v" if v: "bm_get k i = Some v" for k v
  proof (cases v)
    case (Object b)
    have b: "wf_val (Object b)" using wf_entry [OF less(3) v] Object by simp
    have "merge_doc (merge_doc a b) b = merge_doc a b" if "bm_get k d = Some (Object a)" for a
      using less(1) [of b a] size_get [OF v] Object b wf_entry [OF less(2) that] by simp
    then show ?thesis
      using merge_self [OF b] by (auto simp: merged_def Object split: option.splits val.splits)
  qed (simp_all add: merged_def split: option.splits val.splits)
  then have "bm_get k (merge_doc (merge_doc d i) i) = bm_get k (merge_doc d i)" for k
    by (auto simp: get split: option.splits)
  then show ?case
    using wf_merge [OF wf_merge [OF less(2,3)] less(3)] wf_merge [OF less(2,3)] by (intro bm_ext) auto
qed

section \<open>What a patch keeps\<close>

lemma pb_step_Inr [simp]:
  "pb_step n b = Inr b' \<longleftrightarrow> n \<le> pb_work b \<and> b' = b\<lparr>pb_work := pb_work b - n\<rparr>"
  by (auto simp: pb_step_def)

text \<open>The result is an object with the same \<open>id\<close> member.\<close>

definition keeps_id :: "document \<Rightarrow> val \<Rightarrow> bool" where
  "keeps_id d v \<longleftrightarrow> (\<exists>d'. v = Object d' \<and> bm_get ''id'' d' = bm_get ''id'' d)"

lemma at_parent_keeps_id:
  assumes "at_parent f (Object d) ks b = Inr (v', r, b')" and "ks \<noteq> []" and "hd ks \<noteq> ''id''"
  shows "keeps_id d v'"
  using assms by (cases ks) (auto simp: keeps_id_def split: option.splits)

lemma hd_butlast: "butlast ps \<noteq> [] \<Longrightarrow> hd (butlast ps) = hd ps"
  by (cases ps) auto

lemma patch_put_keeps_id:
  assumes "patch_put (Object d) ps w adding b = Inr (v', r, b')"
  shows "keeps_id d v'"
proof (cases "butlast ps = []")
  case True
  then have "ps = [last ps]" "last ps \<noteq> ''id''"
    using assms by (cases ps; auto simp: patch_put_def writable_def split: if_splits)+
  then show ?thesis
    using assms True by (auto simp: patch_put_def put_member_def keeps_id_def split: if_splits)
next
  case False
  then have "hd (butlast ps) \<noteq> ''id''"
    using assms hd_butlast [OF False] by (auto simp: patch_put_def writable_def split: if_splits)
  then show ?thesis
    using assms at_parent_keeps_id [OF _ False] by (auto simp: patch_put_def split: if_splits)
qed

lemma patch_remove_keeps_id:
  assumes "patch_remove (Object d) ps b = Inr (v', w, b')"
  shows "keeps_id d v'"
proof (cases "butlast ps = []")
  case True
  then have "ps = [last ps]" "last ps \<noteq> ''id''"
    using assms by (cases ps; auto simp: patch_remove_def writable_def split: if_splits)+
  then show ?thesis
    using assms True by (auto simp: patch_remove_def remove_member_def keeps_id_def split: if_splits option.splits)
next
  case False
  then have "hd (butlast ps) \<noteq> ''id''"
    using assms hd_butlast [OF False] by (auto simp: patch_remove_def writable_def split: if_splits)
  then show ?thesis
    using assms at_parent_keeps_id [OF _ False] by (auto simp: patch_remove_def split: if_splits)
qed

lemma keeps_id_trans: "keeps_id d v \<Longrightarrow> (\<And>d'. v = Object d' \<Longrightarrow> keeps_id d' w) \<Longrightarrow> keeps_id d w"
  by (auto simp: keeps_id_def)

lemma keeps_id_refl: "keeps_id d (Object d)"
  by (simp add: keeps_id_def)

lemma patch_relocate_keeps_id:
  assumes "patch_relocate writes moving (Object d) fs ps b = Inr (v', b')"
  shows "keeps_id d v'"
proof -
  from assms obtain doc w b1 b2 u where
    doc: "(if moving then patch_remove (Object d) fs b
       else rbind (patch_get (Object d) fs b) (\<lambda>(w, b).
         rbind (pb_charge writes w b) (\<lambda>b. Inr (Object d, w, b)))) = Inr (doc, w, b1)"
    and put: "patch_put doc ps w True b1 = Inr (v', u, b2)"
    by (auto simp: patch_relocate_def split: if_splits)
  have "keeps_id d doc"
    using doc patch_remove_keeps_id by (cases moving) (auto simp: keeps_id_refl)
  then show ?thesis using put patch_put_keeps_id by (blast intro: keeps_id_trans)
qed

lemma patch_perform_keeps_id:
  assumes "patch_perform writes op operation ps (Object d) b = Inr (v', b')"
  shows "keeps_id d v'"
proof (cases "op = ''add'' \<or> op = ''replace'' \<or> op = ''remove'' \<or> op = ''copy'' \<or> op = ''move''")
  case True
  then show ?thesis
    using assms patch_put_keeps_id patch_remove_keeps_id patch_relocate_keeps_id
    by (elim disjE) (fastforce simp: patch_perform_def split: option.splits)+
next
  case False
  then have "v' = Object d"
    using assms by (auto simp: patch_perform_def split: if_splits option.splits)
  then show ?thesis by (simp add: keeps_id_refl)
qed

lemma patch_operation_keeps_id:
  "patch_operation writes operation (Object d) b = Inr (v', b') \<Longrightarrow> keeps_id d v'"
  by (cases operation) (auto simp: patch_operation_def dest: patch_perform_keeps_id)

lemma pb_charge_Inr:
  assumes "pb_charge writes v b = Inr b'" and "fb_used (pb_bytes b) \<le> fb_limit (pb_bytes b)"
  shows "pb_work b' = pb_work b \<and> fb_limit (pb_bytes b') = fb_limit (pb_bytes b) \<and>
    fb_used (pb_bytes b') = fb_used (pb_bytes b) + length (concat (writes v)) \<and>
    fb_used (pb_bytes b') \<le> fb_limit (pb_bytes b')"
proof -
  have fits: "fb_used (pb_bytes b) + sum_list (map length (writes v)) \<le> fb_limit (pb_bytes b)"
    using assms(1) fb_charge_err [OF assms(2), of writes v] by (cases ?thesis) (auto simp: pb_charge_def)
  show ?thesis
    using assms(1) fits fb_charge_ok [of "pb_bytes b" writes v] by (auto simp: pb_charge_def length_concat)
qed

section \<open>The budget of a patch\<close>

definition spends :: "patch_budget \<Rightarrow> patch_budget \<Rightarrow> bool" where
  "spends b b' \<longleftrightarrow>
     fb_limit (pb_bytes b') = fb_limit (pb_bytes b) \<and> pb_work b' \<le> pb_work b \<and>
     (fb_used (pb_bytes b) \<le> fb_limit (pb_bytes b) \<longrightarrow>
        fb_used (pb_bytes b) \<le> fb_used (pb_bytes b') \<and> fb_used (pb_bytes b') \<le> fb_limit (pb_bytes b'))"

lemma spends_refl [simp]: "spends b b"
  by (simp add: spends_def)

lemma spends_trans: "spends a b \<Longrightarrow> spends b c \<Longrightarrow> spends a c"
  by (auto simp: spends_def)

lemma spends_work [simp]: "spends b (b\<lparr>pb_work := pb_work b - n\<rparr>)"
  by (simp add: spends_def)

lemma spends_charge:
  assumes "pb_charge writes v b = Inr b'"
  shows "spends b b'"
proof -
  from assms obtain n where "fb_charge writes v (pb_bytes b) = (Inr n, pb_bytes b')" and "pb_work b' = pb_work b"
    by (auto simp: pb_charge_def split: prod.splits sum.splits)
  moreover from this(1) have "fb_limit (pb_bytes b') = fb_limit (pb_bytes b)"
    using fb_limit_write [of "map length (writes v)" "pb_bytes b"]
    by (auto simp: fb_charge_def split: prod.splits sum.splits)
  ultimately show ?thesis
    using pb_charge_Inr [OF assms] by (auto simp: spends_def)
qed

lemma spends_get: "patch_get v ps b = Inr (w, b') \<Longrightarrow> spends b b'"
proof (induction v ps b rule: patch_get.induct)
  case (2 v k ks b)
  then show ?case
    by (auto split: val.splits option.splits intro: spends_trans [OF spends_work])
qed simp

lemma spends_at_parent:
  assumes f: "\<And>v b v' r b'. f v b = Inr (v', r, b') \<Longrightarrow> spends b b'"
  shows "at_parent f v ks b = Inr (v', r, b') \<Longrightarrow> spends b b'"
proof (induction ks arbitrary: v b v')
  case (Cons k ks)
  then show ?case
    by (auto split: val.splits option.splits intro: spends_trans [OF spends_work])
qed (simp add: f)

lemma spends_put: "patch_put v ps w adding b = Inr (v', r, b') \<Longrightarrow> spends b b'"
  by (auto simp: patch_put_def put_member_def split: if_splits val.splits elim!: spends_at_parent [rotated])

lemma spends_remove: "patch_remove v ps b = Inr (v', r, b') \<Longrightarrow> spends b b'"
  by (auto simp: patch_remove_def remove_member_def split: if_splits val.splits option.splits
      elim!: spends_at_parent [rotated])

lemma spends_relocate: "patch_relocate writes moving v fs ps b = Inr (v', b') \<Longrightarrow> spends b b'"
  by (auto simp: patch_relocate_def split: if_splits
      dest!: spends_put spends_remove spends_get spends_charge intro: spends_trans)

lemma spends_operation: "patch_operation writes operation v b = Inr (v', b') \<Longrightarrow> spends b b'"
  by (cases operation) (auto simp: patch_operation_def patch_perform_def split: if_splits option.splits
      dest!: spends_put spends_remove spends_get spends_relocate)

lemma patch_loop_result:
  assumes "patch_loop writes ops (Object d) b = Inr (v', b')"
    and "fb_used (pb_bytes b) \<le> fb_limit (pb_bytes b)"
  shows "keeps_id d v' \<and> length ops \<le> pb_work b \<and>
    (if ops = [] then v' = Object d
     else validate v' = Inr () \<and> fb_used (pb_bytes b) + length (concat (writes v')) \<le> fb_limit (pb_bytes b))"
  using assms
proof (induction ops arbitrary: d b)
  case (Cons operation ops)
  from Cons.prems(1) obtain doc b2 b3 where
    work: "1 \<le> pb_work b"
    and op: "patch_operation writes operation (Object d) (b\<lparr>pb_work := pb_work b - 1\<rparr>) = Inr (doc, b2)"
    and valid: "validate doc = Inr ()" and charge: "pb_charge writes doc b2 = Inr b3"
    and rest: "patch_loop writes ops doc b3 = Inr (v', b')"
    by auto
  obtain d' where doc: "doc = Object d'" "bm_get ''id'' d' = bm_get ''id'' d"
    using patch_operation_keeps_id [OF op] by (auto simp: keeps_id_def)
  have b2: "fb_used (pb_bytes b2) \<le> fb_limit (pb_bytes b2)" "fb_limit (pb_bytes b2) = fb_limit (pb_bytes b)"
    "pb_work b2 \<le> pb_work b - 1" "fb_used (pb_bytes b) \<le> fb_used (pb_bytes b2)"
    using spends_operation [OF op] Cons.prems(2) by (auto simp: spends_def)
  note b3 = pb_charge_Inr [OF charge b2(1)]
  show ?case
    using Cons.IH [of d' b3] rest doc b2 b3 valid work by (cases ops) (auto simp: keeps_id_def)
qed (auto simp: keeps_id_refl)

section \<open>Members written and read back\<close>

lemma patch_index_grow:
  "patch_index k n True = Inr i \<Longrightarrow> k \<noteq> ''-'' \<Longrightarrow> patch_index k (Suc n) False = Inr i \<and> i \<le> n"
  by (auto simp: patch_index_def split: if_splits option.splits)

lemma patch_index_less: "patch_index k n False = Inr i \<Longrightarrow> i < n"
  by (auto simp: patch_index_def split: if_splits option.splits)

lemma put_then_get:
  assumes "at_parent (put_member k x adding) v ks b = Inr (v', u, b')" and "k \<noteq> ''-''"
    and "length ks < pb_work c"
  shows "\<exists>c'. patch_get v' (ks @ [k]) c = Inr (x, c')"
  using assms
proof (induction ks arbitrary: v v' b c)
  case Nil
  show ?case
  proof (cases v)
    case (Array vs)
    show ?thesis
    proof (cases adding)
      case True
      then obtain i where i: "patch_index k (length vs) True = Inr i" and "v' = Array (take i vs @ x # drop i vs)"
        using Nil by (auto simp: put_member_def Array)
      then show ?thesis using patch_index_grow [OF i Nil(2)] Nil(3) by (auto simp: nth_append)
    next
      case False
      then obtain i where i: "patch_index k (length vs) False = Inr i" and "v' = Array (vs[i := x])"
        using Nil by (auto simp: put_member_def Array)
      then show ?thesis using patch_index_less [OF i] Nil(3) by auto
    qed
  qed (use Nil in \<open>auto simp: put_member_def split: if_splits\<close>)
next
  case (Cons j js)
  let ?b = "b\<lparr>pb_work := pb_work b - 1\<rparr>" and ?c = "c\<lparr>pb_work := pb_work c - 1\<rparr>"
  show ?case
  proof (cases v)
    case (Object d)
    then obtain w w' where "bm_get j d = Some w" and w': "at_parent (put_member k x adding) w js ?b = Inr (w', u, b')"
      and "v' = Object (bm_insert j w' d)"
      using Cons.prems(1) by (auto split: option.splits)
    then show ?thesis using Cons.IH [OF w' Cons.prems(2), of ?c] Cons.prems(3) by auto
  next
    case (Array vs)
    then obtain i w' where i: "patch_index j (length vs) False = Inr i"
      and w': "at_parent (put_member k x adding) (vs ! i) js ?b = Inr (w', u, b')" and "v' = Array (vs[i := w'])"
      using Cons.prems(1) by auto
    then show ?thesis
      using Cons.IH [OF w' Cons.prems(2), of ?c] Cons.prems(3) patch_index_less [OF i] by auto
  qed (use Cons.prems in auto)
qed

text \<open>No member of that name is overwritten: the parent is an array, or an object without the key.\<close>

fun fresh_member :: "val \<Rightarrow> string list \<Rightarrow> string \<Rightarrow> bool" where
  "fresh_member v [] k \<longleftrightarrow> (case v of Object d \<Rightarrow> \<not> bm_contains k d | _ \<Rightarrow> True)"
| "fresh_member v (j # js) k \<longleftrightarrow>
     (case v of
        Object d \<Rightarrow> (case bm_get j d of None \<Rightarrow> True | Some w \<Rightarrow> fresh_member w js k)
      | Array vs \<Rightarrow> (case patch_index j (length vs) False of Inl e \<Rightarrow> True | Inr i \<Rightarrow> fresh_member (vs ! i) js k)
      | _ \<Rightarrow> True)"

lemma add_then_remove:
  assumes "at_parent (put_member k x True) v ks b = Inr (v', u, b')" and "k \<noteq> ''-''"
    and "fresh_member v ks k" and "wf_val v" and "pb_work b \<le> pb_work c" and "length ks < pb_work c"
  shows "\<exists>c'. at_parent (remove_member k) v' ks c = Inr (v, x, c')"
  using assms
proof (induction ks arbitrary: v v' b c)
  case Nil
  show ?case
  proof (cases v)
    case (Object d)
    then have "bm_get k d = None" "bm_wf d" "v' = Object (bm_insert k x d)"
      using Nil by (auto simp: put_member_def bm_contains_iff)
    then show ?thesis by (simp add: remove_member_def Object bm.rem_ins bm.rem_absent)
  next
    case (Array vs)
    then obtain i where i: "patch_index k (length vs) True = Inr i" and v': "v' = Array (take i vs @ x # drop i vs)"
      and "length vs - i + 1 \<le> pb_work b"
      using Nil by (auto simp: put_member_def)
    then show ?thesis
      using patch_index_grow [OF i Nil(2)] Nil(5) by (auto simp: remove_member_def Array nth_append Suc_diff_le)
  qed (use Nil in \<open>auto simp: put_member_def\<close>)
next
  case (Cons j js)
  let ?b = "b\<lparr>pb_work := pb_work b - 1\<rparr>" and ?c = "c\<lparr>pb_work := pb_work c - 1\<rparr>"
  have work: "pb_work ?b \<le> pb_work ?c" "length js < pb_work ?c" "1 \<le> pb_work c" using Cons.prems(5,6) by auto
  show ?case
  proof (cases v)
    case (Object d)
    then obtain w w' where w: "bm_get j d = Some w"
      and w': "at_parent (put_member k x True) w js ?b = Inr (w', u, b')" and v': "v' = Object (bm_insert j w' d)"
      using Cons.prems(1) by (auto split: option.splits)
    have d: "bm_wf d" "wf_val w" "fresh_member w js k"
      using Cons.prems(3,4) Object w wf_entry [of d j w] by auto
    from Cons.IH [OF w' Cons.prems(2) d(3,2) work(1,2)] obtain c' where
      "at_parent (remove_member k) w' js ?c = Inr (w, x, c')" by blast
    then show ?thesis using work(3) d(1) w by (simp add: v' Object bm.ins_same bm.ins_present)
  next
    case (Array vs)
    then obtain i w' where i: "patch_index j (length vs) False = Inr i"
      and w': "at_parent (put_member k x True) (vs ! i) js ?b = Inr (w', u, b')" and v': "v' = Array (vs[i := w'])"
      using Cons.prems(1) by auto
    have vs: "i < length vs" "wf_val (vs ! i)" "fresh_member (vs ! i) js k"
      using patch_index_less [OF i] Cons.prems(3,4) Array i by auto
    from Cons.IH [OF w' Cons.prems(2) vs(3,2) work(1,2)] obtain c' where
      "at_parent (remove_member k) w' js ?c = Inr (vs ! i, x, c')" by blast
    then show ?thesis using work(3) vs(1) i by (simp add: v' Array)
  qed (use Cons.prems in auto)
qed

section \<open>Pointers\<close>

definition escape_part :: "string \<Rightarrow> string" where
  "escape_part p =
     concat (map (\<lambda>c. if c = CHR ''~'' then ''~0'' else if c = CHR ''/'' then ''~1'' else [c]) p)"

definition render_pointer :: "string list \<Rightarrow> string" where
  "render_pointer ps = concat (map (\<lambda>p. CHR ''/'' # escape_part p) ps)"

lemma unescape_escape: "unescape_part (escape_part p) = Inr p"
  by (induction p) (simp_all add: escape_part_def)

lemma split_slash_part:
  "CHR ''/'' \<notin> set p \<Longrightarrow> split_slash p = [p]"
  "CHR ''/'' \<notin> set p \<Longrightarrow> split_slash (p @ CHR ''/'' # s) = p # split_slash s"
  by (induction p) auto

lemma escape_part_slash: "CHR ''/'' \<notin> set (escape_part p)"
  by (auto simp: escape_part_def split: if_splits)

lemma split_render: "ps \<noteq> [] \<Longrightarrow> split_slash (tl (render_pointer ps)) = map escape_part ps"
proof (induction ps)
  case (Cons p ps)
  then show ?case
    using escape_part_slash [of p] by (cases ps) (simp_all add: render_pointer_def split_slash_part)
qed simp

lemma pointer_parts_escape:
  "n + length ps \<le> 64 \<Longrightarrow> pointer_parts n (map escape_part ps) = Inr ps"
  by (induction ps arbitrary: n) (simp_all add: unescape_escape)

lemma pointer_render:
  assumes "ps \<noteq> []" and "length ps \<le> 64" and "length (render_pointer ps) \<le> 16384"
  shows "pointer (render_pointer ps) = Inr ps"
proof -
  have "starts_with ''/'' (render_pointer ps)"
    using assms(1) by (cases ps) (simp_all add: render_pointer_def starts_with_def)
  then show ?thesis
    using assms split_render [OF assms(1)] pointer_parts_escape [of 0 ps] by (simp add: pointer_def)
qed

section \<open>Patches keep values well formed\<close>

lemma wf_at_parent:
  assumes f: "\<And>v b v' r b'. f v b = Inr (v', r, b') \<Longrightarrow> wf_val v \<Longrightarrow> wf_val v' \<and> P r"
  shows "at_parent f v ks b = Inr (v', r, b') \<Longrightarrow> wf_val v \<Longrightarrow> wf_val v' \<and> P r"
proof (induction ks arbitrary: v b v')
  case (Cons k ks)
  let ?b = "b\<lparr>pb_work := pb_work b - 1\<rparr>"
  show ?case
  proof (cases v)
    case (Object d)
    then obtain w w' where w: "bm_get k d = Some w" and w': "at_parent f w ks ?b = Inr (w', r, b')"
      and v': "v' = Object (bm_insert k w' d)"
      using Cons.prems(1) by (auto split: option.splits)
    then have "wf_val w' \<and> P r" using Cons.IH [OF w'] Cons.prems(2) wf_entry [of d k w] Object by simp
    then show ?thesis using wf_insert [of d w' k] Cons.prems(2) by (simp add: v' Object del: wf_val.simps(1))
  next
    case (Array vs)
    then obtain i w' where i: "patch_index k (length vs) False = Inr i"
      and w': "at_parent f (vs ! i) ks ?b = Inr (w', r, b')" and v': "v' = Array (vs[i := w'])"
      using Cons.prems(1) by auto
    then have "wf_val w' \<and> P r"
      using Cons.IH [OF w'] Cons.prems(2) patch_index_less [OF i] by (simp add: Array)
    then show ?thesis using Cons.prems(2) by (auto simp: v' Array dest!: set_update_subset_insert [THEN subsetD])
  qed (use Cons.prems in auto)
qed (use f in simp)

lemma wf_put_member:
  assumes "put_member k x adding v b = Inr (v', r, b')" and "wf_val v" and "wf_val x"
  shows "wf_val v'"
proof (cases v)
  case (Object d)
  then show ?thesis
    using assms wf_insert [of d x k] by (auto simp: put_member_def simp del: wf_val.simps(1) split: if_splits)
next
  case (Array vs)
  then show ?thesis
    using assms by (auto simp: put_member_def split: if_splits
        dest!: set_update_subset_insert [THEN subsetD] in_set_takeD in_set_dropD)
qed (use assms in \<open>auto simp: put_member_def\<close>)

lemma wf_remove_member:
  assumes "remove_member k v b = Inr (v', w, b')" and "wf_val v"
  shows "wf_val v' \<and> wf_val w"
proof (cases v)
  case (Object d)
  then obtain u where "bm_get k d = Some u" "v' = Object (bm_remove k d)" "w = u"
    using assms(1) by (auto simp: remove_member_def split: option.splits)
  then show ?thesis using wf_remove [of d k] wf_entry [of d k u] assms(2) Object by (simp del: wf_val.simps(1))
next
  case (Array vs)
  then show ?thesis
    using assms by (auto simp: remove_member_def dest!: patch_index_less in_set_takeD in_set_dropD)
qed (use assms in \<open>auto simp: remove_member_def\<close>)

lemma wf_put: "patch_put v ps x adding b = Inr (v', r, b') \<Longrightarrow> wf_val v \<Longrightarrow> wf_val x \<Longrightarrow> wf_val v'"
  using wf_at_parent [of "put_member (last ps) x adding" "\<lambda>_. True"] wf_put_member
  by (auto simp: patch_put_def split: if_splits)

lemma wf_patch_remove: "patch_remove v ps b = Inr (v', w, b') \<Longrightarrow> wf_val v \<Longrightarrow> wf_val v' \<and> wf_val w"
  using wf_at_parent [of "remove_member (last ps)" wf_val, OF wf_remove_member]
  by (auto simp: patch_remove_def split: if_splits)

lemma wf_get: "patch_get v ps b = Inr (w, b') \<Longrightarrow> wf_val v \<Longrightarrow> wf_val w"
proof (induction v ps b rule: patch_get.induct)
  case (2 v k ks b)
  show ?case
  proof (cases v)
    case (Object d)
    then show ?thesis using 2 wf_entry [of d k] by (auto simp del: wf_val.simps(1) split: option.splits)
  next
    case (Array vs)
    then show ?thesis using 2 by (auto dest: patch_index_less)
  qed (use 2 in auto)
qed simp

lemma wf_relocate:
  "patch_relocate writes moving v fs ps b = Inr (v', b') \<Longrightarrow> wf_val v \<Longrightarrow> wf_val v'"
  by (auto simp: patch_relocate_def split: if_splits dest!: wf_patch_remove dest: wf_put wf_get)

lemma wf_perform:
  assumes run: "patch_perform writes op operation ps v b = Inr (v', b')" and v: "wf_val v"
    and vals: "\<And>k x. bm_get k operation = Some x \<Longrightarrow> wf_val x"
  shows "wf_val v'"
proof -
  consider "op = ''add'' \<or> op = ''replace''" | "op = ''remove''" | "op = ''copy'' \<or> op = ''move''"
    | "op \<notin> {''add'', ''replace'', ''remove'', ''copy'', ''move''}" by blast
  then show ?thesis
  proof cases
    case 1
    then obtain w u b1 where "bm_get ''value'' operation = Some w"
      "patch_put v ps w (op = ''add'') b = Inr (v', u, b1)"
      using run by (auto simp: patch_perform_def split: option.splits)
    then show ?thesis using wf_put v vals by blast
  next
    case 2
    then obtain w b1 where "patch_remove v ps b = Inr (v', w, b1)"
      using run by (auto simp: patch_perform_def)
    then show ?thesis using wf_patch_remove v by blast
  next
    case 3
    then obtain fs where "patch_relocate writes (op = ''move'') v fs ps b = Inr (v', b')"
      using run by (auto simp: patch_perform_def)
    then show ?thesis using wf_relocate v by blast
  next
    case 4
    then have "v' = v" using run by (auto simp: patch_perform_def split: if_splits option.splits)
    then show ?thesis using v by simp
  qed
qed

lemma wf_operation:
  assumes "patch_operation writes operation v b = Inr (v', b')" and "wf_val v" and "wf_val operation"
  shows "wf_val v'"
proof (cases operation)
  case (Object d)
  then obtain op ps where "patch_perform writes op d ps v b = Inr (v', b')"
    using assms(1) by (auto simp: patch_operation_def)
  moreover have "wf_val x" if "bm_get k d = Some x" for k x
    using assms(3) wf_entry [OF _ that] Object by blast
  ultimately show ?thesis using wf_perform assms(2) by blast
qed (use assms in \<open>auto simp: patch_operation_def\<close>)

lemma wf_patch_loop:
  "patch_loop writes ops v b = Inr (v', b') \<Longrightarrow> wf_val v \<Longrightarrow> wf_val (Array ops) \<Longrightarrow> wf_val v'"
  by (induction ops arbitrary: v b) (auto dest: wf_operation)

section \<open>Whole patches and mutations\<close>

lemma patch_run_Inr:
  assumes "patch_run writes doc_writes before v = Inr (v', b')"
  obtains ops b where "v = Array ops" "length ops \<le> 1024"
    "patch_loop writes ops (Object before) b = Inr (v', b')"
    "fb_used (pb_bytes b) = length (concat (writes v)) + length (concat (doc_writes before))"
    "fb_used (pb_bytes b) \<le> fb_limit (pb_bytes b)" "fb_limit (pb_bytes b) = 64 * 1024 * 1024"
proof -
  from assms obtain b1 where charge: "pb_charge writes v patch_budget_init = Inr b1"
    by (auto simp: patch_run_def)
  with assms obtain ops where v: "v = Array ops"
    by (cases v) (simp_all add: patch_run_def)
  let ?ns = "map length (doc_writes before)"
  obtain r b2 where seq: "seq_all fb_write ?ns (pb_bytes b1) = (r, b2)" by force
  have ok: "length ops \<le> 1024" "r = Inr ()"
    using assms charge seq by (cases r; simp add: patch_run_def v split: if_splits)+
  have loop: "patch_loop writes ops (Object before) (b1\<lparr>pb_bytes := b2\<rparr>) = Inr (v', b')"
    using assms charge seq ok by (simp add: patch_run_def v split: if_splits)
  have b1: "fb_used (pb_bytes b1) \<le> fb_limit (pb_bytes b1)" "fb_limit (pb_bytes b1) = 64 * 1024 * 1024"
    "fb_used (pb_bytes b1) = length (concat (writes v))"
    using pb_charge_Inr [OF charge] by (simp_all add: patch_budget_init_def)
  have "fb_used (pb_bytes b1) + sum_list ?ns \<le> fb_limit (pb_bytes b1)"
    using fetches.add_all_iff [OF b1(1) b1(1), of ?ns] seq ok(2) by simp
  then have b2: "fb_used b2 = length (concat (writes v)) + length (concat (doc_writes before))"
      "fb_used b2 \<le> fb_limit b2" "fb_limit b2 = 64 * 1024 * 1024"
    using fetches.add_all_ok [OF b1(1), of ?ns] seq b1(2,3) by (auto simp: length_concat)
  show thesis using that [OF v ok(1) loop] b2 by simp
qed

lemma patch_apply_run:
  assumes "patch_apply writes doc_writes before v = r"
  obtains e where "r = Some (Inl e)"
  | ops d b b' where "v = Array ops" "length ops \<le> 1024" "r = Some (Inr d)"
      "patch_loop writes ops (Object before) b = Inr (Object d, b')"
      "fb_used (pb_bytes b) = length (concat (writes v)) + length (concat (doc_writes before))"
      "fb_used (pb_bytes b) \<le> fb_limit (pb_bytes b)" "fb_limit (pb_bytes b) = 64 * 1024 * 1024"
proof (cases "patch_run writes doc_writes before v")
  case (Inl e)
  then have "r = Some (Inl e)" using assms by (simp add: patch_apply_def)
  then show ?thesis by (rule that(1))
next
  case (Inr p)
  then obtain v' b' where run: "patch_run writes doc_writes before v = Inr (v', b')" by (cases p) simp
  then show ?thesis
  proof (rule patch_run_Inr)
    fix ops b
    assume v: "v = Array ops" "length ops \<le> 1024"
      and loop: "patch_loop writes ops (Object before) b = Inr (v', b')"
      and b: "fb_used (pb_bytes b) = length (concat (writes v)) + length (concat (doc_writes before))"
        "fb_used (pb_bytes b) \<le> fb_limit (pb_bytes b)" "fb_limit (pb_bytes b) = 64 * 1024 * 1024"
    obtain d where d: "v' = Object d"
      using patch_loop_result [OF loop b(2)] by (auto simp: keeps_id_def)
    have "r = Some (Inr d)" using assms run by (simp add: patch_apply_def d)
    then show ?thesis using that(2) [OF v _ _ b] loop by (simp add: d)
  qed
qed

lemma patch_apply_total: "patch_apply writes doc_writes before v \<noteq> None"
  by (rule patch_apply_run [OF refl]) auto

lemma mutation_total: "mutation_apply writes doc_writes mode before v \<noteq> None"
  using patch_apply_total by (auto simp: mutation_apply_def split: val.splits option.splits)

section \<open>Properties\<close>

text \<open>C7: every mutation (\<open>CONTENT\<close>, \<open>MERGE\<close>, \<open>PATCH\<close>) keeps the identity of its document. It always returns,
its \<open>unreachable!\<close> included, and a document it produces has the \<open>id\<close> member of the document before and is
again well formed (sorted maps, 64-bit integers).\<close>

theorem mutation_keeps_id:
  assumes "wf_val (Object before)" and "wf_val v"
  shows "\<exists>r. mutation_apply writes doc_writes mode before v = Some r \<and>
    (\<forall>d. r = Inr d \<longrightarrow> bm_get ''id'' d = bm_get ''id'' before \<and> wf_val (Object d))"
proof (cases "mode = Patch")
  case True
  show ?thesis
  proof (rule patch_apply_run [OF refl, of writes doc_writes before v])
    fix ops d b b'
    assume v: "v = Array ops" and r: "patch_apply writes doc_writes before v = Some (Inr d)"
      and loop: "patch_loop writes ops (Object before) b = Inr (Object d, b')"
      and b: "fb_used (pb_bytes b) \<le> fb_limit (pb_bytes b)"
    have "wf_val (Object d)" using wf_patch_loop [OF loop assms(1)] assms(2) v by simp
    then show ?thesis
      using patch_loop_result [OF loop b] r True
      by (auto simp: mutation_apply_def keeps_id_def simp del: wf_val.simps(1))
  qed (simp add: mutation_apply_def True)
next
  case False
  obtain r where r: "mutation_apply writes doc_writes mode before v = Some r"
    using mutation_total by blast
  have "bm_get ''id'' d = bm_get ''id'' before \<and> wf_val (Object d)" if "r = Inr d" for d
  proof -
    from r that False obtain fs rid where v: "v = Object fs" and rid: "bm_get ''id'' before = Some (Record rid)"
      and d: "d = bm_insert ''id'' (Record rid)
        (if mode = Content then bm_remove ''id'' fs else merge_doc before (bm_remove ''id'' fs))"
      by (auto simp: mutation_apply_def Let_def split: val.splits option.splits)
    have fs: "wf_val (Object (bm_remove ''id'' fs))" using wf_remove assms(2) v by blast
    then have "wf_val (Object (merge_doc before (bm_remove ''id'' fs)))" using wf_merge [OF assms(1)] by blast
    then show ?thesis
      using fs rid wf_insert [where v = "Record rid" and k = "''id''"] by (simp add: d del: wf_val.simps(1))
  qed
  then show ?thesis using r by blast
qed

definition sample_doc :: document where
  "sample_doc = [(''id'', Record \<lparr>rec_table = ''t'', rec_key = KeyInteger 1\<rparr>), (''n'', Integer 3)]"

theorem mutation_keeps_id_witness:
  "\<exists>r. mutation_apply (\<lambda>_. []) (\<lambda>_. []) Merge sample_doc (Object [(''n'', Null)]) = Some r \<and>
     (\<forall>d. r = Inr d \<longrightarrow> bm_get ''id'' d = bm_get ''id'' sample_doc \<and> wf_val (Object d))"
  by (rule mutation_keeps_id) (simp_all add: sample_doc_def bm_wf_def i64_min_def i64_max_def)

text \<open>C25: an accepted patch stays within its limits. It is an array of at most 1024 operations. The JSON
texts of the patch, of the document before it and, when there is an operation, of the resulting document
take at most 64 MiB together, and the resulting document passes validation. A patch without operations
returns the document as it was, with no validation and no charge for the tagged form of the result.\<close>

theorem patch_bounded:
  assumes "patch_apply writes doc_writes before v = Some (Inr d)"
  shows "\<exists>ops. v = Array ops \<and> length ops \<le> 1024 \<and>
    (if ops = []
     then d = before \<and>
       length (concat (writes v)) + length (concat (doc_writes before)) \<le> 64 * 1024 * 1024
     else validate (Object d) = Inr () \<and>
       length (concat (writes v)) + length (concat (doc_writes before)) + length (concat (writes (Object d)))
         \<le> 64 * 1024 * 1024)"
proof (rule patch_apply_run [OF assms])
  fix ops d' b b'
  assume "v = Array ops" "length ops \<le> 1024" "Some (Inr d) = Some (Inr d')"
    and loop: "patch_loop writes ops (Object before) b = Inr (Object d', b')"
    and b: "fb_used (pb_bytes b) = length (concat (writes v)) + length (concat (doc_writes before))"
      "fb_used (pb_bytes b) \<le> fb_limit (pb_bytes b)" "fb_limit (pb_bytes b) = 64 * 1024 * 1024"
  then show ?thesis using patch_loop_result [OF loop b(2)] by (cases "ops = []") auto
qed simp

definition sample_patch :: val where
  "sample_patch = Array [Object [(''op'', String ''replace''), (''path'', String ''/n''), (''value'', Integer 4)]]"

theorem patch_bounded_witness:
  "patch_apply (\<lambda>_. []) (\<lambda>_. []) sample_doc sample_patch =
     Some (Inr [(''id'', Record \<lparr>rec_table = ''t'', rec_key = KeyInteger 1\<rparr>), (''n'', Integer 4)]) \<and>
   (\<exists>ops. sample_patch = Array ops \<and> length ops \<le> 1024)"
proof -
  have run: "patch_apply (\<lambda>_. []) (\<lambda>_. []) sample_doc sample_patch =
     Some (Inr [(''id'', Record \<lparr>rec_table = ''t'', rec_key = KeyInteger 1\<rparr>), (''n'', Integer 4)])"
    by code_simp
  from patch_bounded [OF run] run show ?thesis by blast
qed

text \<open>C24: patch operations are inverse to each other where they should be. A value added or replaced at a
pointer is what reading the pointer returns; and removing a newly added member gives back the value as
it was, together with the added member, within the work the addition took.\<close>

theorem patch_member_laws:
  assumes "patch_put v ps x adding b = Inr (v', u, b')" and "last ps \<noteq> ''-''"
    and "length ps \<le> pb_work c" and "pb_work b \<le> pb_work c"
  shows "(\<exists>c'. patch_get v' ps c = Inr (x, c')) \<and>
    (adding \<and> fresh_member v (butlast ps) (last ps) \<and> wf_val v \<longrightarrow>
      (\<exists>c'. patch_remove v' ps c = Inr (v, x, c')))"
proof -
  have ps: "ps \<noteq> []" "writable ps = Inr ()"
    and put: "at_parent (put_member (last ps) x adding) v (butlast ps) b = Inr (v', u, b')"
    using assms(1) by (auto simp: patch_put_def split: if_splits)
  have len: "length (butlast ps) < pb_work c" using assms(3) ps(1) by (cases ps) auto
  have "\<exists>c'. patch_get v' ps c = Inr (x, c')"
    using put_then_get [OF put assms(2) len] ps(1) by simp
  moreover have "\<exists>c'. patch_remove v' ps c = Inr (v, x, c')"
    if "adding" "fresh_member v (butlast ps) (last ps)" "wf_val v"
    using add_then_remove [OF _ assms(2) that(2,3) assms(4) len] put that(1) ps by (simp add: patch_remove_def)
  ultimately show ?thesis by blast
qed

theorem patch_member_laws_witness:
  "\<exists>v' b'. patch_put (Object [(''a'', Array [Null])]) [''a'', ''0''] (Integer 7) True
       \<lparr>pb_bytes = \<lparr>fb_used = 0, fb_limit = 9\<rparr>, pb_work = 9\<rparr> = Inr (v', (), b') \<and>
     (\<exists>c'. patch_get v' [''a'', ''0''] \<lparr>pb_bytes = \<lparr>fb_used = 0, fb_limit = 9\<rparr>, pb_work = 9\<rparr> = Inr (Integer 7, c'))"
proof -
  have put: "patch_put (Object [(''a'', Array [Null])]) [''a'', ''0''] (Integer 7) True
       \<lparr>pb_bytes = \<lparr>fb_used = 0, fb_limit = 9\<rparr>, pb_work = 9\<rparr> =
     Inr (Object [(''a'', Array [Integer 7, Null])], (), \<lparr>pb_bytes = \<lparr>fb_used = 0, fb_limit = 9\<rparr>, pb_work = 6\<rparr>)"
    by code_simp
  show ?thesis
    using patch_member_laws [OF put, of "\<lparr>pb_bytes = \<lparr>fb_used = 0, fb_limit = 9\<rparr>, pb_work = 9\<rparr>"] put by auto
qed

text \<open>C37: pointers round-trip: a path rendered with \<open>~\<close> and \<open>/\<close> escaped is read back as the path.\<close>

theorem pointer_roundtrip:
  assumes "ps \<noteq> []" and "length ps \<le> 64" and "length (render_pointer ps) \<le> 16384"
  shows "pointer (render_pointer ps) = Inr ps"
  by (rule pointer_render [OF assms])

theorem pointer_roundtrip_witness:
  "pointer (render_pointer [''a/b'', '''', ''~'']) = Inr [''a/b'', '''', ''~'']"
  by (rule pointer_roundtrip) (simp_all add: render_pointer_def escape_part_def)

text \<open>C22: \<open>OMIT\<close> removes exactly the named paths. A path of the result is absent exactly when it was absent
before or lies at or below an omitted path, and a path unrelated to every omitted one keeps its value.\<close>

theorem omit_exact:
  assumes "omit_apply parse_paths d encoded = Inr out"
  shows "\<exists>ps. parse_paths encoded = Some ps \<and>
    (\<forall>q. locate out q = None \<longleftrightarrow> locate (Object d) q = None \<or> (\<exists>p \<in> set ps. prefix p q)) \<and>
    (\<forall>q. (\<forall>p \<in> set ps. \<not> prefix p q \<and> \<not> prefix q p) \<longrightarrow> locate out q = locate (Object d) q)"
proof -
  from assms obtain ps where ps: "parse_paths encoded = Some ps" "list_all (\<lambda>p. p \<noteq> []) ps"
    and out: "out = Object (fold (\<lambda>p d. omit_remove d p) ps d)"
    by (auto simp: omit_apply_def list_ex_iff list_all_iff split: option.splits if_splits)
  then show ?thesis using locate_omit_all [OF ps(2), of d] by (intro exI [of _ ps]) auto
qed

theorem omit_exact_witness:
  "omit_apply (\<lambda>_. Some [[''n'']]) sample_doc '''' = Inr (Object [(''id'', Record \<lparr>rec_table = ''t'', rec_key = KeyInteger 1\<rparr>)]) \<and>
   locate (Object [(''id'', Record \<lparr>rec_table = ''t'', rec_key = KeyInteger 1\<rparr>)]) [''n''] = None"
proof -
  have run: "omit_apply (\<lambda>_. Some [[''n'']]) sample_doc '''' =
      Inr (Object [(''id'', Record \<lparr>rec_table = ''t'', rec_key = KeyInteger 1\<rparr>)])"
    by (simp add: omit_apply_def sample_doc_def bm_remove_def)
  from omit_exact [OF run] run show ?thesis by auto
qed

text \<open>C23: \<open>MERGE\<close> is a deep merge. A key of the incoming document wins, except that two objects are merged
recursively; other keys are kept; and merging the same document twice changes nothing more.\<close>

theorem merge_semantics:
  assumes "wf_val (Object d)" and "wf_val (Object i)"
  shows "bm_get k (merge_doc d i) =
      (case (bm_get k d, bm_get k i) of
         (old, None) \<Rightarrow> old
       | (Some (Object a), Some (Object b)) \<Rightarrow> Some (Object (merge_doc a b))
       | (_, Some v) \<Rightarrow> Some v) \<and>
    wf_val (Object (merge_doc d i)) \<and> merge_doc (merge_doc d i) i = merge_doc d i"
proof -
  have "bm_get k (merge_doc d i) =
      (case (bm_get k d, bm_get k i) of
         (old, None) \<Rightarrow> old
       | (Some (Object a), Some (Object b)) \<Rightarrow> Some (Object (merge_doc a b))
       | (_, Some v) \<Rightarrow> Some v)"
    using bm_get_merge [OF wf_distinct [OF assms(2)], of k d]
    by (auto simp: merged_def split: option.splits val.splits)
  then show ?thesis using wf_merge [OF assms] merge_idem [OF assms] by blast
qed

theorem merge_semantics_witness:
  "bm_get ''a'' (merge_doc [(''a'', Object [(''x'', Null)])] [(''a'', Object [(''y'', Null)])]) =
   Some (Object (merge_doc [(''x'', Null)] [(''y'', Null)]))"
  using merge_semantics [of "[(''a'', Object [(''x'', Null)])]" "[(''a'', Object [(''y'', Null)])]" "''a''"]
  by (simp add: bm_wf_def)

end
