(* ===== verification/Graph_Search.thy ===== *)
theory Graph_Search
  imports Values "HOL-Library.Product_Lexorder"
begin

text \<open>
  Bounded graph traversal, \<open>fastdb/frontend/src/graph/query.rs\<close>: the limits, the work counters, the
  reading of adjacency entries, the edge and node filters with their caches, and the three traversals:
  \<open>fixed\<close> (a sequence of hops), \<open>reachable\<close> (breadth-first) and \<open>paths\<close> (simple paths).

  A method of \<open>Traversal\<close> maps the state to an error or a result with the next state; an error ends
  the statement, and the state with it. What the engine answers is a parameter: \<open>read outgoing
  chunk\<close> are the rows of the adjacency query of a chunk of nodes, a row that is not three blobs being
  \<open>None\<close>, or an error (cancellation, a plan without the index, an engine error). A filter of a hop is
  the function that reads the document of an id and evaluates the predicate on it, \<open>None\<close> when there
  is no document. A \<open>HashMap\<close> that is only looked up is a function; the visited map is the list of its
  entries, newest first.
\<close>

section \<open>Limits and counters\<close>

record graph_limits =
  max_depth :: nat
  max_adjacency_entries :: nat
  max_expansions :: nat
  max_retained_nodes :: nat
  max_path_states :: nat
  max_graph_rows :: nat
  max_bytes :: nat

definition default_limits :: graph_limits where
  "default_limits =
     \<lparr>max_depth = 32, max_adjacency_entries = 100000, max_expansions = 100000,
      max_retained_nodes = 50000, max_path_states = 10000, max_graph_rows = 10000,
      max_bytes = 32 * 1024 * 1024\<rparr>"

definition limits_within :: "graph_limits \<Rightarrow> graph_limits \<Rightarrow> bool" where
  "limits_within l c \<longleftrightarrow>
     max_depth l \<le> max_depth c \<and> max_adjacency_entries l \<le> max_adjacency_entries c \<and>
     max_expansions l \<le> max_expansions c \<and> max_retained_nodes l \<le> max_retained_nodes c \<and>
     max_path_states l \<le> max_path_states c \<and> max_graph_rows l \<le> max_graph_rows c \<and>
     max_bytes l \<le> max_bytes c"

definition set_graph_limits :: "graph_limits \<Rightarrow> graph_limits \<Rightarrow> (ferror + unit) \<times> graph_limits" where
  "set_graph_limits l current =
     (if \<not> limits_within l default_limits
      then (Inl (Validation ''graph limits can only be lowered below the defaults''), current)
      else (Inr (), l))"

record graph_counters =
  adjacency_entries :: nat
  expansions :: nat
  documents :: nat
  result_rows :: nat
  visited_nodes :: nat
  peak_bytes :: nat

record hop =
  hop_outgoing :: bool
  hop_incoming :: bool
  edge_predicate :: "(string \<Rightarrow> ferror + bool option) option"
  node_predicate :: "(string \<Rightarrow> ferror + bool option) option"

record path_state =
  path_nodes :: "string list"
  path_edges :: "string list"

record graph_row =
  row_node :: string
  row_edge :: "string option"
  row_depth :: nat
  row_path :: "(string list \<times> string list) option"

record traversal =
  t_limits :: graph_limits
  t_counters :: graph_counters
  retained_bytes :: nat
  edge_matches :: "nat \<times> string \<Rightarrow> bool option"
  node_matches :: "nat \<times> string \<Rightarrow> bool option"

type_synonym 'a trav = "traversal \<Rightarrow> ferror + 'a \<times> traversal"

definition tret :: "'a \<Rightarrow> 'a trav" where
  "tret x t = Inr (x, t)"

definition tbind :: "'a trav \<Rightarrow> ('a \<Rightarrow> 'b trav) \<Rightarrow> 'b trav" where
  "tbind m f t = rbind (m t) (\<lambda>(x, t'). f x t')"

text \<open>\<open>for x in xs\<close> with the local variables the loop changes as an accumulator.\<close>

fun for_each :: "'x list \<Rightarrow> ('x \<Rightarrow> 'a \<Rightarrow> 'a trav) \<Rightarrow> 'a \<Rightarrow> 'a trav" where
  "for_each [] body acc = tret acc"
| "for_each (x # xs) body acc = tbind (body x acc) (for_each xs body)"

definition graph_limit :: "string \<Rightarrow> nat \<Rightarrow> ferror" where
  "graph_limit what n = Limit (''graph '' @ what @ '' exceeds '' @ show_nat n)"

definition retain :: "nat \<Rightarrow> unit trav" where
  "retain bytes t =
     (let r = retained_bytes t + bytes + 16;
          c = t_counters t;
          t' = t\<lparr>retained_bytes := r, t_counters := c\<lparr>peak_bytes := max (peak_bytes c) r\<rparr>\<rparr>
      in if max_bytes (t_limits t) < r then Inl (graph_limit ''retained bytes'' (max_bytes (t_limits t)))
         else Inr ((), t'))"

definition expansion :: "unit trav" where
  "expansion t =
     (let c = t_counters t; n = expansions c + 1
      in if max_expansions (t_limits t) < n
         then Inl (graph_limit ''expansions'' (max_expansions (t_limits t)))
         else Inr ((), t\<lparr>t_counters := c\<lparr>expansions := n\<rparr>\<rparr>))"

definition row_limit :: "nat \<Rightarrow> unit trav" where
  "row_limit rows t =
     (if max_graph_rows (t_limits t) < rows
      then Inl (graph_limit ''rows'' (max_graph_rows (t_limits t)))
      else Inr ((), t))"

section \<open>Adjacency\<close>

type_synonym adjacency = "(string \<times> string) list"

function chunks :: "nat \<Rightarrow> 'a list \<Rightarrow> 'a list list" where
  "chunks n xs = (if xs = [] \<or> n = 0 then [] else take n xs # chunks n (drop n xs))"
  by pat_completeness auto
termination
  by (relation "measure (\<lambda>(n, xs). length xs)") auto

declare chunks.simps [simp del]

definition add_entry ::
  "string list \<Rightarrow> (string \<times> string \<times> string) option \<Rightarrow> (string \<Rightarrow> adjacency) \<Rightarrow> (string \<Rightarrow> adjacency) trav" where
  "add_entry chunk row found t =
     (case row of
        None \<Rightarrow> Inl (Storage ''invalid adjacency entry'')
      | Some (source, target, edge) \<Rightarrow>
          let c = t_counters t; n = adjacency_entries c + 1
          in if max_adjacency_entries (t_limits t) < n
             then Inl (graph_limit ''adjacency entries examined'' (max_adjacency_entries (t_limits t)))
             else if source \<notin> set chunk then Inl (Storage ''unexpected adjacency entry'')
             else Inr (found(source := found source @ [(target, edge)]),
                       t\<lparr>t_counters := c\<lparr>adjacency_entries := n\<rparr>\<rparr>))"

definition read_direction ::
  "(bool \<Rightarrow> string list \<Rightarrow> ferror + (string \<times> string \<times> string) option list) \<Rightarrow> hop \<Rightarrow> string list \<Rightarrow> bool \<Rightarrow>
   (string \<Rightarrow> adjacency) \<Rightarrow> (string \<Rightarrow> adjacency) trav" where
  "read_direction read h chunk outgoing found t =
     (if \<not> (if outgoing then hop_outgoing h else hop_incoming h) then Inr (found, t)
      else rbind (read outgoing chunk) (\<lambda>rows. for_each rows (add_entry chunk) found t))"

text \<open>\<open>retain(|pair| seen.insert(pair.1))\<close>: the first pair of each edge.\<close>

fun first_per_edge :: "string set \<Rightarrow> adjacency \<Rightarrow> adjacency" where
  "first_per_edge seen [] = []"
| "first_per_edge seen (p # ps) =
     (if snd p \<in> seen then first_per_edge seen ps
      else p # first_per_edge (insert (snd p) seen) ps)"

definition finish_pairs :: "hop \<Rightarrow> adjacency \<Rightarrow> adjacency" where
  "finish_pairs h ps =
     (let ps = sort ps in if hop_outgoing h \<and> hop_incoming h then first_per_edge {} ps else ps)"

definition neighbors ::
  "(bool \<Rightarrow> string list \<Rightarrow> ferror + (string \<times> string \<times> string) option list) \<Rightarrow> hop \<Rightarrow> string list \<Rightarrow>
   (string \<Rightarrow> adjacency) trav" where
  "neighbors read h frontier =
     tbind (for_each (chunks 256 frontier)
              (\<lambda>chunk. for_each [True, False] (read_direction read h chunk)) (\<lambda>_. []))
       (\<lambda>found. tret (\<lambda>node. finish_pairs h (found node)))"

section \<open>Filters\<close>

definition count_document :: "unit trav" where
  "count_document t = Inr ((), t\<lparr>t_counters := (t_counters t)\<lparr>documents := documents (t_counters t) + 1\<rparr>\<rparr>)"

definition evaluate_filter :: "(string \<Rightarrow> ferror + bool option) \<Rightarrow> string \<Rightarrow> string \<Rightarrow> bool trav" where
  "evaluate_filter p what i =
     tbind count_document (\<lambda>_ t.
       case p i of
         Inl e \<Rightarrow> Inl e
       | Inr None \<Rightarrow> Inl (Storage (''adjacency refers to a missing '' @ what))
       | Inr (Some b) \<Rightarrow> Inr (b, t))"

definition edge_filter :: "nat \<Rightarrow> hop \<Rightarrow> string \<Rightarrow> bool trav" where
  "edge_filter step h e t =
     (case edge_predicate h of
        None \<Rightarrow> Inr (True, t)
      | Some p \<Rightarrow>
          (case edge_matches t (step, e) of
             Some b \<Rightarrow> Inr (b, t)
           | None \<Rightarrow>
               tbind (evaluate_filter p ''edge'' e)
                 (\<lambda>b t. Inr (b, t\<lparr>edge_matches := (edge_matches t)((step, e) \<mapsto> b)\<rparr>)) t))"

definition node_filter :: "nat \<Rightarrow> hop \<Rightarrow> string \<Rightarrow> bool trav" where
  "node_filter step h n t =
     (case node_predicate h of
        None \<Rightarrow> Inr (True, t)
      | Some p \<Rightarrow>
          (case node_matches t (step, n) of
             Some b \<Rightarrow> Inr (b, t)
           | None \<Rightarrow>
               tbind (evaluate_filter p ''node'' n)
                 (\<lambda>b t. Inr (b, t\<lparr>node_matches := (node_matches t)((step, n) \<mapsto> b)\<rparr>)) t))"

definition accept :: "nat \<Rightarrow> hop \<Rightarrow> string \<Rightarrow> string \<Rightarrow> bool trav" where
  "accept step h neighbor edge =
     tbind (edge_filter step h edge) (\<lambda>b. if b then node_filter step h neighbor else tret False)"

section \<open>Fixed hops\<close>

text \<open>
  The ends of the paths, without repetition, in order of first occurrence. The code reads an end with
  \<open>expect("path end")\<close>; no path of a traversal is empty (\<open>fixed_bounds\<close> and \<open>paths_bounds\<close> below), so
  \<open>last\<close> is only applied to paths that have one.
\<close>

fun dedup :: "'a set \<Rightarrow> 'a list \<Rightarrow> 'a list" where
  "dedup seen [] = []"
| "dedup seen (x # xs) = (if x \<in> seen then dedup seen xs else x # dedup (insert x seen) xs)"

definition path_ends :: "path_state list \<Rightarrow> string list" where
  "path_ends ps = dedup {} (map (\<lambda>p. last (path_nodes p)) ps)"

definition extend :: "path_state \<Rightarrow> string \<Rightarrow> string \<Rightarrow> path_state" where
  "extend p neighbor edge =
     \<lparr>path_nodes = path_nodes p @ [neighbor], path_edges = path_edges p @ [edge]\<rparr>"

definition path_bytes :: "path_state \<Rightarrow> string \<Rightarrow> string \<Rightarrow> nat" where
  "path_bytes p neighbor edge =
     length neighbor + length edge + 32 * (length (path_nodes p) + length (path_edges p))"

definition fixed_neighbor ::
  "nat \<Rightarrow> hop \<Rightarrow> path_state \<Rightarrow> string \<times> string \<Rightarrow> path_state list \<Rightarrow> path_state list trav" where
  "fixed_neighbor step h p pair next =
     tbind expansion (\<lambda>_.
       tbind (accept step h (fst pair) (snd pair)) (\<lambda>ok.
         if \<not> ok then tret next
         else (\<lambda>t.
           if max_path_states (t_limits t) \<le> length next
           then Inl (graph_limit ''path states'' (max_path_states (t_limits t)))
           else let p' = extend p (fst pair) (snd pair)
                in tbind (retain (path_bytes p' (fst pair) (snd pair))) (\<lambda>_. tret (next @ [p'])) t)))"

definition fixed_hop ::
  "(nat \<Rightarrow> bool \<Rightarrow> string list \<Rightarrow> ferror + (string \<times> string \<times> string) option list) \<Rightarrow> nat \<times> hop \<Rightarrow>
   path_state list \<Rightarrow> path_state list trav" where
  "fixed_hop read sh ps =
     tbind (neighbors (read (fst sh)) (snd sh) (path_ends ps)) (\<lambda>adjacent.
       for_each ps (\<lambda>p. for_each (adjacent (last (path_nodes p))) (fixed_neighbor (fst sh) (snd sh) p)) [])"

definition start_path :: "string \<Rightarrow> path_state" where
  "start_path root = \<lparr>path_nodes = [root], path_edges = []\<rparr>"

definition fixed_row :: "nat \<Rightarrow> bool \<Rightarrow> path_state \<Rightarrow> graph_row" where
  "fixed_row depth with_path p =
     \<lparr>row_node = last (path_nodes p),
      row_edge = (if path_edges p = [] then None else Some (last (path_edges p))),
      row_depth = depth,
      row_path = (if with_path then Some (path_nodes p, path_edges p) else None)\<rparr>"

definition fixed ::
  "(nat \<Rightarrow> bool \<Rightarrow> string list \<Rightarrow> ferror + (string \<times> string \<times> string) option list) \<Rightarrow> string \<Rightarrow> hop list \<Rightarrow> bool \<Rightarrow>
   graph_row list trav" where
  "fixed read root hops with_path =
     tbind (for_each (enumerate 0 hops) (fixed_hop read) [start_path root]) (\<lambda>ps.
       tbind (row_limit (length ps)) (\<lambda>_. tret (map (fixed_row (length hops) with_path) ps)))"

section \<open>Reachable nodes\<close>

type_synonym visited = "(string \<times> (string \<times> string) option) list"

text \<open>
  The walk from a node to the root along the parents. The fuel is the number of visited nodes, which
  no walk exceeds; \<open>None\<close> would be a walk that does not end.
\<close>

fun witness_walk ::
  "nat \<Rightarrow> visited \<Rightarrow> string \<Rightarrow> string list \<Rightarrow> string list \<Rightarrow> (string list \<times> string list) option" where
  "witness_walk 0 vs current nodes edges = None"
| "witness_walk (Suc n) vs current nodes edges =
     (case map_of vs current of
        Some (Some (parent, edge)) \<Rightarrow> witness_walk n vs parent (nodes @ [parent]) (edges @ [edge])
      | _ \<Rightarrow> Some (rev nodes, rev edges))"

definition witness_path :: "visited \<Rightarrow> string \<Rightarrow> (string list \<times> string list) option" where
  "witness_path vs node = witness_walk (length vs) vs node [node] []"

definition count_visited :: "nat \<Rightarrow> unit trav" where
  "count_visited n t =
     Inr ((), t\<lparr>t_counters := (t_counters t)\<lparr>visited_nodes := visited_nodes (t_counters t) + n\<rparr>\<rparr>)"

definition root_row :: "string \<Rightarrow> bool \<Rightarrow> graph_row" where
  "root_row root with_path =
     \<lparr>row_node = root, row_edge = None, row_depth = 0,
      row_path = (if with_path then Some ([root], []) else None)\<rparr>"

type_synonym reach_state = "visited \<times> graph_row list \<times> string list"

definition push_row ::
  "nat \<Rightarrow> nat \<Rightarrow> graph_row \<Rightarrow> graph_row list \<Rightarrow> graph_row list trav" where
  "push_row least depth row rows =
     (if least \<le> depth then tbind (row_limit (length rows + 1)) (\<lambda>_. tret (rows @ [row])) else tret rows)"

definition visit_neighbor ::
  "hop \<Rightarrow> nat \<Rightarrow> bool \<Rightarrow> nat \<Rightarrow> string \<Rightarrow> string \<times> string \<Rightarrow> reach_state \<Rightarrow> reach_state trav" where
  "visit_neighbor h least with_path depth node pair acc =
     (case acc of (vs, rows, next) \<Rightarrow>
       tbind expansion (\<lambda>_.
         if fst pair \<in> fst ` set vs then tret acc
         else tbind (accept 0 h (fst pair) (snd pair)) (\<lambda>ok.
           if \<not> ok then tret acc
           else
             let vs' = (fst pair, Some (node, snd pair)) # vs
             in tbind (count_visited 1) (\<lambda>_ t.
                  if max_retained_nodes (t_limits t) < length vs' + length next
                  then Inl (graph_limit ''retained nodes'' (max_retained_nodes (t_limits t)))
                  else tbind (retain (length (fst pair) * 2 + length (snd pair) + 48)) (\<lambda>_.
                    tbind (push_row least depth
                             \<lparr>row_node = fst pair, row_edge = Some (snd pair), row_depth = depth,
                              row_path = (if with_path then witness_path vs' (fst pair) else None)\<rparr> rows)
                      (\<lambda>rows'. tret (vs', rows', next @ [fst pair]))) t))))"

fun reach_levels ::
  "(bool \<Rightarrow> string list \<Rightarrow> ferror + (string \<times> string \<times> string) option list) \<Rightarrow> hop \<Rightarrow> nat \<Rightarrow> bool \<Rightarrow>
   nat list \<Rightarrow> reach_state \<Rightarrow> reach_state trav" where
  "reach_levels read h least with_path [] acc = tret acc"
| "reach_levels read h least with_path (depth # depths) acc =
     (case acc of (vs, rows, frontier) \<Rightarrow>
       if frontier = [] then tret acc
       else tbind (neighbors read h frontier) (\<lambda>adjacent.
         tbind (for_each frontier
                  (\<lambda>node. for_each (adjacent node) (visit_neighbor h least with_path depth node))
                  (vs, rows, []))
           (reach_levels read h least with_path depths)))"

definition reachable_rows ::
  "(bool \<Rightarrow> string list \<Rightarrow> ferror + (string \<times> string \<times> string) option list) \<Rightarrow> string \<Rightarrow> hop \<Rightarrow> nat \<Rightarrow> nat \<Rightarrow>
   bool \<Rightarrow> graph_row list trav" where
  "reachable_rows read root h least greatest with_path t =
     tbind
       (reach_levels read h least with_path [1 ..< greatest + 1]
          ([(root, None)], (if least = 0 then [root_row root with_path] else []), [root]))
       (\<lambda>(vs, rows, frontier). tret rows)
       (t\<lparr>t_counters := (t_counters t)\<lparr>visited_nodes := 1\<rparr>\<rparr>)"

section \<open>Simple paths\<close>

type_synonym paths_state = "graph_row list \<times> path_state list"

definition path_row :: "nat \<Rightarrow> path_state \<Rightarrow> graph_row" where
  "path_row depth p =
     \<lparr>row_node = last (path_nodes p),
      row_edge = (if path_edges p = [] then None else Some (last (path_edges p))),
      row_depth = depth, row_path = Some (path_nodes p, path_edges p)\<rparr>"

definition paths_neighbor ::
  "hop \<Rightarrow> nat \<Rightarrow> nat \<Rightarrow> nat \<Rightarrow> path_state \<Rightarrow> string \<times> string \<Rightarrow> paths_state \<Rightarrow> paths_state trav" where
  "paths_neighbor h least greatest depth p pair acc =
     (case acc of (rows, next) \<Rightarrow>
       tbind expansion (\<lambda>_.
         if fst pair \<in> set (path_nodes p) then tret acc
         else tbind (accept 0 h (fst pair) (snd pair)) (\<lambda>ok.
           if \<not> ok then tret acc
           else
             let p' = extend p (fst pair) (snd pair)
             in tbind (retain (path_bytes p' (fst pair) (snd pair))) (\<lambda>_.
                  tbind (push_row least depth (path_row depth p') rows) (\<lambda>rows t.
                    if depth < greatest
                    then if max_path_states (t_limits t) \<le> length next + length rows
                      then Inl (graph_limit ''path states'' (max_path_states (t_limits t)))
                      else Inr ((rows, next @ [p']), t)
                    else Inr ((rows, next), t))))))"

fun paths_levels ::
  "(bool \<Rightarrow> string list \<Rightarrow> ferror + (string \<times> string \<times> string) option list) \<Rightarrow> hop \<Rightarrow> nat \<Rightarrow> nat \<Rightarrow>
   nat list \<Rightarrow> paths_state \<Rightarrow> paths_state trav" where
  "paths_levels read h least greatest [] acc = tret acc"
| "paths_levels read h least greatest (depth # depths) acc =
     (case acc of (rows, active) \<Rightarrow>
       if active = [] then tret acc
       else tbind (count_visited (length (path_ends active))) (\<lambda>_.
         tbind (neighbors read h (path_ends active)) (\<lambda>adjacent.
           tbind (for_each active
                    (\<lambda>p. for_each (adjacent (last (path_nodes p))) (paths_neighbor h least greatest depth p))
                    (rows, []))
             (paths_levels read h least greatest depths))))"

definition paths_rows ::
  "(bool \<Rightarrow> string list \<Rightarrow> ferror + (string \<times> string \<times> string) option list) \<Rightarrow> string \<Rightarrow> hop \<Rightarrow> nat \<Rightarrow> nat \<Rightarrow>
   graph_row list trav" where
  "paths_rows read root h least greatest =
     tbind
       (paths_levels read h least greatest [1 ..< greatest + 1]
          ((if least = 0 then [root_row root True] else []), [start_path root]))
       (\<lambda>(rows, active). tret rows)"

section \<open>Loops\<close>

lemma tbind_Inr [simp]:
  "tbind m f t = Inr r \<longleftrightarrow> (\<exists>x t'. m t = Inr (x, t') \<and> f x t' = Inr r)"
  by (auto simp: tbind_def)

lemma tret_Inr [simp]: "tret x t = Inr r \<longleftrightarrow> r = (x, t)"
  by (auto simp: tret_def)

lemma for_each_rule:
  assumes run: "for_each xs body acc t = Inr (acc', t')" and init: "I [] acc t"
    and step: "\<And>pre x rest acc t acc' t'. xs = pre @ x # rest \<Longrightarrow> I pre acc t \<Longrightarrow>
      body x acc t = Inr (acc', t') \<Longrightarrow> I (pre @ [x]) acc' t'"
  shows "I xs acc' t'"
proof -
  have all: "for_each ys body acc t = Inr (acc', t') \<Longrightarrow> xs = pre @ ys \<Longrightarrow> I pre acc t \<Longrightarrow> I xs acc' t'" for ys pre acc t
  proof (induction ys arbitrary: pre acc t)
    case (Cons y ys)
    from Cons.prems(1) obtain acc1 t1 where
      "body y acc t = Inr (acc1, t1)" "for_each ys body acc1 t1 = Inr (acc', t')" by auto
    then show ?case using Cons.IH [of acc1 t1 "pre @ [y]"] Cons.prems(2,3) step [of pre y ys] by simp
  qed simp
  from all [OF run _ init] show ?thesis by simp
qed

section \<open>Reading adjacency\<close>

text \<open>The parts of the state that adjacency and limits leave alone.\<close>

definition same_caches :: "traversal \<Rightarrow> traversal \<Rightarrow> bool" where
  "same_caches t t' \<longleftrightarrow> edge_matches t' = edge_matches t \<and> node_matches t' = node_matches t"

lemma same_caches_refl [simp]: "same_caches t t"
  by (simp add: same_caches_def)

lemma same_caches_trans: "same_caches a b \<Longrightarrow> same_caches b c \<Longrightarrow> same_caches a c"
  by (simp add: same_caches_def)

lemma same_steps:
  "expansion t = Inr (u, t') \<Longrightarrow> same_caches t t'"
  "retain n t = Inr (u, t') \<Longrightarrow> same_caches t t'"
  "row_limit n t = Inr (u, t') \<Longrightarrow> same_caches t t'"
  "count_visited n t = Inr (u, t') \<Longrightarrow> same_caches t t'"
  by (auto simp: expansion_def retain_def row_limit_def count_visited_def same_caches_def Let_def split: if_splits)

text \<open>What the engine promises: the rows of a chunk are those of the adjacency table from its nodes.\<close>

definition reads_table ::
  "(bool \<Rightarrow> string list \<Rightarrow> ferror + (string \<times> string \<times> string) option list) \<Rightarrow>
   (bool \<Rightarrow> (string \<times> string \<times> string) set) \<Rightarrow> bool" where
  "reads_table read tab \<longleftrightarrow>
     (\<forall>out chunk rows. read out chunk = Inr rows \<longrightarrow> set rows = Some ` {r \<in> tab out. fst r \<in> set chunk})"

definition adj :: "(bool \<Rightarrow> (string \<times> string \<times> string) set) \<Rightarrow> hop \<Rightarrow> string \<Rightarrow> (string \<times> string) set" where
  "adj tab h u =
     {(v, e). hop_outgoing h \<and> (u, v, e) \<in> tab True \<or> hop_incoming h \<and> (u, v, e) \<in> tab False}"

text \<open>An edge has one other end at each of its nodes: edge ids are keys of the edge table.\<close>

definition edge_keys :: "(bool \<Rightarrow> (string \<times> string \<times> string) set) \<Rightarrow> hop \<Rightarrow> bool" where
  "edge_keys tab h \<longleftrightarrow> (\<forall>u v v' e. (v, e) \<in> adj tab h u \<and> (v', e) \<in> adj tab h u \<longrightarrow> v = v')"

lemma add_entries:
  assumes "for_each rows (add_entry chunk) found t = Inr (found', t')"
  shows "same_caches t t' \<and> (\<forall>u. set (found' u) = set (found u) \<union> {(v, e). Some (u, v, e) \<in> set rows})"
proof -
  let ?I = "\<lambda>pre f s. same_caches t s \<and>
    (\<forall>u. set (f u) = set (found u) \<union> {(v, e). Some (u, v, e) \<in> set pre})"
  show ?thesis
  proof (rule for_each_rule [where I = ?I, OF assms])
    fix pre x rest f s f' s'
    assume I: "?I pre f s" and run: "add_entry chunk x f s = Inr (f', s')"
    from run obtain a b e where x: "x = Some (a, b, e)" "f' = f(a := f a @ [(b, e)])" "same_caches s s'"
      by (auto simp: add_entry_def Let_def same_caches_def split: option.splits if_splits)
    then show "?I (pre @ [x]) f' s'" using I by (auto intro: same_caches_trans)
  qed simp
qed

lemma read_direction_Inr:
  assumes "read_direction read h chunk out found t = Inr (found', t')" and "reads_table read tab"
  shows "same_caches t t' \<and> (\<forall>u. set (found' u) = set (found u) \<union>
    {(v, e). (if out then hop_outgoing h else hop_incoming h) \<and> (u, v, e) \<in> tab out \<and> u \<in> set chunk})"
proof (cases "if out then hop_outgoing h else hop_incoming h")
  case True
  then obtain rows where rows: "read out chunk = Inr rows" "for_each rows (add_entry chunk) found t = Inr (found', t')"
    using assms(1) by (auto simp: read_direction_def split: if_splits)
  have "set rows = Some ` {r \<in> tab out. fst r \<in> set chunk}" using assms(2) rows(1) by (auto simp: reads_table_def)
  then have "Some (u, v, e) \<in> set rows \<longleftrightarrow> (u, v, e) \<in> tab out \<and> u \<in> set chunk" for u v e by auto
  then show ?thesis using add_entries [OF rows(2)] True by auto
next
  case False
  then show ?thesis using assms(1) by (auto simp: read_direction_def split: if_splits)
qed

lemma set_chunks: "0 < n \<Longrightarrow> \<Union> (set ` set (chunks n xs)) = set xs"
proof (induction n xs rule: chunks.induct)
  case (1 n xs)
  show ?case
  proof (cases "xs = []")
    case False
    then have "chunks n xs = take n xs # chunks n (drop n xs)" using 1(2) by (subst chunks.simps) simp
    then show ?thesis using 1 False set_append [of "take n xs" "drop n xs"] by simp
  qed (subst chunks.simps, simp)
qed

lemma chunk_reads:
  assumes "for_each [True, False] (read_direction read h chunk) found t = Inr (found', t')"
    and tab: "reads_table read tab"
  shows "same_caches t t' \<and>
    (\<forall>u. set (found' u) = set (found u) \<union> {p. p \<in> adj tab h u \<and> u \<in> set chunk})"
proof -
  from assms(1) obtain f s where a: "read_direction read h chunk True found t = Inr (f, s)"
    and b: "read_direction read h chunk False f s = Inr (found', t')"
    by auto
  show ?thesis
    using read_direction_Inr [OF a tab] read_direction_Inr [OF b tab] by (auto simp: adj_def intro: same_caches_trans)
qed

lemma set_first_per_edge:
  "(\<And>p q. p \<in> set ps \<Longrightarrow> q \<in> set ps \<Longrightarrow> snd p = snd q \<Longrightarrow> p = q) \<Longrightarrow>
   set (first_per_edge seen ps) = {p \<in> set ps. snd p \<notin> seen}"
proof (induction ps arbitrary: seen)
  case (Cons p ps)
  have "set (first_per_edge S ps) = {p \<in> set ps. snd p \<notin> S}" for S
    using Cons.IH [of S] Cons.prems by simp
  moreover have "q = p" if "q \<in> set ps" "snd q = snd p" for q
    using Cons.prems [of q p] that by simp
  ultimately show ?case by auto
qed simp

lemma set_finish_pairs:
  assumes "set ps = adj tab h u" and "edge_keys tab h"
  shows "set (finish_pairs h ps) = adj tab h u"
proof -
  have "p = q" if "p \<in> set ps" "q \<in> set ps" "snd p = snd q" for p q
  proof -
    have "(fst p, snd p) \<in> adj tab h u" using that(1) assms(1) by simp
    moreover have "(fst q, snd p) \<in> adj tab h u" using that(2) assms(1) by (simp add: that(3))
    ultimately have "fst p = fst q"
      using assms(2) [unfolded edge_keys_def, rule_format, of "fst p" "snd p" u "fst q"] by simp
    then show ?thesis using that(3) by (simp add: prod_eq_iff)
  qed
  then show ?thesis
    using assms(1) set_first_per_edge [of "sort ps" "{}"] by (auto simp: finish_pairs_def Let_def)
qed

lemma neighbors_Inr:
  assumes "neighbors read h frontier t = Inr (f, t')" and "reads_table read tab" and "edge_keys tab h"
  shows "same_caches t t' \<and> (\<forall>u \<in> set frontier. set (f u) = adj tab h u)"
proof -
  from assms(1) obtain found where
    run: "for_each (chunks 256 frontier) (\<lambda>chunk. for_each [True, False] (read_direction read h chunk)) (\<lambda>_. []) t =
      Inr (found, t')"
    and f: "f = (\<lambda>u. finish_pairs h (found u))"
    by (auto simp: neighbors_def simp del: for_each.simps)
  let ?I = "\<lambda>pre g s. same_caches t s \<and>
    (\<forall>u. set (g u) = {p. p \<in> adj tab h u \<and> u \<in> \<Union> (set ` set pre)})"
  have "?I (chunks 256 frontier) found t'"
  proof (rule for_each_rule [where I = ?I, OF run])
    fix pre x rest g s g' s'
    assume I: "?I pre g s" and run: "for_each [True, False] (read_direction read h x) g s = Inr (g', s')"
    show "?I (pre @ [x]) g' s'"
      using I chunk_reads [OF run assms(2)] by (auto intro: same_caches_trans)
  qed simp
  then have "same_caches t t'" "u \<in> set frontier \<Longrightarrow> set (found u) = adj tab h u" for u
    using set_chunks [of 256 frontier] by auto
  then show ?thesis using set_finish_pairs [OF _ assms(3)] by (simp add: f)
qed

section \<open>Filters\<close>

definition accepted :: "hop \<Rightarrow> string \<Rightarrow> string \<Rightarrow> bool" where
  "accepted h v e \<longleftrightarrow>
     (\<forall>p. edge_predicate h = Some p \<longrightarrow> p e = Inr (Some True)) \<and>
     (\<forall>p. node_predicate h = Some p \<longrightarrow> p v = Inr (Some True))"

text \<open>A cached verdict is the one the filter of that step gives.\<close>

definition caches_ok :: "hop list \<Rightarrow> traversal \<Rightarrow> bool" where
  "caches_ok hs t \<longleftrightarrow>
     (\<forall>i e b p. edge_matches t (i, e) = Some b \<and> i < length hs \<and> edge_predicate (hs ! i) = Some p \<longrightarrow>
        p e = Inr (Some b)) \<and>
     (\<forall>i v b p. node_matches t (i, v) = Some b \<and> i < length hs \<and> node_predicate (hs ! i) = Some p \<longrightarrow>
        p v = Inr (Some b))"

lemma caches_ok_same: "same_caches t t' \<Longrightarrow> caches_ok hs t \<Longrightarrow> caches_ok hs t'"
  by (simp add: same_caches_def caches_ok_def)

lemma evaluate_filter_Inr:
  "evaluate_filter p what i t = Inr (b, t') \<Longrightarrow> p i = Inr (Some b) \<and> same_caches t t'"
  by (auto simp: evaluate_filter_def count_document_def same_caches_def split: sum.splits option.splits)

lemma edge_filter_Inr:
  assumes "edge_filter i (hs ! i) e t = Inr (b, t')" and "caches_ok hs t" and "i < length hs"
  shows "caches_ok hs t' \<and> b = (\<forall>p. edge_predicate (hs ! i) = Some p \<longrightarrow> p e = Inr (Some True))"
proof (cases "edge_predicate (hs ! i)")
  case None
  then show ?thesis using assms by (simp add: edge_filter_def)
next
  case (Some p)
  show ?thesis
  proof (cases "edge_matches t (i, e)")
    case None
    with assms(1) Some obtain s where ev: "evaluate_filter p ''edge'' e t = Inr (b, s)"
      and t': "t' = s\<lparr>edge_matches := (edge_matches s)((i, e) \<mapsto> b)\<rparr>"
      by (auto simp: edge_filter_def)
    have "caches_ok hs s" using caches_ok_same assms(2) evaluate_filter_Inr [OF ev] by blast
    then show ?thesis using evaluate_filter_Inr [OF ev] Some by (auto simp: caches_ok_def t')
  next
    case (Some b')
    then have "p e = Inr (Some b')" using assms(2,3) \<open>edge_predicate (hs ! i) = Some p\<close>
      unfolding caches_ok_def by blast
    then show ?thesis using assms Some \<open>edge_predicate (hs ! i) = Some p\<close>
      by (auto simp: edge_filter_def)
  qed
qed

lemma node_filter_Inr:
  assumes "node_filter i (hs ! i) v t = Inr (b, t')" and "caches_ok hs t" and "i < length hs"
  shows "caches_ok hs t' \<and> b = (\<forall>p. node_predicate (hs ! i) = Some p \<longrightarrow> p v = Inr (Some True))"
proof (cases "node_predicate (hs ! i)")
  case None
  then show ?thesis using assms by (simp add: node_filter_def)
next
  case (Some p)
  show ?thesis
  proof (cases "node_matches t (i, v)")
    case None
    with assms(1) Some obtain s where ev: "evaluate_filter p ''node'' v t = Inr (b, s)"
      and t': "t' = s\<lparr>node_matches := (node_matches s)((i, v) \<mapsto> b)\<rparr>"
      by (auto simp: node_filter_def)
    have "caches_ok hs s" using caches_ok_same assms(2) evaluate_filter_Inr [OF ev] by blast
    then show ?thesis using evaluate_filter_Inr [OF ev] Some by (auto simp: caches_ok_def t')
  next
    case (Some b')
    then have "p v = Inr (Some b')" using assms(2,3) \<open>node_predicate (hs ! i) = Some p\<close>
      unfolding caches_ok_def by blast
    then show ?thesis using assms Some \<open>node_predicate (hs ! i) = Some p\<close>
      by (auto simp: node_filter_def)
  qed
qed

lemma accept_Inr:
  assumes "accept i (hs ! i) v e t = Inr (b, t')" and "caches_ok hs t" and "i < length hs"
  shows "caches_ok hs t' \<and> b = accepted (hs ! i) v e"
proof -
  from assms(1) obtain c s where c: "edge_filter i (hs ! i) e t = Inr (c, s)"
    and rest: "(if c then node_filter i (hs ! i) v else tret False) s = Inr (b, t')"
    by (auto simp: accept_def)
  note edge = edge_filter_Inr [OF c assms(2,3)]
  show ?thesis
  proof (cases c)
    case True
    then show ?thesis using edge rest node_filter_Inr [of i hs v s b t'] assms(3) by (auto simp: accepted_def)
  next
    case False
    then show ?thesis using edge rest by (auto simp: accepted_def)
  qed
qed

section \<open>Walks and distances\<close>

definition step_to ::
  "(bool \<Rightarrow> (string \<times> string \<times> string) set) \<Rightarrow> hop \<Rightarrow> string \<Rightarrow> string \<Rightarrow> string \<Rightarrow> bool" where
  "step_to tab h u v e \<longleftrightarrow> (v, e) \<in> adj tab h u \<and> accepted h v e"

primrec walk ::
  "(bool \<Rightarrow> (string \<times> string \<times> string) set) \<Rightarrow> hop \<Rightarrow> string \<Rightarrow> nat \<Rightarrow> string \<Rightarrow> bool" where
  "walk tab h root 0 v \<longleftrightarrow> v = root"
| "walk tab h root (Suc n) v \<longleftrightarrow> (\<exists>u e. walk tab h root n u \<and> step_to tab h u v e)"

definition dist ::
  "(bool \<Rightarrow> (string \<times> string \<times> string) set) \<Rightarrow> hop \<Rightarrow> string \<Rightarrow> nat \<Rightarrow> string \<Rightarrow> bool" where
  "dist tab h root d v \<longleftrightarrow> walk tab h root d v \<and> (\<forall>m < d. \<not> walk tab h root m v)"

definition valid_path ::
  "(bool \<Rightarrow> (string \<times> string \<times> string) set) \<Rightarrow> hop \<Rightarrow> string \<Rightarrow> string list \<Rightarrow> string list \<Rightarrow> bool" where
  "valid_path tab h root ns es \<longleftrightarrow>
     length ns = Suc (length es) \<and> hd ns = root \<and>
     (\<forall>i < length es. step_to tab h (ns ! i) (ns ! Suc i) (es ! i))"

lemma dist_Suc: "dist tab h root (Suc d) v \<Longrightarrow> \<exists>u e. dist tab h root d u \<and> step_to tab h u v e"
proof -
  assume d: "dist tab h root (Suc d) v"
  then obtain u e where u: "walk tab h root d u" "step_to tab h u v e" by (auto simp: dist_def)
  have "\<not> walk tab h root m u" if "m < d" for m
  proof
    assume "walk tab h root m u"
    then have "walk tab h root (Suc m) v" using u(2) by auto
    then show False using d that by (auto simp: dist_def)
  qed
  then show ?thesis using u by (auto simp: dist_def)
qed

lemma dist_less: "dist tab h root (d + k) v \<Longrightarrow> \<exists>u. dist tab h root d u"
  by (induction k arbitrary: v) (auto dest: dist_Suc)

lemma dist_unique: "dist tab h root d v \<Longrightarrow> dist tab h root d' v \<Longrightarrow> d = d'"
  by (auto simp: dist_def) (meson nat_neq_iff)

lemma walk_dist: "walk tab h root m v \<Longrightarrow> \<exists>d \<le> m. dist tab h root d v"
  using LeastI [of "\<lambda>m. walk tab h root m v" m] Least_le [of "\<lambda>m. walk tab h root m v" m]
    not_less_Least [of _ "\<lambda>m. walk tab h root m v"]
  unfolding dist_def by blast

lemma valid_path_snoc:
  assumes "valid_path tab h root ns es" and "step_to tab h (last ns) v e"
  shows "valid_path tab h root (ns @ [v]) (es @ [e])"
proof -
  have ne: "ns \<noteq> []" using assms(1) by (auto simp: valid_path_def)
  then have "last ns = ns ! length es" using assms(1) by (simp add: valid_path_def last_conv_nth)
  with ne show ?thesis
    using assms by (auto simp: valid_path_def nth_append less_Suc_eq)
qed

section \<open>The tree of visited nodes\<close>

fun tree ::
  "(bool \<Rightarrow> (string \<times> string \<times> string) set) \<Rightarrow> hop \<Rightarrow> string \<Rightarrow> visited \<Rightarrow> bool" where
  "tree tab h root [] \<longleftrightarrow> False"
| "tree tab h root ((v, None) # vs) \<longleftrightarrow> v = root \<and> vs = []"
| "tree tab h root ((v, Some (u, e)) # vs) \<longleftrightarrow>
     tree tab h root vs \<and> u \<in> fst ` set vs \<and> v \<notin> fst ` set vs \<and> step_to tab h u v e"

fun hops :: "visited \<Rightarrow> string \<Rightarrow> nat" where
  "hops [] v = 0"
| "hops ((k, p) # vs) v =
     (if v = k then (case p of None \<Rightarrow> 0 | Some (u, e) \<Rightarrow> Suc (hops vs u)) else hops vs v)"

lemma tree_parent:
  "tree tab h root vs \<Longrightarrow> map_of vs v = Some (Some (u, e)) \<Longrightarrow> u \<in> fst ` set vs"
  by (induction tab h root vs rule: tree.induct) (auto split: if_splits)

lemma witness_walk_older:
  assumes "tree tab h root vs" and "k \<notin> fst ` set vs"
  shows "v \<in> fst ` set vs \<Longrightarrow> witness_walk n ((k, p) # vs) v nodes edges = witness_walk n vs v nodes edges"
proof (induction n arbitrary: v nodes edges)
  case (Suc n)
  then have "v \<noteq> k" using assms(2) by auto
  then show ?case
    using Suc.IH tree_parent [OF assms(1)] by (auto split: option.splits)
qed simp

lemma hops_less: "tree tab h root vs \<Longrightarrow> hops vs v < length vs"
proof (induction tab h root vs arbitrary: v rule: tree.induct)
  case (3 tab h root k u e vs)
  then show ?case using "3.IH" [of u] "3.IH" [of v] by (auto intro: less_SucI)
qed auto

lemma witness_tree:
  "tree tab h root vs \<Longrightarrow> v \<in> fst ` set vs \<Longrightarrow>
   \<exists>ns es. valid_path tab h root ns es \<and> last ns = v \<and> length es = hops vs v \<and>
     (\<forall>n nodes edges. hops vs v < n \<longrightarrow>
        witness_walk n vs v nodes edges = Some (butlast ns @ rev nodes, es @ rev edges))"
proof (induction tab h root vs arbitrary: v rule: tree.induct)
  case (2 tab h root k vs)
  then have v: "v = root" "vs = []" "k = root" by auto
  have "witness_walk n [(root, None)] root nodes edges = Some (rev nodes, rev edges)" if "0 < n" for n nodes edges
    using that by (cases n) auto
  then show ?case
    using v by (intro exI [of _ "[root]"] exI [of _ "[]"]) (auto simp: valid_path_def)
next
  case (3 tab h root k u e vs)
  let ?vs = "(k, Some (u, e)) # vs"
  have t: "tree tab h root vs" "u \<in> fst ` set vs" "k \<notin> fst ` set vs" "step_to tab h u k e" using "3.prems"(1) by auto
  show ?case
  proof (cases "v = k")
    case True
    from "3.IH" [OF t(1,2)] obtain ns es where
      ns: "valid_path tab h root ns es" "last ns = u" "length es = hops vs u"
      and run: "\<forall>n nodes edges. hops vs u < n \<longrightarrow>
        witness_walk n vs u nodes edges = Some (butlast ns @ rev nodes, es @ rev edges)"
      by blast
    have ne: "ns \<noteq> []" using ns(1) by (auto simp: valid_path_def)
    have "witness_walk n ?vs k nodes edges = Some (butlast (ns @ [k]) @ rev nodes, (es @ [e]) @ rev edges)"
      if n: "Suc (hops vs u) < n" for n nodes edges
    proof -
      obtain m where m: "n = Suc m" "hops vs u < m" using n by (cases n) auto
      have "witness_walk n ?vs k nodes edges = witness_walk m vs u (nodes @ [u]) (edges @ [e])"
        using witness_walk_older [OF t(1,3,2)] by (simp add: m(1))
      also have "\<dots> = Some (butlast ns @ u # rev nodes, es @ e # rev edges)" using run m(2) by simp
      also have "butlast ns @ u # rev nodes = ns @ rev nodes"
        using ns(2) ne by (metis append_butlast_last_id append.assoc append_Cons append_Nil)
      finally show ?thesis by simp
    qed
    then show ?thesis
      using valid_path_snoc [OF ns(1), of k e] ns t(4) True
      by (intro exI [of _ "ns @ [k]"] exI [of _ "es @ [e]"]) simp
  next
    case False
    then have v: "v \<in> fst ` set vs" using "3.prems"(2) by auto
    then show ?thesis using "3.IH" [OF t(1) v] False witness_walk_older [OF t(1,3) v] by auto
  qed
qed simp

lemma witness_path_tree:
  assumes "tree tab h root vs" and "v \<in> fst ` set vs"
  shows "\<exists>ns es. witness_path vs v = Some (ns, es) \<and> valid_path tab h root ns es \<and> last ns = v \<and> length es = hops vs v"
proof -
  from witness_tree [OF assms] obtain ns es where
    ns: "valid_path tab h root ns es" "last ns = v" "length es = hops vs v"
    and "witness_path vs v = Some (butlast ns @ [v], es)"
    using hops_less [OF assms(1), of v] by (auto simp: witness_path_def)
  moreover have "butlast ns @ [v] = ns"
    using ns by (metis append_butlast_last_id length_0_conv nat.distinct(1) valid_path_def)
  ultimately show ?thesis by auto
qed

section \<open>Breadth-first search\<close>

definition row_ok ::
  "(bool \<Rightarrow> (string \<times> string \<times> string) set) \<Rightarrow> hop \<Rightarrow> string \<Rightarrow> bool \<Rightarrow> graph_row \<Rightarrow> bool" where
  "row_ok tab h root with_path r \<longleftrightarrow>
     (if with_path
      then \<exists>ns es. row_path r = Some (ns, es) \<and> valid_path tab h root ns es \<and> last ns = row_node r \<and>
        length es = row_depth r
      else row_path r = None)"

text \<open>
  What holds while a level is expanded: \<open>Q\<close> are the entries seen so far, \<open>vs0\<close> and \<open>rows0\<close> the visited
  nodes and the rows before the level.
\<close>

definition level_inv where
  "level_inv tab h root least with_path depth vs0 rows0 Q acc t \<longleftrightarrow>
     (case acc of (vs, rows, next) \<Rightarrow>
        tree tab h root vs \<and> caches_ok [h] t \<and> distinct next \<and>
        fst ` set vs = fst ` set vs0 \<union> set next \<and>
        set next = {v. \<exists>u e. (u, v, e) \<in> Q \<and> accepted h v e} - fst ` set vs0 \<and>
        (\<forall>v \<in> fst ` set vs0. hops vs v = hops vs0 v) \<and> (\<forall>v \<in> set next. hops vs v = depth) \<and>
        map (\<lambda>r. (row_node r, row_depth r)) rows =
          map (\<lambda>r. (row_node r, row_depth r)) rows0 @ (if least \<le> depth then map (\<lambda>v. (v, depth)) next else []) \<and>
        (\<forall>r \<in> set rows. row_ok tab h root with_path r))"

lemma push_row_Inr:
  "push_row least depth row rows t = Inr (rows', t') \<longleftrightarrow>
   (if least \<le> depth then rows' = rows @ [row] \<and> row_limit (length rows + 1) t = Inr ((), t')
    else rows' = rows \<and> t' = t)"
  by (auto simp: push_row_def row_limit_def split: if_splits)

lemma same_push: "push_row least depth row rows t = Inr (rows', t') \<Longrightarrow> same_caches t t'"
  using same_steps(3) [of "length rows + 1" t "()" t'] by (auto simp: push_row_Inr split: if_splits)

lemma visit_neighbor_Inr:
  assumes run: "visit_neighbor h least with_path depth u pair (vs, rows, next) t = Inr (acc', t')"
    and ok: "caches_ok [h] t"
  shows "caches_ok [h] t' \<and>
    (if fst pair \<in> fst ` set vs \<or> \<not> accepted h (fst pair) (snd pair) then acc' = (vs, rows, next)
     else acc' = ((fst pair, Some (u, snd pair)) # vs,
       (if least \<le> depth then rows @ [\<lparr>row_node = fst pair, row_edge = Some (snd pair), row_depth = depth,
          row_path = (if with_path then witness_path ((fst pair, Some (u, snd pair)) # vs) (fst pair) else None)\<rparr>]
        else rows), next @ [fst pair]))"
proof -
  obtain t1 where t1: "expansion t = Inr ((), t1)" using run by (auto simp: visit_neighbor_def)
  then have ok1: "caches_ok [h] t1" using same_steps(1) caches_ok_same ok by blast
  show ?thesis
  proof (cases "fst pair \<in> fst ` set vs")
    case True
    then show ?thesis using run t1 ok1 by (simp add: visit_neighbor_def)
  next
    case False
    obtain b t2 where b: "accept 0 h (fst pair) (snd pair) t1 = Inr (b, t2)"
      using run t1 False by (auto simp: visit_neighbor_def)
    have acc: "caches_ok [h] t2" "b = accepted h (fst pair) (snd pair)"
      using accept_Inr [of 0 "[h]" "fst pair" "snd pair" t1 b t2] b ok1 by simp_all
    show ?thesis
    proof (cases b)
      case True
      then obtain t3 t4 rows' where "count_visited 1 t2 = Inr ((), t3)"
        "retain (length (fst pair) * 2 + length (snd pair) + 48) t3 = Inr ((), t4)"
        and push: "push_row least depth \<lparr>row_node = fst pair, row_edge = Some (snd pair), row_depth = depth,
          row_path = (if with_path then witness_path ((fst pair, Some (u, snd pair)) # vs) (fst pair) else None)\<rparr>
          rows t4 = Inr (rows', t')"
        and acc': "acc' = ((fst pair, Some (u, snd pair)) # vs, rows', next @ [fst pair])"
        using run t1 False b by (auto simp: visit_neighbor_def Let_def split: if_splits)
      then have "same_caches t2 t3" "same_caches t3 t4" using same_steps(2,4) by blast+
      then have "caches_ok [h] t4" using caches_ok_same acc(1) by blast
      then have "caches_ok [h] t'" using same_push [OF push] caches_ok_same by blast
      then show ?thesis using push acc' acc(2) True False by (auto simp: push_row_Inr split: if_splits)
    next
      case False
      then show ?thesis using run t1 \<open>fst pair \<notin> fst ` set vs\<close> b acc by (auto simp: visit_neighbor_def)
    qed
  qed
qed

lemma level_step:
  assumes inv: "level_inv tab h root least with_path depth vs0 rows0 Q acc t"
    and run: "visit_neighbor h least with_path depth u pair acc t = Inr (acc', t')"
    and u: "u \<in> fst ` set vs0" "Suc (hops vs0 u) = depth" and pair: "pair \<in> adj tab h u"
  shows "level_inv tab h root least with_path depth vs0 rows0 (insert (u, fst pair, snd pair) Q) acc' t'"
proof -
  obtain vs rows "next" where acc: "acc = (vs, rows, next)" by (cases acc) auto
  obtain v e where p: "pair = (v, e)" by force
  note I = inv [unfolded level_inv_def acc prod.case]
  note r = visit_neighbor_Inr [OF run [unfolded acc], unfolded p fst_conv snd_conv]
  show ?thesis
  proof (cases "v \<in> fst ` set vs \<or> \<not> accepted h v e")
    case True
    then have "acc' = (vs, rows, next)" "caches_ok [h] t'" using r I by auto
    moreover have "set next = {w. \<exists>u' e'. (u', w, e') \<in> insert (u, v, e) Q \<and> accepted h w e'} - fst ` set vs0"
      using True I by auto
    ultimately show ?thesis
      unfolding level_inv_def p fst_conv snd_conv using I by (simp only: prod.case) blast
  next
    case False
    let ?vs = "(v, Some (u, e)) # vs"
    have st: "step_to tab h u v e" using pair False by (simp add: step_to_def p)
    have keys: "u \<in> fst ` set vs" "v \<notin> fst ` set vs" using I u(1) False by auto
    then have tree: "tree tab h root ?vs" using I st by simp
    have hv: "hops ?vs v = depth" using I u keys by auto
    have rest: "hops ?vs w = hops vs w" if "w \<in> fst ` set vs" for w using that keys by auto
    have row: "row_ok tab h root with_path \<lparr>row_node = v, row_edge = Some e, row_depth = depth,
        row_path = (if with_path then witness_path ?vs v else None)\<rparr>"
      using witness_path_tree [OF tree, of v] hv by (auto simp: row_ok_def)
    have acc': "acc' = (?vs, (if least \<le> depth then rows @ [\<lparr>row_node = v, row_edge = Some e, row_depth = depth,
        row_path = (if with_path then witness_path ?vs v else None)\<rparr>] else rows), next @ [v])" "caches_ok [h] t'"
      using r I False by auto
    have nxt: "set (next @ [v]) = {w. \<exists>u' e'. (u', w, e') \<in> insert (u, v, e) Q \<and> accepted h w e'} - fst ` set vs0"
      using I False by auto
    have new: "v \<notin> fst ` set vs0" "v \<notin> set next" using I keys by auto
    have old: "\<forall>w \<in> fst ` set vs0. hops ?vs w = hops vs0 w" "\<forall>w \<in> set (next @ [v]). hops ?vs w = depth"
      using I rest hv new by auto
    have keys': "fst ` set ?vs = fst ` set vs0 \<union> set (next @ [v])" "distinct (next @ [v])" using I new by auto
    show ?thesis
      unfolding level_inv_def acc'(1) prod.case p fst_conv snd_conv
      using I row by (intro conjI tree acc'(2) keys' nxt old) simp_all
  qed
qed

lemma level_done:
  assumes run: "for_each frontier (\<lambda>node. for_each (f node) (visit_neighbor h least with_path depth node)) (vs0, rows0, []) t =
      Inr (acc', t')"
    and f: "\<forall>u \<in> set frontier. set (f u) = adj tab h u"
    and front: "\<forall>u \<in> set frontier. u \<in> fst ` set vs0 \<and> Suc (hops vs0 u) = depth"
    and tree: "tree tab h root vs0" and ok: "caches_ok [h] t"
    and rows: "\<forall>r \<in> set rows0. row_ok tab h root with_path r"
  shows "level_inv tab h root least with_path depth vs0 rows0
    {(u, v, e). u \<in> set frontier \<and> (v, e) \<in> adj tab h u} acc' t'"
proof -
  let ?I = "\<lambda>pre acc t. level_inv tab h root least with_path depth vs0 rows0
    {(u, v, e). u \<in> set pre \<and> (v, e) \<in> adj tab h u} acc t"
  show ?thesis
  proof (rule for_each_rule [where I = ?I, OF run])
    show "?I [] (vs0, rows0, []) t" using tree ok rows by (simp add: level_inv_def)
  next
    fix pre u rest acc t acc' t'
    assume split: "frontier = pre @ u # rest" and I: "?I pre acc t"
      and inner: "for_each (f u) (visit_neighbor h least with_path depth u) acc t = Inr (acc', t')"
    let ?Q = "{(u, v, e). u \<in> set pre \<and> (v, e) \<in> adj tab h u}"
    let ?J = "\<lambda>ps acc t. level_inv tab h root least with_path depth vs0 rows0
      (?Q \<union> {(u, v, e) | v e. (v, e) \<in> set ps}) acc t"
    have u: "u \<in> fst ` set vs0" "Suc (hops vs0 u) = depth" "set (f u) = adj tab h u"
      using front f split by auto
    have "?J (f u) acc' t'"
    proof (rule for_each_rule [where I = ?J, OF inner])
      show "?J [] acc t" using I by simp
    next
      fix ps x rest acc t acc' t'
      assume s: "f u = ps @ x # rest" and J: "?J ps acc t"
        and r: "visit_neighbor h least with_path depth u x acc t = Inr (acc', t')"
      have x: "x \<in> adj tab h u" using u(3) s by auto
      have "insert (u, fst x, snd x) (?Q \<union> {(u, v, e) | v e. (v, e) \<in> set ps}) =
          ?Q \<union> {(u, v, e) | v e. (v, e) \<in> set (ps @ [x])}" by (cases x) auto
      then show "?J (ps @ [x]) acc' t'" using level_step [OF J r u(1,2) x] by simp
    qed
    moreover have "?Q \<union> {(u, v, e) | v e. (v, e) \<in> set (f u)} =
        {(u', v, e). u' \<in> set (pre @ [u]) \<and> (v, e) \<in> adj tab h u'}" using u(3) by auto
    ultimately show "?I (pre @ [u]) acc' t'" by simp
  qed
qed

text \<open>
  What holds before the level of \<open>d\<close>: everything nearer than \<open>d\<close> is visited, the frontier are the
  nodes at distance \<open>d - 1\<close>, and the rows are the nodes in range so far, each once.
\<close>

definition reach_inv where
  "reach_inv tab h root least with_path d acc t \<longleftrightarrow>
     (case acc of (vs, rows, frontier) \<Rightarrow>
        0 < d \<and> tree tab h root vs \<and> caches_ok [h] t \<and>
        fst ` set vs = {v. \<exists>m < d. walk tab h root m v} \<and> set frontier = {v. dist tab h root (d - 1) v} \<and>
        (\<forall>v \<in> fst ` set vs. dist tab h root (hops vs v) v) \<and>
        distinct (map row_node rows) \<and>
        (\<lambda>r. (row_node r, row_depth r)) ` set rows = {(v, m). least \<le> m \<and> m < d \<and> dist tab h root m v} \<and>
        (\<forall>r \<in> set rows. row_ok tab h root with_path r))"

lemma next_level:
  assumes "0 < d"
  shows "{v. \<exists>u e. dist tab h root (d - 1) u \<and> step_to tab h u v e} - {v. \<exists>m < d. walk tab h root m v} =
    {v. dist tab h root d v}"
proof -
  obtain k where d: "d = Suc k" using assms by (cases d) auto
  show ?thesis
    by (auto simp: d dist_def) (metis dist_Suc dist_def walk.simps(2))
qed

lemma reach_level:
  assumes inv: "reach_inv tab h root least with_path d (vs0, rows0, frontier) t"
    and nb: "neighbors read h frontier t = Inr (f, t1)"
    and run: "for_each frontier (\<lambda>node. for_each (f node) (visit_neighbor h least with_path d node)) (vs0, rows0, []) t1 =
      Inr (acc', t')"
    and tab: "reads_table read tab" "edge_keys tab h"
  shows "reach_inv tab h root least with_path (Suc d) acc' t'"
proof -
  note I = inv [unfolded reach_inv_def prod.case]
  note n = neighbors_Inr [OF nb tab]
  from I have I1: "0 < d" "tree tab h root vs0" "caches_ok [h] t"
    and I2: "fst ` set vs0 = {v. \<exists>m < d. walk tab h root m v}" "set frontier = {v. dist tab h root (d - 1) v}"
      "\<forall>v \<in> fst ` set vs0. dist tab h root (hops vs0 v) v"
    and I3: "distinct (map row_node rows0)"
      "(\<lambda>r. (row_node r, row_depth r)) ` set rows0 = {(v, m). least \<le> m \<and> m < d \<and> dist tab h root m v}"
      "\<forall>r \<in> set rows0. row_ok tab h root with_path r"
    by - (elim conjE, assumption)+
  have ok: "caches_ok [h] t1" by (rule caches_ok_same [OF conjunct1 [OF n] I1(3)])
  have front: "u \<in> fst ` set vs0 \<and> Suc (hops vs0 u) = d" if "u \<in> set frontier" for u
  proof -
    have u: "dist tab h root (d - 1) u" using I2(2) that by simp
    then have key: "u \<in> fst ` set vs0" unfolding I2(1) using I1(1) by (auto simp: dist_def intro: exI [of _ "d - 1"])
    then have "hops vs0 u = d - 1" using I2(3) dist_unique [OF u] by fastforce
    then show ?thesis using I1(1) key by simp
  qed
  obtain vs rows "next" where acc': "acc' = (vs, rows, next)" by (cases acc') auto
  let ?Q = "{(u, v, e). u \<in> set frontier \<and> (v, e) \<in> adj tab h u}"
  have L: "level_inv tab h root least with_path d vs0 rows0 ?Q (vs, rows, next) t'"
    by (rule level_done [OF run [unfolded acc'] conjunct2 [OF n] _ I1(2) ok I3(3)]) (use front in blast)
  note L' = L [unfolded level_inv_def prod.case]
  from L' have L1: "tree tab h root vs" "caches_ok [h] t'" "distinct next" "fst ` set vs = fst ` set vs0 \<union> set next"
    and L2: "set next = {v. \<exists>u e. (u, v, e) \<in> ?Q \<and> accepted h v e} - fst ` set vs0"
    and L3: "\<forall>v \<in> fst ` set vs0. hops vs v = hops vs0 v" "\<forall>v \<in> set next. hops vs v = d"
    and L4: "map (\<lambda>r. (row_node r, row_depth r)) rows =
      map (\<lambda>r. (row_node r, row_depth r)) rows0 @ (if least \<le> d then map (\<lambda>v. (v, d)) next else [])"
      "\<forall>r \<in> set rows. row_ok tab h root with_path r"
    by - (elim conjE, assumption)+
  have "{v. \<exists>u e. (u, v, e) \<in> ?Q \<and> accepted h v e} = {v. \<exists>u e. dist tab h root (d - 1) u \<and> step_to tab h u v e}"
    using I2(2) by (auto simp: step_to_def)
  then have nxt: "set next = {v. dist tab h root d v}"
    unfolding L2 I2(1) using next_level [OF I1(1), of tab h root] by simp
  have keys: "fst ` set vs = {v. \<exists>m < Suc d. walk tab h root m v}"
    unfolding L1(4) I2(1) nxt by (auto simp: less_Suc_eq dist_def)
  have hops: "\<forall>v \<in> fst ` set vs. dist tab h root (hops vs v) v"
  proof
    fix v assume "v \<in> fst ` set vs"
    then consider "v \<in> fst ` set vs0" | "v \<in> set next" using L1(4) by blast
    then show "dist tab h root (hops vs v) v"
    proof cases
      case 1
      then show ?thesis using bspec [OF L3(1)] bspec [OF I2(3)] by simp
    next
      case 2
      then show ?thesis using bspec [OF L3(2)] nxt by simp
    qed
  qed
  have nd: "row_node ` set rows0 \<subseteq> fst ` set vs0"
  proof
    fix v assume "v \<in> row_node ` set rows0"
    then obtain m where "(v, m) \<in> (\<lambda>r. (row_node r, row_depth r)) ` set rows0" by auto
    then show "v \<in> fst ` set vs0" unfolding I3(2) I2(1) by (auto simp: dist_def)
  qed
  have "map fst (map (\<lambda>r. (row_node r, row_depth r)) rows) =
      map fst (map (\<lambda>r. (row_node r, row_depth r)) rows0 @ (if least \<le> d then map (\<lambda>v. (v, d)) next else []))"
    using L4(1) by simp
  then have "map row_node rows = map row_node rows0 @ (if least \<le> d then next else [])"
    by (simp add: comp_def)
  moreover have "set next \<inter> fst ` set vs0 = {}" unfolding L2 by blast
  then have "row_node ` set rows0 \<inter> set next = {}" using nd by blast
  ultimately have dist_rows: "distinct (map row_node rows)" using I3(1) L1(3) by simp
  have "set (map (\<lambda>r. (row_node r, row_depth r)) rows) = {(v, m). least \<le> m \<and> m < d \<and> dist tab h root m v} \<union>
      (if least \<le> d then {(v, d) | v. dist tab h root d v} else {})"
    unfolding L4(1) using I3(2) nxt by auto
  also have "\<dots> = {(v, m). least \<le> m \<and> m < Suc d \<and> dist tab h root m v}" by (auto simp: less_Suc_eq)
  finally have "(\<lambda>r. (row_node r, row_depth r)) ` set rows = {(v, m). least \<le> m \<and> m < Suc d \<and> dist tab h root m v}"
    by simp
  then show ?thesis
    unfolding reach_inv_def acc' prod.case using L1(1,2) L4(2) keys hops dist_rows nxt by simp
qed

lemma reach_levels_done:
  assumes tab: "reads_table read tab" "edge_keys tab h"
    and run: "reach_levels read h least with_path [d ..< Suc n] acc t = Inr (acc', t')"
    and inv: "reach_inv tab h root least with_path d acc t" and le: "d \<le> Suc n"
  shows "\<exists>t'. reach_inv tab h root least with_path (Suc n) acc' t'"
  using run inv le
proof (induction "Suc n - d" arbitrary: d acc t)
  case 0
  then show ?case by auto
next
  case (Suc k)
  then have ds: "[d ..< Suc n] = d # [Suc d ..< Suc n]" by (simp add: upt_rec)
  obtain vs rows frontier where acc: "acc = (vs, rows, frontier)" by (cases acc) auto
  show ?case
  proof (cases "frontier = []")
    case True
    then have acc': "acc' = acc" using Suc.prems(1) by (simp add: ds acc del: upt_Suc)
    note I = Suc.prems(2) [unfolded reach_inv_def acc prod.case]
    have none: "\<not> dist tab h root m v" if "d \<le> Suc m" for m v
      using dist_less [of tab h root "d - 1" "m - (d - 1)" v] that I True by auto
    have near: "\<exists>k < d. walk tab h root k v" if w: "walk tab h root m v" for m v
    proof -
      obtain k where k: "dist tab h root k v" using walk_dist [OF w] by blast
      then have "k < d" using none [of k v] Suc_leD le_SucI not_le by blast
      then show ?thesis using k by (auto simp: dist_def)
    qed
    have "(\<exists>m < d. walk tab h root m v) \<longleftrightarrow> (\<exists>m < Suc n. walk tab h root m v)" for v
      using near Suc.prems(3) order_less_le_trans by blast
    then have keys: "fst ` set vs = {v. \<exists>m < Suc n. walk tab h root m v}" using I by simp
    have "m < d \<and> dist tab h root m v \<longleftrightarrow> m < Suc n \<and> dist tab h root m v" for m v
    proof (cases "d \<le> m")
      case True
      then show ?thesis using none [of m v] by simp
    next
      case False
      then show ?thesis using Suc.prems(3) by simp
    qed
    then have rows: "{(v, m). least \<le> m \<and> m < d \<and> dist tab h root m v} =
        {(v, m). least \<le> m \<and> m < Suc n \<and> dist tab h root m v}" by simp
    have "set frontier = {v. dist tab h root (Suc n - 1) v}" using none [of n] Suc.prems(3) True by simp
    then have "reach_inv tab h root least with_path (Suc n) acc' t"
      unfolding reach_inv_def acc' acc prod.case using I keys unfolding rows by blast
    then show ?thesis by blast
  next
    case False
    from Suc.prems(1) False obtain f t1 acc1 t2 where nb: "neighbors read h frontier t = Inr (f, t1)"
      and level: "for_each frontier (\<lambda>node. for_each (f node) (visit_neighbor h least with_path d node)) (vs, rows, []) t1 =
        Inr (acc1, t2)"
      and rest: "reach_levels read h least with_path [Suc d ..< Suc n] acc1 t2 = Inr (acc', t')"
      by (auto simp: ds acc simp del: upt_Suc)
    note I = reach_level [OF Suc.prems(2) [unfolded acc] nb level tab]
    show ?thesis using Suc.hyps(1) [OF _ rest I] Suc.hyps(2) by auto
  qed
qed

lemma reachable_rows_exact:
  assumes tab: "reads_table read tab" "edge_keys tab h"
    and run: "reachable_rows read root h least greatest with_path t = Inr (rows, t')"
    and ok: "caches_ok [h] t"
  shows "distinct (map row_node rows) \<and>
    (\<lambda>r. (row_node r, row_depth r)) ` set rows =
      {(v, d). least \<le> d \<and> d \<le> greatest \<and> dist tab h root d v} \<and>
    (\<forall>r \<in> set rows. row_ok tab h root with_path r)"
proof -
  let ?acc = "([(root, None)], (if least = 0 then [root_row root with_path] else []), [root])"
  let ?t = "t\<lparr>t_counters := (t_counters t)\<lparr>visited_nodes := 1\<rparr>\<rparr>"
  from run obtain vs frontier t2 where
    levels: "reach_levels read h least with_path [1 ..< Suc greatest] ?acc ?t = Inr ((vs, rows, frontier), t2)"
    by (auto simp: reachable_rows_def simp del: upt_Suc reach_levels.simps)
  have d0: "dist tab h root 0 v \<longleftrightarrow> v = root" for v by (auto simp: dist_def)
  have "caches_ok [h] ?t" using ok by (simp add: caches_ok_def)
  moreover have "row_ok tab h root with_path (root_row root with_path)"
    by (auto simp: row_ok_def root_row_def valid_path_def)
  ultimately have init: "reach_inv tab h root least with_path 1 ?acc ?t"
    by (auto simp: reach_inv_def d0 root_row_def)
  from reach_levels_done [OF tab levels init] obtain t3 where
    "reach_inv tab h root least with_path (Suc greatest) (vs, rows, frontier) t3" by auto
  then show ?thesis unfolding reach_inv_def prod.case less_Suc_eq_le by blast
qed

section \<open>Simple paths, exactly\<close>

definition simple_path ::
  "(bool \<Rightarrow> (string \<times> string \<times> string) set) \<Rightarrow> hop \<Rightarrow> string \<Rightarrow> path_state \<Rightarrow> bool" where
  "simple_path tab h root p \<longleftrightarrow> valid_path tab h root (path_nodes p) (path_edges p) \<and> distinct (path_nodes p)"

text \<open>The extensions of a set of paths with entries.\<close>

definition extensions :: "hop \<Rightarrow> (path_state \<times> string \<times> string) set \<Rightarrow> path_state set" where
  "extensions h Q = {extend p v e | p v e. (p, v, e) \<in> Q \<and> v \<notin> set (path_nodes p) \<and> accepted h v e}"

lemma extensions_simps [simp]:
  "extensions h {} = {}"
  "extensions h (insert (p, v, e) Q) =
     (if v \<notin> set (path_nodes p) \<and> accepted h v e then insert (extend p v e) (extensions h Q) else extensions h Q)"
  by (auto simp: extensions_def)

definition paths_inv where
  "paths_inv h least greatest depth rows0 Q acc t \<longleftrightarrow>
     caches_ok [h] t \<and>
     set (fst acc) = set rows0 \<union> (if least \<le> depth then path_row depth ` extensions h Q else {}) \<and>
     set (snd acc) = (if depth < greatest then extensions h Q else {})"

lemma paths_neighbor_Inr:
  assumes inv: "paths_inv h least greatest depth rows0 Q acc t"
    and run: "paths_neighbor h least greatest depth p pair acc t = Inr (acc', t')"
  shows "paths_inv h least greatest depth rows0 (insert (p, fst pair, snd pair) Q) acc' t'"
proof -
  obtain rows "next" where acc: "acc = (rows, next)" by (cases acc) auto
  obtain v e where pair: "pair = (v, e)" by force
  from inv have I: "caches_ok [h] t"
    "set rows = set rows0 \<union> (if least \<le> depth then path_row depth ` extensions h Q else {})"
    "set next = (if depth < greatest then extensions h Q else {})"
    by (auto simp: paths_inv_def acc)
  obtain t1 where t1: "expansion t = Inr ((), t1)" using run by (auto simp: paths_neighbor_def acc)
  then have ok1: "caches_ok [h] t1" using same_steps(1) caches_ok_same I(1) by blast
  show ?thesis
  proof (cases "v \<in> set (path_nodes p)")
    case True
    then have "acc' = acc" "t' = t1" using run t1 by (simp_all add: paths_neighbor_def acc pair)
    then show ?thesis using True I ok1 by (simp add: paths_inv_def acc pair)
  next
    case False
    obtain b t2 where b: "accept 0 h v e t1 = Inr (b, t2)"
      using run t1 False by (auto simp: paths_neighbor_def acc pair)
    have a: "caches_ok [h] t2" "b = accepted h v e"
      using accept_Inr [of 0 "[h]" v e t1 b t2] b ok1 by simp_all
    show ?thesis
    proof (cases b)
      case True
      let ?p = "extend p v e"
      obtain t3 rows' t4 where t3: "retain (path_bytes ?p v e) t2 = Inr ((), t3)"
        and push: "push_row least depth (path_row depth ?p) rows t3 = Inr (rows', t4)"
        and out: "(if depth < greatest then if max_path_states (t_limits t4) \<le> length next + length rows'
            then Inl (graph_limit ''path states'' (max_path_states (t_limits t4)))
            else Inr ((rows', next @ [?p]), t4) else Inr ((rows', next), t4)) = Inr (acc', t')"
        using run t1 False b True by (auto simp: paths_neighbor_def acc pair Let_def)
      have "caches_ok [h] t4"
        using same_steps(2) [OF t3] same_push [OF push] caches_ok_same a(1) by blast
      moreover have "t' = t4" "acc' = (rows', if depth < greatest then next @ [?p] else next)"
        using out by (auto split: if_splits)
      moreover have "rows' = (if least \<le> depth then rows @ [path_row depth ?p] else rows)"
        using push by (auto simp: push_row_Inr split: if_splits)
      ultimately show ?thesis using I a(2) True False by (simp add: paths_inv_def pair)
    next
      case b: False
      then have "acc' = acc" "t' = t2"
        using run t1 False \<open>accept 0 h v e t1 = Inr (b, t2)\<close> by (auto simp: paths_neighbor_def acc pair)
      then show ?thesis using I a b by (simp add: paths_inv_def acc pair)
    qed
  qed
qed

lemma paths_level:
  assumes run: "for_each active (\<lambda>p. for_each (f (last (path_nodes p))) (paths_neighbor h least greatest depth p)) (rows0, []) t =
      Inr (acc', t')"
    and f: "\<forall>p \<in> set active. set (f (last (path_nodes p))) = adj tab h (last (path_nodes p))"
    and ok: "caches_ok [h] t"
  shows "paths_inv h least greatest depth rows0
    {(p, v, e). p \<in> set active \<and> (v, e) \<in> adj tab h (last (path_nodes p))} acc' t'"
proof -
  let ?Q = "\<lambda>pre. {(p, v, e). p \<in> set pre \<and> (v, e) \<in> adj tab h (last (path_nodes p))}"
  let ?I = "\<lambda>pre. paths_inv h least greatest depth rows0 (?Q pre)"
  show ?thesis
  proof (rule for_each_rule [where I = ?I, OF run])
    have "?Q [] = {}" by simp
    then show "?I [] (rows0, []) t" using ok unfolding paths_inv_def extensions_simps(1) \<open>?Q [] = {}\<close> by simp
  next
    fix pre p rest acc t acc' t'
    assume split: "active = pre @ p # rest" and I: "?I pre acc t"
      and inner: "for_each (f (last (path_nodes p))) (paths_neighbor h least greatest depth p) acc t = Inr (acc', t')"
    let ?J = "\<lambda>ps. paths_inv h least greatest depth rows0 (?Q pre \<union> {(p, v, e) | v e. (v, e) \<in> set ps})"
    have "?J (f (last (path_nodes p))) acc' t'"
    proof (rule for_each_rule [where I = ?J, OF inner])
      show "?J [] acc t" using I by simp
    next
      fix ps x rest acc t acc' t'
      assume J: "?J ps acc t" and r: "paths_neighbor h least greatest depth p x acc t = Inr (acc', t')"
      have "insert (p, fst x, snd x) (?Q pre \<union> {(p, v, e) | v e. (v, e) \<in> set ps}) =
          ?Q pre \<union> {(p, v, e) | v e. (v, e) \<in> set (ps @ [x])}" by (cases x) auto
      then show "?J (ps @ [x]) acc' t'" using paths_neighbor_Inr [OF J r] by simp
    qed
    moreover have "?Q pre \<union> {(p, v, e) | v e. (v, e) \<in> set (f (last (path_nodes p)))} = ?Q (pre @ [p])"
      using f split by auto
    ultimately show "?I (pre @ [p]) acc' t'" by simp
  qed
qed

lemma set_dedup: "set (dedup seen xs) = set xs - seen"
  by (induction xs arbitrary: seen) auto

lemma valid_path_Suc:
  assumes "valid_path tab h root ns es" and "length es = Suc d"
  shows "\<exists>ns0 es0 v e. ns = ns0 @ [v] \<and> es = es0 @ [e] \<and> valid_path tab h root ns0 es0 \<and> length es0 = d \<and>
    step_to tab h (last ns0) v e"
proof -
  obtain es0 e where es: "es = es0 @ [e]" "length es0 = d" using assms(2) by (cases es rule: rev_cases) auto
  have "length ns = Suc (Suc d)" using assms by (simp add: valid_path_def)
  then obtain ns0 v where ns: "ns = ns0 @ [v]" "length ns0 = Suc d" by (cases ns rule: rev_cases) auto
  have "step_to tab h (ns ! d) (ns ! Suc d) (es ! d)" using assms by (simp add: valid_path_def)
  then have st: "step_to tab h (last ns0) v e"
    using ns es by (cases ns0 rule: rev_cases) (auto simp: nth_append)
  have "step_to tab h (ns0 ! i) (ns0 ! Suc i) (es0 ! i)" if "i < d" for i
  proof -
    have "step_to tab h (ns ! i) (ns ! Suc i) (es ! i)" using assms that by (simp add: valid_path_def)
    then show ?thesis using that ns es by (simp add: nth_append)
  qed
  then have "valid_path tab h root ns0 es0"
    using assms(1) ns es by (cases ns0) (auto simp: valid_path_def)
  with ns es st show ?thesis by blast
qed

text \<open>The simple paths of one more edge are the extensions of those of a length.\<close>

lemma simple_paths_Suc:
  "extensions h {(p, v, e). simple_path tab h root p \<and> length (path_edges p) = d \<and> (v, e) \<in> adj tab h (last (path_nodes p))} =
   {p. simple_path tab h root p \<and> length (path_edges p) = Suc d}" (is "?l = ?r")
proof (intro set_eqI iffI)
  fix q assume "q \<in> ?l"
  then show "q \<in> ?r"
    by (auto simp: extensions_def simple_path_def extend_def step_to_def intro!: valid_path_snoc)
next
  fix q assume q: "q \<in> ?r"
  then obtain ns es v e where "path_nodes q = ns @ [v]" "path_edges q = es @ [e]"
    "valid_path tab h root ns es" "length es = d" "step_to tab h (last ns) v e"
    unfolding simple_path_def mem_Collect_eq by (metis valid_path_Suc)
  moreover from this have "q = extend \<lparr>path_nodes = ns, path_edges = es\<rparr> v e" by (simp add: extend_def)
  ultimately show "q \<in> ?l"
    using q unfolding extensions_def simple_path_def step_to_def
    by (intro CollectI exI [of _ "\<lparr>path_nodes = ns, path_edges = es\<rparr>"] exI [of _ v] exI [of _ e]) auto
qed

definition paths_done where
  "paths_done tab h root least greatest d acc \<longleftrightarrow>
     set (fst acc) = (\<lambda>p. path_row (length (path_edges p)) p) `
       {p. simple_path tab h root p \<and> least \<le> length (path_edges p) \<and> length (path_edges p) < d} \<and>
     (d \<le> greatest \<longrightarrow> set (snd acc) = {p. simple_path tab h root p \<and> Suc (length (path_edges p)) = d})"

lemma no_longer_paths:
  assumes "\<not> (\<exists>p. simple_path tab h root p \<and> length (path_edges p) = d)"
  shows "\<not> (\<exists>p. simple_path tab h root p \<and> length (path_edges p) = d + k)"
proof (induction k)
  case (Suc k)
  then have "{(p, v, e). simple_path tab h root p \<and> length (path_edges p) = d + k \<and> (v, e) \<in> adj tab h (last (path_nodes p))} = {}"
    by blast
  from simple_paths_Suc [of h tab root "d + k", unfolded this extensions_simps] show ?case by auto
qed (use assms in simp)

lemma paths_levels_done:
  assumes tab: "reads_table read tab" "edge_keys tab h"
    and run: "paths_levels read h least greatest [d ..< Suc greatest] acc t = Inr (acc', t')"
    and inv: "paths_done tab h root least greatest d acc" and ok: "caches_ok [h] t"
    and d: "0 < d" "d \<le> Suc greatest"
  shows "paths_done tab h root least greatest (Suc greatest) acc'"
  using run inv ok d
proof (induction "Suc greatest - d" arbitrary: d acc t)
  case 0
  then have "d = Suc greatest" by simp
  then show ?case using 0 by simp
next
  case (Suc k)
  then have ds: "[d ..< Suc greatest] = d # [Suc d ..< Suc greatest]" and le: "d \<le> greatest" by (auto simp: upt_rec)
  obtain d0 where d0: "d = Suc d0" using Suc.prems(4) by (cases d) auto
  obtain rows active where acc: "acc = (rows, active)" by (cases acc) auto
  let ?S = "\<lambda>n. {p. simple_path tab h root p \<and> length (path_edges p) = n}"
  have active: "set active = ?S d0" using Suc.prems(2) le by (simp add: paths_done_def acc d0)
  have rows: "set rows = (\<lambda>p. path_row (length (path_edges p)) p) `
       {p. simple_path tab h root p \<and> least \<le> length (path_edges p) \<and> length (path_edges p) < d}"
    using Suc.prems(2) by (simp add: paths_done_def acc)
  show ?case
  proof (cases "active = []")
    case True
    then have acc': "acc' = acc" using Suc.prems(1) by (simp add: ds acc del: upt_Suc)
    have none: "\<not> (simple_path tab h root p \<and> d0 \<le> length (path_edges p))" for p
      using no_longer_paths [of tab h root d0 "length (path_edges p) - d0"] active True by auto
    have same: "simple_path tab h root p \<and> least \<le> length (path_edges p) \<and> length (path_edges p) < d \<longleftrightarrow>
        simple_path tab h root p \<and> least \<le> length (path_edges p) \<and> length (path_edges p) < Suc greatest" for p
    proof (cases "simple_path tab h root p")
      case True
      then show ?thesis using none [of p] le d0 by simp
    qed simp
    show ?thesis using rows True unfolding paths_done_def acc' acc same by simp
  next
    case False
    from Suc.prems(1) False obtain f t1 t2 acc1 t3 where
      c: "count_visited (length (path_ends active)) t = Inr ((), t1)"
      and nb: "neighbors read h (path_ends active) t1 = Inr (f, t2)"
      and level: "for_each active (\<lambda>p. for_each (f (last (path_nodes p))) (paths_neighbor h least greatest d p)) (rows, []) t2 =
        Inr (acc1, t3)"
      and rest: "paths_levels read h least greatest [Suc d ..< Suc greatest] acc1 t3 = Inr (acc', t')"
      by (auto simp: ds acc simp del: upt_Suc)
    note n = neighbors_Inr [OF nb tab]
    have "set (path_ends active) = (\<lambda>p. last (path_nodes p)) ` set active"
      by (simp add: path_ends_def set_dedup)
    then have f: "\<forall>p \<in> set active. set (f (last (path_nodes p))) = adj tab h (last (path_nodes p))" using n by auto
    have ok: "caches_ok [h] t2"
      using caches_ok_same [OF conjunct1 [OF n]] caches_ok_same [OF same_steps(4) [OF c] Suc.prems(3)] by blast
    have "{(p, v, e). p \<in> set active \<and> (v, e) \<in> adj tab h (last (path_nodes p))} =
        {(p, v, e). simple_path tab h root p \<and> length (path_edges p) = d0 \<and> (v, e) \<in> adj tab h (last (path_nodes p))}"
      unfolding active by auto
    then have ext: "extensions h {(p, v, e). p \<in> set active \<and> (v, e) \<in> adj tab h (last (path_nodes p))} = ?S d"
      unfolding d0 by (simp only: simple_paths_Suc)
    have L: "caches_ok [h] t3" "set (fst acc1) = set rows \<union> (if least \<le> d then path_row d ` ?S d else {})"
      "set (snd acc1) = (if d < greatest then ?S d else {})"
      using paths_level [OF level f ok] unfolding paths_inv_def ext by blast+
    have "set (fst acc1) = (\<lambda>p. path_row (length (path_edges p)) p) `
       {p. simple_path tab h root p \<and> least \<le> length (path_edges p) \<and> length (path_edges p) < Suc d}"
      unfolding L(2) rows by (auto simp: less_Suc_eq)
    then have "paths_done tab h root least greatest (Suc d) acc1" using L(3) by (simp add: paths_done_def)
    then show ?thesis using Suc.hyps(1) [OF _ rest _ L(1)] Suc.hyps(2) le by auto
  qed
qed

lemma paths_rows_exact:
  assumes tab: "reads_table read tab" "edge_keys tab h"
    and run: "paths_rows read root h least greatest t = Inr (rows, t')"
    and ok: "caches_ok [h] t"
  shows "set rows = (\<lambda>p. path_row (length (path_edges p)) p) `
    {p. simple_path tab h root p \<and> least \<le> length (path_edges p) \<and> length (path_edges p) \<le> greatest}"
proof -
  let ?acc = "((if least = 0 then [root_row root True] else []), [start_path root])"
  from run obtain active where
    levels: "paths_levels read h least greatest [1 ..< Suc greatest] ?acc t = Inr ((rows, active), t')"
    by (auto simp: paths_rows_def simp del: upt_Suc paths_levels.simps)
  have start: "simple_path tab h root p \<and> path_edges p = [] \<longleftrightarrow> p = start_path root" for p
    by (cases p) (auto simp: simple_path_def valid_path_def start_path_def length_Suc_conv)
  have "{p. simple_path tab h root p \<and> least \<le> length (path_edges p) \<and> length (path_edges p) < 1} =
      (if least = 0 then {start_path root} else {})"
    using start by auto
  moreover have "{p. simple_path tab h root p \<and> Suc (length (path_edges p)) = 1} = {start_path root}"
    using start by auto
  moreover have "root_row root True = path_row (length (path_edges (start_path root))) (start_path root)"
    by (simp add: root_row_def path_row_def start_path_def)
  ultimately have "paths_done tab h root least greatest 1 ?acc" unfolding paths_done_def by simp
  from paths_levels_done [OF tab levels this ok] show ?thesis
    by (simp add: paths_done_def less_Suc_eq_le)
qed

section \<open>Limits and errors\<close>

text \<open>
  The counters and the retained bytes are within the limits of the traversal. The limits on visited
  nodes, path states and rows bound local variables of the traversals: see the results below.
\<close>

definition within :: "graph_limits \<Rightarrow> traversal \<Rightarrow> bool" where
  "within L t \<longleftrightarrow> t_limits t = L \<and> expansions (t_counters t) \<le> max_expansions L \<and>
     adjacency_entries (t_counters t) \<le> max_adjacency_entries L \<and>
     retained_bytes t \<le> max_bytes L \<and> peak_bytes (t_counters t) \<le> max_bytes L"

text \<open>
  From a state within the limits, a step fails with one of the errors \<open>E\<close>, or stays within the limits
  with a result that satisfies \<open>Q\<close>.
\<close>

definition safe :: "graph_limits \<Rightarrow> ferror set \<Rightarrow> 'a trav \<Rightarrow> ('a \<Rightarrow> bool) \<Rightarrow> bool" where
  "safe L E m Q \<longleftrightarrow>
     (\<forall>t. within L t \<longrightarrow> (case m t of Inl e \<Rightarrow> e \<in> E | Inr (x, t') \<Rightarrow> within L t' \<and> Q x))"

lemma safe_tret [intro]: "Q x \<Longrightarrow> safe L E (tret x) Q"
  by (simp add: safe_def tret_def)

lemma safe_tbind:
  assumes "safe L E m P" and "\<And>x. P x \<Longrightarrow> safe L E (f x) Q"
  shows "safe L E (tbind m f) Q"
  unfolding safe_def
proof (intro allI impI)
  fix t assume "within L t"
  with assms(1) have m: "case m t of Inl e \<Rightarrow> e \<in> E | Inr (x, t') \<Rightarrow> within L t' \<and> P x" by (simp add: safe_def)
  show "case tbind m f t of Inl e \<Rightarrow> e \<in> E | Inr (x, t') \<Rightarrow> within L t' \<and> Q x"
  proof (cases "m t")
    case (Inl e)
    then show ?thesis using m by (simp add: tbind_def)
  next
    case (Inr r)
    obtain x t' where r: "r = (x, t')" by (cases r) auto
    have "within L t'" "P x" using m Inr r by auto
    then show ?thesis using assms(2) [of x] Inr r by (simp add: tbind_def safe_def)
  qed
qed

lemma safe_if:
  "(c \<Longrightarrow> safe L E m Q) \<Longrightarrow> (\<not> c \<Longrightarrow> safe L E m' Q) \<Longrightarrow> safe L E (if c then m else m') Q"
  by simp

lemma safe_for_each:
  assumes "\<And>x acc. x \<in> set xs \<Longrightarrow> I acc \<Longrightarrow> safe L E (body x acc) I" and "I acc"
  shows "safe L E (for_each xs body acc) I"
  using assms
proof (induction xs arbitrary: acc)
  case (Cons x xs)
  show ?case
    unfolding for_each.simps by (rule safe_tbind [where P = I]) (use Cons in auto)
qed auto

lemma safe_any: "safe L E m Q \<Longrightarrow> safe L E m (\<lambda>_. True)"
  unfolding safe_def by (fastforce split: sum.splits)

text \<open>The errors of the limits \<open>L\<close>, each naming its limit.\<close>

definition limit_errors :: "graph_limits \<Rightarrow> ferror set" where
  "limit_errors L =
     {graph_limit ''expansions'' (max_expansions L),
      graph_limit ''adjacency entries examined'' (max_adjacency_entries L),
      graph_limit ''retained bytes'' (max_bytes L),
      graph_limit ''retained nodes'' (max_retained_nodes L),
      graph_limit ''path states'' (max_path_states L),
      graph_limit ''rows'' (max_graph_rows L)}"

lemma safe_steps:
  assumes "limit_errors L \<subseteq> E"
  shows "safe L E expansion (\<lambda>_. True)" "safe L E (retain n) (\<lambda>_. True)"
    "safe L E (row_limit n) (\<lambda>_. n \<le> max_graph_rows L)" "safe L E (count_visited n) (\<lambda>_. True)"
    "safe L E (push_row least depth row rows) (\<lambda>rows'. rows' = rows \<or> length rows' \<le> max_graph_rows L)"
  using assms
  by (auto simp: safe_def expansion_def retain_def row_limit_def count_visited_def push_row_def tret_def tbind_def
      within_def limit_errors_def Let_def)

lemma safe_push:
  assumes "limit_errors L \<subseteq> E" and "max_graph_rows L \<le> R" and "length rows \<le> R"
  shows "safe L E (push_row least depth row rows) (\<lambda>rows'. length rows' \<le> R)"
  using safe_steps(5) [OF assms(1), of least depth row rows] assms(2,3)
  unfolding safe_def by (fastforce split: sum.splits)

text \<open>The errors the engine can answer while edges are read and filters evaluated.\<close>

definition engine_errors ::
  "(nat \<Rightarrow> bool \<Rightarrow> string list \<Rightarrow> ferror + (string \<times> string \<times> string) option list) \<Rightarrow> hop list \<Rightarrow> ferror set" where
  "engine_errors read hs =
     {e. \<exists>s out chunk. read s out chunk = Inl e} \<union>
     {e. \<exists>h \<in> set hs. \<exists>p i. (edge_predicate h = Some p \<or> node_predicate h = Some p) \<and> p i = Inl e}"

text \<open>Every node and edge an adjacency entry names has a document.\<close>

definition filters_answer :: "hop list \<Rightarrow> bool" where
  "filters_answer hs \<longleftrightarrow>
     (\<forall>h \<in> set hs. \<forall>p i. edge_predicate h = Some p \<or> node_predicate h = Some p \<longrightarrow> p i \<noteq> Inr None)"

lemma safe_read_direction:
  assumes "limit_errors L \<subseteq> E" and "\<And>out chunk e. read out chunk = Inl e \<Longrightarrow> e \<in> E" and "reads_table read tab"
  shows "safe L E (read_direction read h chunk out found) (\<lambda>_. True)"
proof (cases "read out chunk")
  case (Inl e)
  then show ?thesis using assms(2) [OF Inl] unfolding safe_def read_direction_def Inl rbind_simps by simp
next
  case (Inr rows)
  have row: "safe L E (add_entry chunk row found) (\<lambda>_. True)" if mem: "row \<in> set rows" for row found
  proof -
    have "set rows = Some ` {r \<in> tab out. fst r \<in> set chunk}"
      using assms(3) Inr unfolding reads_table_def by simp
    then obtain r where "row = Some r" "fst r \<in> set chunk" using mem by auto
    then show ?thesis using assms(1)
      by (cases r) (auto simp: safe_def add_entry_def within_def limit_errors_def Let_def)
  qed
  have "safe L E (for_each rows (add_entry chunk) found) (\<lambda>_. True)"
    by (rule safe_for_each) (use row in auto)
  then show ?thesis unfolding safe_def read_direction_def Inr rbind_simps by simp
qed

lemma safe_neighbors:
  assumes "limit_errors L \<subseteq> E" and "\<And>out chunk e. read out chunk = Inl e \<Longrightarrow> e \<in> E" and "reads_table read tab"
  shows "safe L E (neighbors read h frontier) (\<lambda>_. True)"
  unfolding neighbors_def
  by (rule safe_tbind [where P = "\<lambda>_. True"], rule safe_for_each, rule safe_for_each, rule safe_read_direction)
    (use assms in auto)

lemma safe_evaluate_filter:
  assumes "\<And>i e. p i = Inl e \<Longrightarrow> e \<in> E" and "\<And>i. p i \<noteq> Inr None"
  shows "safe L E (evaluate_filter p what i) (\<lambda>_. True)"
  using assms(1) [of i] assms(2) [of i]
  by (auto simp: safe_def evaluate_filter_def tbind_def count_document_def within_def split: sum.splits option.splits)

lemma within_caches [simp]:
  "within L (t\<lparr>edge_matches := m\<rparr>) = within L t"
  "within L (t\<lparr>node_matches := m\<rparr>) = within L t"
  by (simp_all add: within_def)

lemma safe_accept:
  assumes h: "h \<in> set hs" and E: "engine_errors read hs \<subseteq> E" and answer: "filters_answer hs"
  shows "safe L E (accept step h v e) (\<lambda>_. True)"
proof -
  have p: "safe L E (evaluate_filter p what i) (\<lambda>_. True)"
    if "edge_predicate h = Some p \<or> node_predicate h = Some p" for p what i
  proof (rule safe_evaluate_filter)
    show "e \<in> E" if "p i = Inl e" for i e
      using that h \<open>edge_predicate h = Some p \<or> node_predicate h = Some p\<close> E unfolding engine_errors_def by blast
    show "p i \<noteq> Inr None" for i
      using h \<open>edge_predicate h = Some p \<or> node_predicate h = Some p\<close> answer unfolding filters_answer_def by blast
  qed
  have edge: "safe L E (edge_filter step h e) (\<lambda>_. True)"
    unfolding safe_def
  proof (intro allI impI)
    fix t assume t: "within L t"
    show "case edge_filter step h e t of Inl e \<Rightarrow> e \<in> E | Inr (x, t') \<Rightarrow> within L t' \<and> True"
    proof (cases "edge_predicate h")
      case (Some q)
      then show ?thesis using t p [of q "''edge''" e]
        by (auto simp: edge_filter_def safe_def tbind_def split: option.splits sum.splits)
    qed (simp add: edge_filter_def t)
  qed
  have node: "safe L E (node_filter step h v) (\<lambda>_. True)"
    unfolding safe_def
  proof (intro allI impI)
    fix t assume t: "within L t"
    show "case node_filter step h v t of Inl e \<Rightarrow> e \<in> E | Inr (x, t') \<Rightarrow> within L t' \<and> True"
    proof (cases "node_predicate h")
      case (Some q)
      then show ?thesis using t p [of q "''node''" v]
        by (auto simp: node_filter_def safe_def tbind_def split: option.splits sum.splits)
    qed (simp add: node_filter_def t)
  qed
  show ?thesis unfolding accept_def by (rule safe_tbind [OF edge]) (use node in auto)
qed

text \<open>A check of a limit that reads the state.\<close>

lemma safe_guard:
  assumes "graph_limit what (n L) \<in> E" and "\<not> c L \<Longrightarrow> safe L E m Q"
  shows "safe L E (\<lambda>t. if c (t_limits t) then Inl (graph_limit what (n (t_limits t))) else m t) Q"
  using assms unfolding safe_def by (auto simp: within_def)

text \<open>
  What the levels of \<open>reachable\<close> keep: the number of rows, the number of visited nodes and the visited
  nodes together with the next frontier. The guard on retained nodes comes before the last push.
\<close>

definition reach_bounds :: "graph_limits \<Rightarrow> nat \<Rightarrow> reach_state \<Rightarrow> bool" where
  "reach_bounds L R s \<longleftrightarrow>
     (case s of (vs, rows, frontier) \<Rightarrow>
        length rows \<le> R \<and> length vs \<le> max 1 (max_retained_nodes L) \<and>
        length vs + length frontier \<le> max 2 (max_retained_nodes L + 1))"

lemma safe_visit:
  assumes E: "limit_errors L \<subseteq> E" and acc: "\<And>v e. safe L E (accept 0 h v e) (\<lambda>_. True)"
    and R: "max_graph_rows L \<le> R" and s: "reach_bounds L R s"
  shows "safe L E (visit_neighbor h least with_path depth u pair s) (reach_bounds L R)"
proof -
  obtain vs rows "next" where acc_s: "s = (vs, rows, next)" by (cases s) auto
  have rows: "length rows \<le> R" using s by (simp add: reach_bounds_def acc_s)
  let ?vs = "(fst pair, Some (u, snd pair)) # vs"
  have "safe L E (\<lambda>t. if max_retained_nodes (t_limits t) < length ?vs + length next
          then Inl (graph_limit ''retained nodes'' (max_retained_nodes (t_limits t)))
          else tbind (retain n) (\<lambda>_. tbind (push_row least depth row rows)
                 (\<lambda>rows'. tret (?vs, rows', next @ [fst pair]))) t) (reach_bounds L R)" for n row
  proof (rule safe_guard [where c = "\<lambda>l. max_retained_nodes l < length ?vs + length next"])
    show "graph_limit ''retained nodes'' (max_retained_nodes L) \<in> E" using E by (auto simp: limit_errors_def)
    assume "\<not> max_retained_nodes L < length ?vs + length next"
    then have "safe L E (tret (?vs, rows', next @ [fst pair])) (reach_bounds L R)" if "length rows' \<le> R" for rows'
      using that by (intro safe_tret) (simp add: reach_bounds_def)
    then show "safe L E (tbind (retain n) (\<lambda>_. tbind (push_row least depth row rows)
        (\<lambda>rows'. tret (?vs, rows', next @ [fst pair])))) (reach_bounds L R)"
      by (intro safe_tbind [OF safe_steps(2) [OF E]] safe_tbind [OF safe_push [OF E R rows]])
  qed
  then show ?thesis
    unfolding visit_neighbor_def acc_s prod.case Let_def
    using s [unfolded acc_s]
    by (auto intro!: safe_tbind [OF safe_steps(1) [OF E]] safe_tbind [OF acc] safe_tbind [OF safe_steps(4) [OF E]]
        safe_tret)
qed

lemma safe_reach_levels:
  assumes E: "limit_errors L \<subseteq> E" and nb: "\<And>f. safe L E (neighbors read h f) (\<lambda>_. True)"
    and acc: "\<And>v e. safe L E (accept 0 h v e) (\<lambda>_. True)" and R: "max_graph_rows L \<le> R"
  shows "reach_bounds L R s \<Longrightarrow>
    safe L E (reach_levels read h least with_path ds s) (reach_bounds L R)"
proof (induction ds arbitrary: s)
  case (Cons d ds)
  obtain vs rows frontier where s: "s = (vs, rows, frontier)" by (cases s) auto
  have start: "reach_bounds L R (vs, rows, [])" using Cons.prems by (simp add: reach_bounds_def s)
  have level: "safe L E (for_each frontier (\<lambda>node. for_each (f node) (visit_neighbor h least with_path d node)) (vs, rows, []))
      (reach_bounds L R)" for f
    by (intro safe_for_each safe_visit [OF E acc R] start)
  show ?case
    unfolding reach_levels.simps s prod.case using Cons s
    by (auto intro!: safe_tbind [OF nb] safe_tbind [OF level])
qed auto

text \<open>
  What the levels of \<open>paths\<close> keep: the number of rows, and, once a path is kept for the next level, the
  paths and the rows together. No path is empty, so the ends of all paths exist.
\<close>

definition paths_bounds :: "graph_limits \<Rightarrow> nat \<Rightarrow> paths_state \<Rightarrow> bool" where
  "paths_bounds L R s \<longleftrightarrow>
     (case s of (rows, active) \<Rightarrow>
        length rows \<le> R \<and> list_all (\<lambda>p. path_nodes p \<noteq> []) active \<and>
        (active = [] \<or> length active + length rows \<le> max_path_states L))"

text \<open>Within a level rows may be added after the last kept path only on the last level, which keeps none.\<close>

lemma safe_paths_neighbor:
  assumes E: "limit_errors L \<subseteq> E" and acc: "\<And>v e. safe L E (accept 0 h v e) (\<lambda>_. True)"
    and R: "max_graph_rows L \<le> R" and s: "paths_bounds L R s" "depth < greatest \<or> snd s = []"
  shows "safe L E (paths_neighbor h least greatest depth p pair s)
    (\<lambda>s'. paths_bounds L R s' \<and> (depth < greatest \<or> snd s' = []))"
proof -
  obtain rows "next" where acc_s: "s = (rows, next)" by (cases s) auto
  have rows: "length rows \<le> R" using s by (simp add: paths_bounds_def acc_s)
  let ?p = "extend p (fst pair) (snd pair)"
  have last: "safe L E (\<lambda>t. if depth < greatest then if max_path_states (t_limits t) \<le> length next + length rows'
        then Inl (graph_limit ''path states'' (max_path_states (t_limits t)))
        else Inr ((rows', next @ [?p]), t) else Inr ((rows', next), t))
      (\<lambda>s'. paths_bounds L R s' \<and> (depth < greatest \<or> snd s' = []))"
    if "length rows' \<le> R" for rows'
    using that E s
    by (auto simp: safe_def limit_errors_def paths_bounds_def within_def acc_s extend_def)
  show ?thesis
    unfolding paths_neighbor_def acc_s prod.case Let_def
    by (intro safe_tbind [OF safe_steps(1) [OF E]] safe_tbind [OF acc] safe_if
        safe_tbind [OF safe_steps(2) [OF E]] safe_tbind [OF safe_push [OF E R rows]] last safe_tret)
      (use s acc_s in simp_all)
qed

lemma safe_paths_levels:
  assumes E: "limit_errors L \<subseteq> E" and nb: "\<And>f. safe L E (neighbors read h f) (\<lambda>_. True)"
    and acc: "\<And>v e. safe L E (accept 0 h v e) (\<lambda>_. True)" and R: "max_graph_rows L \<le> R"
  shows "length (fst s) \<le> R \<Longrightarrow>
    safe L E (paths_levels read h least greatest ds s) (\<lambda>s'. ds = [] \<and> s' = s \<or> paths_bounds L R s')"
proof (induction ds arbitrary: s)
  case (Cons d ds)
  obtain rows active where s: "s = (rows, active)" by (cases s) auto
  have start: "paths_bounds L R (rows, [])" using Cons.prems by (simp add: paths_bounds_def s)
  let ?I = "\<lambda>s'. paths_bounds L R s' \<and> (d < greatest \<or> snd s' = [])"
  have level: "safe L E (for_each active (\<lambda>p. for_each (f (last (path_nodes p))) (paths_neighbor h least greatest d p)) (rows, []))
      ?I" for f
    by (rule safe_for_each, rule safe_for_each, rule safe_paths_neighbor [OF E acc R]) (use start in auto)
  have rest: "safe L E (paths_levels read h least greatest ds s') (paths_bounds L R)" if "?I s'" for s'
  proof -
    have "length (fst s') \<le> R" using that by (cases s') (simp add: paths_bounds_def)
    from Cons.IH [OF this] show ?thesis using that unfolding safe_def by (fastforce split: sum.splits)
  qed
  have "safe L E (tbind (count_visited (length (path_ends active))) (\<lambda>_.
         tbind (neighbors read h (path_ends active)) (\<lambda>adjacent.
           tbind (for_each active
                    (\<lambda>p. for_each (adjacent (last (path_nodes p))) (paths_neighbor h least greatest d p))
                    (rows, []))
             (paths_levels read h least greatest ds)))) (paths_bounds L R)"
    by (intro safe_tbind [OF safe_steps(4) [OF E]] safe_tbind [OF nb] safe_tbind [OF level] rest)
  then show ?case
    unfolding paths_levels.simps s prod.case using start by auto
qed auto

text \<open>What a hop of \<open>fixed\<close> keeps.\<close>

definition fixed_bounds :: "graph_limits \<Rightarrow> path_state list \<Rightarrow> bool" where
  "fixed_bounds L ps \<longleftrightarrow> length ps \<le> max_path_states L \<and> list_all (\<lambda>p. path_nodes p \<noteq> []) ps"

lemma safe_fixed_hop:
  assumes E: "limit_errors L \<subseteq> E" and nb: "\<And>f. safe L E (neighbors (read step) h f) (\<lambda>_. True)"
    and acc: "\<And>v e. safe L E (accept step h v e) (\<lambda>_. True)"
  shows "safe L E (fixed_hop read (step, h) ps) (fixed_bounds L)"
proof -
  have one: "safe L E (fixed_neighbor step h p pair next) (fixed_bounds L)" if I: "fixed_bounds L next" for p pair "next"
  proof -
    have "safe L E (\<lambda>t. if max_path_states (t_limits t) \<le> length next
           then Inl (graph_limit ''path states'' (max_path_states (t_limits t)))
           else tbind (retain n) (\<lambda>_. tret (next @ [extend p (fst pair) (snd pair)])) t) (fixed_bounds L)" for n
    proof (rule safe_guard [where c = "\<lambda>l. max_path_states l \<le> length next"])
      show "graph_limit ''path states'' (max_path_states L) \<in> E" using E by (auto simp: limit_errors_def)
      assume "\<not> max_path_states L \<le> length next"
      then show "safe L E (tbind (retain n) (\<lambda>_. tret (next @ [extend p (fst pair) (snd pair)]))) (fixed_bounds L)"
        using I by (intro safe_tbind [OF safe_steps(2) [OF E]] safe_tret) (simp add: fixed_bounds_def extend_def)
    qed
    then show ?thesis
      unfolding fixed_neighbor_def Let_def using I
      by (auto intro!: safe_tbind [OF safe_steps(1) [OF E]] safe_tbind [OF acc])
  qed
  show ?thesis
    unfolding fixed_hop_def fst_conv snd_conv
    by (rule safe_tbind [OF nb]) (intro safe_for_each one, simp_all add: fixed_bounds_def)
qed

lemma safe_fixed_hops:
  assumes "\<And>x ps. x \<in> set xs \<Longrightarrow> safe L E (fixed_hop read x ps) (fixed_bounds L)"
  shows "safe L E (for_each xs (fixed_hop read) ps) (\<lambda>ps'. xs = [] \<and> ps' = ps \<or> fixed_bounds L ps')"
proof (cases xs)
  case (Cons x rest)
  have "safe L E (for_each rest (fixed_hop read) ps) (fixed_bounds L)" if "fixed_bounds L ps" for ps
    by (rule safe_for_each) (use assms Cons that in auto)
  then have "safe L E (for_each xs (fixed_hop read) ps) (fixed_bounds L)"
    unfolding Cons for_each.simps by (intro safe_tbind [OF assms]) (auto simp: Cons)
  then show ?thesis by (simp add: Cons)
qed auto

section \<open>Properties of the traversals\<close>

text \<open>The \<open>Traversal\<close> that \<open>graph_source_sql\<close> starts with.\<close>

definition start_traversal :: "graph_limits \<Rightarrow> traversal" where
  "start_traversal L =
     \<lparr>t_limits = L,
      t_counters = \<lparr>adjacency_entries = 0, expansions = 0, documents = 0, result_rows = 0, visited_nodes = 0,
        peak_bytes = 0\<rparr>,
      retained_bytes = 0, edge_matches = (\<lambda>_. None), node_matches = (\<lambda>_. None)\<rparr>"

lemma start_ok [simp]: "caches_ok hs (start_traversal L)" "within L (start_traversal L)"
  by (simp_all add: caches_ok_def within_def start_traversal_def)

text \<open>An engine that answers adjacency queries from a list of entries.\<close>

definition list_read ::
  "(bool \<Rightarrow> (string \<times> string \<times> string) list) \<Rightarrow> bool \<Rightarrow> string list \<Rightarrow>
   ferror + (string \<times> string \<times> string) option list" where
  "list_read entries out chunk = Inr (map Some (filter (\<lambda>r. fst r \<in> set chunk) (entries out)))"

lemma list_read_table: "reads_table (list_read entries) (\<lambda>out. set (entries out))"
  by (auto simp: reads_table_def list_read_def)

definition follow :: hop where
  "follow = \<lparr>hop_outgoing = True, hop_incoming = False, edge_predicate = None,
     node_predicate = Some (\<lambda>n. Inr (Some (n \<noteq> ''x'')))\<rparr>"

definition square :: "bool \<Rightarrow> (string \<times> string \<times> string) list" where
  "square out = (if out then [(''a'', ''b'', ''1''), (''a'', ''c'', ''2''), (''b'', ''d'', ''3''), (''c'', ''d'', ''4''),
     (''a'', ''x'', ''5''), (''d'', ''a'', ''6'')] else [])"

lemma square_keys: "edge_keys (\<lambda>out. set (square out)) follow"
  by (auto simp: edge_keys_def adj_def square_def follow_def)

lemma rows_of_run:
  assumes "map_sum id fst r = Inr rows"
  obtains t' where "r = Inr (rows, t')"
  using assms by (cases r) auto

text \<open>C2: \<open>reachable\<close> is an exact breadth-first search. When it returns, every node at shortest distance
  \<open>d\<close> from the root, over the edges of the adjacency table that pass the filters of the hop, has exactly
  one row with depth \<open>d\<close> when \<open>min <= d <= max\<close>, there is no other row, and with WITH PATH the path of a
  row is a path of accepted edges from the root to its node with as many edges as the row's depth.
\<close>

theorem reachable_exact:
  assumes "reads_table read tab" and "edge_keys tab h"
    and "reachable_rows read root h least greatest with_path (start_traversal L) = Inr (rows, t')"
  shows "distinct (map row_node rows) \<and>
    (\<lambda>r. (row_node r, row_depth r)) ` set rows =
      {(v, d). least \<le> d \<and> d \<le> greatest \<and> dist tab h root d v} \<and>
    (\<forall>r \<in> set rows. row_ok tab h root with_path r)"
  by (rule reachable_rows_exact [OF assms]) simp

theorem reachable_exact_witness:
  "{(v, d). 1 \<le> d \<and> d \<le> 3 \<and> dist (\<lambda>out. set (square out)) follow ''a'' d v} =
   {(''b'', 1), (''c'', 1), (''d'', 2)}"
proof -
  let ?run = "reachable_rows (list_read square) ''a'' follow 1 3 True (start_traversal default_limits)"
  let ?rows = "[\<lparr>row_node = ''b'', row_edge = Some ''1'', row_depth = 1, row_path = Some ([''a'', ''b''], [''1''])\<rparr>,
    \<lparr>row_node = ''c'', row_edge = Some ''2'', row_depth = 1, row_path = Some ([''a'', ''c''], [''2''])\<rparr>,
    \<lparr>row_node = ''d'', row_edge = Some ''3'', row_depth = 2, row_path = Some ([''a'', ''b'', ''d''], [''1'', ''3''])\<rparr>]"
  have "map_sum id fst ?run = Inr ?rows" by code_simp
  then obtain t' where "?run = Inr (?rows, t')" by (rule rows_of_run)
  from reachable_exact [OF list_read_table square_keys this] show ?thesis by simp
qed

text \<open>C10: \<open>paths\<close> returns exactly the simple paths. When it returns, its rows are those of the paths from the
  root over accepted edges of the adjacency table that repeat no node and have from \<open>min\<close> to \<open>max\<close>
  edges, each with its last node, last edge, length and the whole path.
\<close>

theorem paths_exact:
  assumes "reads_table read tab" and "edge_keys tab h"
    and "paths_rows read root h least greatest (start_traversal L) = Inr (rows, t')"
  shows "set rows = (\<lambda>p. path_row (length (path_edges p)) p) `
    {p. simple_path tab h root p \<and> least \<le> length (path_edges p) \<and> length (path_edges p) \<le> greatest}"
  by (rule paths_rows_exact [OF assms]) simp

theorem paths_exact_witness:
  "(\<lambda>p. path_row (length (path_edges p)) p) `
     {p. simple_path (\<lambda>out. set (square out)) follow ''a'' p \<and> 2 \<le> length (path_edges p) \<and> length (path_edges p) \<le> 3} =
   {\<lparr>row_node = ''d'', row_edge = Some ''3'', row_depth = 2, row_path = Some ([''a'', ''b'', ''d''], [''1'', ''3''])\<rparr>,
    \<lparr>row_node = ''d'', row_edge = Some ''4'', row_depth = 2, row_path = Some ([''a'', ''c'', ''d''], [''2'', ''4''])\<rparr>}"
proof -
  let ?run = "paths_rows (list_read square) ''a'' follow 2 3 (start_traversal default_limits)"
  let ?rows = "[\<lparr>row_node = ''d'', row_edge = Some ''3'', row_depth = 2, row_path = Some ([''a'', ''b'', ''d''], [''1'', ''3''])\<rparr>,
    \<lparr>row_node = ''d'', row_edge = Some ''4'', row_depth = 2, row_path = Some ([''a'', ''c'', ''d''], [''2'', ''4''])\<rparr>]"
  have "map_sum id fst ?run = Inr ?rows" by code_simp
  then obtain t' where "?run = Inr (?rows, t')" by (rule rows_of_run)
  from paths_exact [OF list_read_table square_keys this] show ?thesis by simp
qed

text \<open>How a traversal ends: with one of the errors, or within the limits with a result that satisfies \<open>Q\<close>.\<close>

definition ends_in :: "graph_limits \<Rightarrow> ferror set \<Rightarrow> ferror + 'a \<times> traversal \<Rightarrow> ('a \<Rightarrow> bool) \<Rightarrow> bool" where
  "ends_in L E r Q \<longleftrightarrow> (case r of Inl e \<Rightarrow> e \<in> E | Inr (x, t') \<Rightarrow> within L t' \<and> Q x)"

definition traversal_errors ::
  "graph_limits \<Rightarrow> (nat \<Rightarrow> bool \<Rightarrow> string list \<Rightarrow> ferror + (string \<times> string \<times> string) option list) \<Rightarrow> hop list \<Rightarrow>
   ferror set" where
  "traversal_errors L read hs = limit_errors L \<union> engine_errors read hs"

text \<open>The rows that may be returned: the row of the root is not counted against the limit.\<close>

definition row_bound :: "graph_limits \<Rightarrow> nat \<Rightarrow> nat" where
  "row_bound L least = max (if least = 0 then 1 else 0) (max_graph_rows L)"

lemma safe_ends:
  assumes "safe L E m P" and "within L t" and "\<And>x. P x \<Longrightarrow> Q x"
  shows "ends_in L E (m t) Q"
  using assms unfolding safe_def ends_in_def by (fastforce split: sum.splits)

lemma safe_parts:
  assumes "\<And>s. reads_table (read s) (tab s)" and "filters_answer hs"
  shows "limit_errors L \<subseteq> traversal_errors L read hs"
    and "safe L (traversal_errors L read hs) (neighbors (read s) k f) (\<lambda>_. True)"
    and "k \<in> set hs \<Longrightarrow> safe L (traversal_errors L read hs) (accept s k v e) (\<lambda>_. True)"
    and "x \<in> set (enumerate 0 (take d hs)) \<Longrightarrow> safe L (traversal_errors L read hs) (fixed_hop read x ps) (fixed_bounds L)"
proof -
  let ?E = "traversal_errors L read hs"
  show E: "limit_errors L \<subseteq> ?E" by (simp add: traversal_errors_def)
  show nb: "safe L ?E (neighbors (read s) k f) (\<lambda>_. True)" for s k f
    by (rule safe_neighbors [OF E _ assms(1)]) (auto simp: traversal_errors_def engine_errors_def)
  show acc: "safe L ?E (accept s k v e) (\<lambda>_. True)" if "k \<in> set hs" for s k v e
    by (rule safe_accept [OF that _ assms(2), of read]) (simp add: traversal_errors_def)
  show "safe L ?E (fixed_hop read x ps) (fixed_bounds L)" if x: "x \<in> set (enumerate 0 (take d hs))"
  proof -
    have "snd x \<in> set (map snd (enumerate 0 (take d hs)))" using x unfolding set_map by (rule imageI)
    then have "snd x \<in> set hs" unfolding map_snd_enumerate by (rule in_set_takeD)
    then have "safe L ?E (fixed_hop read (fst x, snd x) ps) (fixed_bounds L)" by (intro safe_fixed_hop E nb acc)
    then show ?thesis by simp
  qed
qed



text \<open>
  With \<open>min = 0\<close> the row of the root is pushed without a look at \<open>max_rows\<close>: a limit of no rows
  returns a row.
\<close>

lemma root_row_unlimited:
  "\<exists>t'. reachable_rows read root h 0 0 with_path (start_traversal (L\<lparr>max_graph_rows := 0\<rparr>)) =
     Inr ([root_row root with_path], t')"
  "paths_rows read root h 0 0 (start_traversal (L\<lparr>max_graph_rows := 0\<rparr>)) =
     Inr ([root_row root True], start_traversal (L\<lparr>max_graph_rows := 0\<rparr>))"
  by (simp_all add: reachable_rows_def paths_rows_def tbind_def tret_def)

end
