(* ===== verification/Graph_Predicate.thy ===== *)
theory Graph_Predicate
  imports Budgets Comparisons
begin

text \<open>
  The predicates of graph steps, \<open>fastdb/frontend/src/graph/predicate.rs\<close>: their compilation from
  expressions, their three-valued evaluation on a document, and the comparison of values. The
  evaluation of an expression without fields is SQL of the engine and a parameter, as is what
  \<open>serde_json\<close> writes for a value.

  A finite double is a whole number of units of \<open>2 ^ -1074\<close>, its smallest positive value, so the
  comparison of an integer with a double is stated exactly over the integers.
\<close>

section \<open>Doubles\<close>

definition f64_magnitude :: "64 word \<Rightarrow> nat" where
  "f64_magnitude w = unat w mod 2 ^ 63"

definition f64_negative :: "64 word \<Rightarrow> bool" where
  "f64_negative w \<longleftrightarrow> 2 ^ 63 \<le> unat w"

text \<open>The units of a magnitude: subnormals count them, a larger exponent shifts the significand.\<close>

definition magnitude_units :: "nat \<Rightarrow> nat" where
  "magnitude_units m =
     (let e = m div 2 ^ 52; s = m mod 2 ^ 52 in if e = 0 then s else (2 ^ 52 + s) * 2 ^ (e - 1))"

definition f64_units :: "64 word \<Rightarrow> int" where
  "f64_units w = (if f64_negative w then - int (magnitude_units (f64_magnitude w)) else int (magnitude_units (f64_magnitude w)))"

definition one_unit :: int where
  "one_unit = 2 ^ 1074"

text \<open>\<open>f64::total_cmp\<close>: the bits as sign and magnitude, a negative zero below zero.\<close>

definition total_key :: "64 word \<Rightarrow> int" where
  "total_key w = (if f64_negative w then - 1 - int (f64_magnitude w) else int (f64_magnitude w))"

definition total_cmp :: "64 word \<Rightarrow> 64 word \<Rightarrow> ordering" where
  "total_cmp a b = cmp (total_key a) (total_key b)"

text \<open>\<open>float.trunc()\<close>, in whole numbers.\<close>

definition trunc_units :: "int \<Rightarrow> int" where
  "trunc_units u = (if u < 0 then - (- u div one_unit) else u div one_unit)"

text \<open>
  On finite doubles. The subtraction \<open>float - float.trunc()\<close> is exact, and a difference of zero is
  the positive zero.
\<close>

definition compare_integer_float :: "int \<Rightarrow> 64 word \<Rightarrow> ordering" where
  "compare_integer_float integer float =
     (let u = f64_units float
      in if (i64_max + 1) * one_unit \<le> u then Less
         else if u < i64_min * one_unit then Greater
         else let truncated = trunc_units u
              in if integer = truncated then cmp 0 (u - truncated * one_unit)
                 else cmp integer truncated)"

section \<open>Comparison\<close>

definition storage_class :: "val \<Rightarrow> ferror + nat" where
  "storage_class v =
     (case v of
        Boolean b \<Rightarrow> Inr 0 | Integer i \<Rightarrow> Inr 0 | Number n \<Rightarrow> Inr 0
      | String s \<Rightarrow> Inr 1
      | Binary b \<Rightarrow> Inr 2 | Record r \<Rightarrow> Inr 2 | Vector b \<Rightarrow> Inr 2
      | _ \<Rightarrow> Inl (Validation ''graph step predicates compare scalar or record values''))"

text \<open>The closure \<open>number\<close>: an integer, or a double.\<close>

definition number_of :: "val \<Rightarrow> int + 64 word" where
  "number_of v =
     (case v of Boolean b \<Rightarrow> Inl (if b then 1 else 0) | Integer i \<Rightarrow> Inl i | Number n \<Rightarrow> Inr n | _ \<Rightarrow> Inl 0)"

definition order_numbers :: "val \<Rightarrow> val \<Rightarrow> ordering" where
  "order_numbers a b =
     (case (number_of a, number_of b) of
        (Inl a, Inl b) \<Rightarrow> cmp a b
      | (Inr a, Inr b) \<Rightarrow> total_cmp a b
      | (Inl a, Inr b) \<Rightarrow> compare_integer_float a b
      | (Inr a, Inl b) \<Rightarrow> reverse (compare_integer_float b a))"

definition order_encoded :: "(val \<Rightarrow> string list) \<Rightarrow> val \<Rightarrow> val \<Rightarrow> ferror + ordering" where
  "order_encoded writes a b =
     rbind (encode writes a) (\<lambda>x. rbind (encode writes b) (\<lambda>y. Inr (cmp x y)))"

definition order_val :: "(val \<Rightarrow> string list) \<Rightarrow> val \<Rightarrow> val \<Rightarrow> ferror + ordering" where
  "order_val writes a b =
     rbind (storage_class a) (\<lambda>left. rbind (storage_class b) (\<lambda>right.
       if left \<noteq> right then Inr (cmp left right)
       else case (a, b) of
           (String x, String y) \<Rightarrow> Inr (cmp x y)
         | (Binary x, Binary y) \<Rightarrow> Inr (cmp x y)
         | (Vector x, Vector y) \<Rightarrow> Inr (cmp x y)
         | (Record x, Record y) \<Rightarrow> order_encoded writes a b
         | (Binary x, _) \<Rightarrow> order_encoded writes a b
         | (Vector x, _) \<Rightarrow> order_encoded writes a b
         | (_, Binary y) \<Rightarrow> order_encoded writes a b
         | (_, Vector y) \<Rightarrow> order_encoded writes a b
         | _ \<Rightarrow> Inr (order_numbers a b)))"

definition compare :: "(val \<Rightarrow> string list) \<Rightarrow> val \<Rightarrow> string \<Rightarrow> val \<Rightarrow> ferror + val" where
  "compare writes a op b =
     (if op \<in> {''IS'', ''IS NOT''} then
        rbind (if a = Null \<and> b = Null then Inr True
               else if a = Null \<or> b = Null then Inr False
               else rbind (order_val writes a b) (\<lambda>r. Inr (r = Equal)))
          (\<lambda>same. Inr (Boolean (same = (op = ''IS''))))
      else if a = Null \<or> b = Null then Inr Null
      else rbind (order_val writes a b) (\<lambda>r. Inr (Boolean
        (if op \<in> {''='', ''==''} then r = Equal
         else if op \<in> {''!='', ''<>''} then r \<noteq> Equal
         else if op = ''<'' then r = Less
         else if op = ''<='' then r \<noteq> Greater
         else if op = ''>'' then r = Greater
         else r \<noteq> Less))))"

text \<open>\<open>inf\<close>, \<open>infinity\<close> and \<open>nan\<close>, which \<open>str::parse::<f64>\<close> accepts besides the decimals.\<close>

definition float_word :: "string \<Rightarrow> bool" where
  "float_word s \<longleftrightarrow>
     (let w = (if starts_with ''-'' s \<or> starts_with ''+'' s then drop 1 s else s)
      in eq_ignore_ascii_case w ''inf'' \<or> eq_ignore_ascii_case w ''infinity'' \<or> eq_ignore_ascii_case w ''nan'')"

definition truth :: "val \<Rightarrow> bool option" where
  "truth v =
     (case v of
        Null \<Rightarrow> None
      | Boolean b \<Rightarrow> Some b
      | Integer i \<Rightarrow> Some (i \<noteq> 0)
      | Number n \<Rightarrow> Some (f64_magnitude n \<noteq> 0)
      | String s \<Rightarrow>
          Some (case parse_f64 (trim s) of Some n \<Rightarrow> f64_magnitude n \<noteq> 0 | None \<Rightarrow> float_word (trim s))
      | _ \<Rightarrow> Some False)"

section \<open>Predicates\<close>

datatype step_predicate =
    Constant val
  | FieldAt "string list"
  | PNot step_predicate
  | PAnd step_predicate step_predicate
  | POr step_predicate step_predicate
  | PCompare step_predicate string step_predicate

fun has_field :: "expr \<Rightarrow> bool" where
  "has_field (EField p) \<longleftrightarrow> True"
| "has_field (ECase base branches fallback) \<longleftrightarrow>
     (case base of None \<Rightarrow> False | Some x \<Rightarrow> has_field x) \<or>
     (case fallback of None \<Rightarrow> False | Some x \<Rightarrow> has_field x) \<or>
     list_ex (\<lambda>b. has_field (fst b) \<or> has_field (snd b)) branches"
| "has_field (ECall f args) \<longleftrightarrow> list_ex has_field args"
| "has_field (EArray args) \<longleftrightarrow> list_ex has_field args"
| "has_field (EObject fs) \<longleftrightarrow> list_ex (\<lambda>f. has_field (snd f)) fs"
| "has_field (EUnary op a) \<longleftrightarrow> has_field a"
| "has_field (EBinary a op b) \<longleftrightarrow> has_field a \<or> has_field b"
| "has_field _ \<longleftrightarrow> False"

definition unsupported :: ferror where
  "unsupported = Unsupported
     ''graph step predicates compare stored fields with values using =, <>, <, <=, >, >=, IS, AND, OR and NOT''"

definition comparison_ops :: "string set" where
  "comparison_ops = {''='', ''=='', ''!='', ''<>'', ''<'', ''<='', ''>'', ''>='', ''IS'', ''IS NOT''}"

text \<open>A leading step name or alias of a longer path is dropped.\<close>

definition field_path :: "string list \<Rightarrow> string list \<Rightarrow> string list" where
  "field_path names p =
     (if 1 < length p \<and> list_ex (eq_ignore_ascii_case (hd p)) names then tl p else p)"

fun compile :: "(expr \<Rightarrow> ferror + val) \<Rightarrow> string list \<Rightarrow> expr \<Rightarrow> ferror + step_predicate" where
  "compile evaluate names (EField p) = Inr (FieldAt (field_path names p))"
| "compile evaluate names (EUnary op a) =
     (if \<not> has_field a then rbind (evaluate (EUnary op a)) (\<lambda>v. Inr (Constant v))
      else if op = ''NOT'' then rbind (compile evaluate names a) (\<lambda>p. Inr (PNot p))
      else Inl unsupported)"
| "compile evaluate names (EBinary a op b) =
     (if \<not> has_field (EBinary a op b) then rbind (evaluate (EBinary a op b)) (\<lambda>v. Inr (Constant v))
      else rbind (compile evaluate names a) (\<lambda>p. rbind (compile evaluate names b) (\<lambda>q.
        if op = ''AND'' then Inr (PAnd p q)
        else if op = ''OR'' then Inr (POr p q)
        else if op \<in> comparison_ops then Inr (PCompare p op q)
        else Inl unsupported)))"
| "compile evaluate names x =
     (if \<not> has_field x then rbind (evaluate x) (\<lambda>v. Inr (Constant v)) else Inl unsupported)"

definition field_value :: "document \<Rightarrow> string list \<Rightarrow> ferror + val" where
  "field_value doc p =
     (case path_value doc p of
        Inr (Some v) \<Rightarrow> Inr v
      | Inr None \<Rightarrow> Inr Null
      | Inl (Validation _) \<Rightarrow> Inr Null
      | Inl e \<Rightarrow> Inl e)"

fun pvalue :: "(val \<Rightarrow> string list) \<Rightarrow> document \<Rightarrow> step_predicate \<Rightarrow> ferror + val" where
  "pvalue writes doc (Constant v) = Inr v"
| "pvalue writes doc (FieldAt p) = field_value doc p"
| "pvalue writes doc (PNot a) =
     rbind (pvalue writes doc a) (\<lambda>x.
       Inr (case truth x of None \<Rightarrow> Null | Some b \<Rightarrow> Boolean (\<not> b)))"
| "pvalue writes doc (PAnd a b) =
     rbind (pvalue writes doc a) (\<lambda>x.
       if truth x = Some False then Inr (Boolean False)
       else rbind (pvalue writes doc b) (\<lambda>y.
         Inr (case (truth x, truth y) of
             (_, Some False) \<Rightarrow> Boolean False
           | (Some True, Some True) \<Rightarrow> Boolean True
           | _ \<Rightarrow> Null)))"
| "pvalue writes doc (POr a b) =
     rbind (pvalue writes doc a) (\<lambda>x.
       if truth x = Some True then Inr (Boolean True)
       else rbind (pvalue writes doc b) (\<lambda>y.
         Inr (case (truth x, truth y) of
             (_, Some True) \<Rightarrow> Boolean True
           | (Some False, Some False) \<Rightarrow> Boolean False
           | _ \<Rightarrow> Null)))"
| "pvalue writes doc (PCompare a op b) =
     rbind (pvalue writes doc a) (\<lambda>x. rbind (pvalue writes doc b) (\<lambda>y. compare writes x op y))"

definition matches :: "(val \<Rightarrow> string list) \<Rightarrow> step_predicate \<Rightarrow> document \<Rightarrow> ferror + bool" where
  "matches writes p doc = rbind (pvalue writes doc p) (\<lambda>v. Inr (truth v = Some True))"

section \<open>Comparison is exact\<close>

lemma magnitude_units_Suc: "magnitude_units m < magnitude_units (Suc m)"
proof -
  define e s where "e = m div 2 ^ 52" and "s = m mod (2 :: nat) ^ 52"
  have s: "s < 2 ^ 52" by (simp add: s_def)
  have m: "m = e * 2 ^ 52 + s" by (simp add: e_def s_def)
  show ?thesis
  proof (cases "Suc s < 2 ^ 52")
    case True
    then have "Suc m div 2 ^ 52 = e" "Suc m mod 2 ^ 52 = Suc s" unfolding m by simp_all
    then show ?thesis unfolding magnitude_units_def Let_def e_def [symmetric] s_def [symmetric] by simp
  next
    case False
    then have "s = 2 ^ 52 - 1" using s by simp
    then have "Suc m = Suc e * 2 ^ 52" unfolding m by simp
    then have next_up: "magnitude_units (Suc m) = 2 ^ 52 * 2 ^ e" by (simp add: magnitude_units_def)
    have now: "magnitude_units m = (if e = 0 then s else (2 ^ 52 + s) * 2 ^ (e - 1))"
      unfolding magnitude_units_def Let_def e_def s_def by (rule refl)
    show ?thesis
    proof (cases e)
      case 0
      then show ?thesis unfolding next_up now using s by simp
    next
      case (Suc k)
      have "(2 ^ 52 + s) * 2 ^ k < (2 * 2 ^ 52) * 2 ^ k" using s by simp
      then show ?thesis unfolding next_up now Suc by simp
    qed
  qed
qed

lemma magnitude_units_mono: "strict_mono magnitude_units"
  using magnitude_units_Suc by (simp add: strict_mono_Suc_iff)

lemma magnitude_units_less [simp]: "magnitude_units m < magnitude_units n \<longleftrightarrow> m < n"
  using magnitude_units_mono by (simp add: strict_mono_less)

lemma magnitude_units_zero [simp]: "magnitude_units m = 0 \<longleftrightarrow> m = 0"
proof -
  have "magnitude_units 0 = 0" by (simp add: magnitude_units_def)
  then show ?thesis using strict_mono_eq [OF magnitude_units_mono, of m 0] by simp
qed

lemma f64_units_zero [simp]: "f64_units w = 0 \<longleftrightarrow> f64_magnitude w = 0"
  by (simp add: f64_units_def)

lemma total_cmp_exact:
  assumes "\<not> (f64_units a = 0 \<and> f64_units b = 0)"
  shows "total_cmp a b = cmp (f64_units a) (f64_units b)"
proof -
  let ?A = "f64_magnitude a" and ?B = "f64_magnitude b"
  have eq: "magnitude_units m = magnitude_units n \<longleftrightarrow> m = n" for m n
    using strict_mono_eq [OF magnitude_units_mono] .
  have pos: "0 < magnitude_units m \<longleftrightarrow> 0 < m" for m
    using magnitude_units_zero [of m] by (metis gr0I less_numeral_extra(3))
  have "total_key a < total_key b \<longleftrightarrow> f64_units a < f64_units b"
    "total_key a = total_key b \<longleftrightarrow> f64_units a = f64_units b"
    using assms eq [of ?A ?B] pos [of ?A] pos [of ?B]
    by (auto simp: total_key_def f64_units_def)
  then show ?thesis by (simp add: total_cmp_def cmp_def)
qed

lemma one_unit_pos [simp]: "0 < one_unit"
  by (simp add: one_unit_def)

lemma one_unit_nonzero [simp]: "one_unit \<noteq> 0"
  by (simp add: one_unit_def)

lemma cmp_scaled [simp]: "cmp (a * one_unit) (b * one_unit) = cmp a b"
  by (simp add: cmp_def)

lemma trunc_units_bounds:
  "0 \<le> u \<Longrightarrow> trunc_units u * one_unit \<le> u \<and> u < (trunc_units u + 1) * one_unit"
  "u < 0 \<Longrightarrow> (trunc_units u - 1) * one_unit < u \<and> u \<le> trunc_units u * one_unit"
proof -
  assume "0 \<le> u"
  then have q: "trunc_units u = u div one_unit" by (simp add: trunc_units_def)
  show "trunc_units u * one_unit \<le> u \<and> u < (trunc_units u + 1) * one_unit"
    using div_mult_mod_eq [of u one_unit] pos_mod_bound [OF one_unit_pos, of u] pos_mod_sign [OF one_unit_pos, of u]
    unfolding q distrib_right mult_1 by linarith
next
  assume "u < 0"
  then have q: "trunc_units u = - (- u div one_unit)" by (simp add: trunc_units_def)
  show "(trunc_units u - 1) * one_unit < u \<and> u \<le> trunc_units u * one_unit"
    using div_mult_mod_eq [of "- u" one_unit] pos_mod_bound [OF one_unit_pos, of "- u"]
      pos_mod_sign [OF one_unit_pos, of "- u"]
    unfolding q left_diff_distrib mult_1 mult_minus_left by linarith
qed

lemma compare_integer_float_exact:
  assumes "i64_min \<le> i" and "i \<le> i64_max"
  shows "compare_integer_float i w = cmp (i * one_unit) (f64_units w)"
proof -
  define u where "u = f64_units w"
  define t where "t = trunc_units u"
  have scaled: "a * one_unit \<le> b * one_unit" if "a \<le> b" for a b :: int using that by (simp add: mult_right_mono)
  consider "(i64_max + 1) * one_unit \<le> u" | "u < i64_min * one_unit"
    | "u < (i64_max + 1) * one_unit" "i64_min * one_unit \<le> u" by linarith
  then show ?thesis
  proof cases
    case 1
    have "i * one_unit < (i64_max + 1) * one_unit" using assms by (simp add: mult_strict_right_mono)
    then have "i * one_unit < u" using 1 by linarith
    then show ?thesis using 1 by (simp add: compare_integer_float_def cmp_def flip: u_def)
  next
    case 2
    have "i64_min * one_unit \<le> i * one_unit" using scaled assms(1) .
    moreover have "i64_min * one_unit < (i64_max + 1) * one_unit"
      by (rule mult_strict_right_mono) (simp_all add: i64_min_def i64_max_def)
    ultimately have "u < i * one_unit" "u < (i64_max + 1) * one_unit" using 2 by linarith+
    then show ?thesis using 2 by (simp add: compare_integer_float_def cmp_def flip: u_def)
  next
    case 3
    then have c: "compare_integer_float i w = (if i = t then cmp 0 (u - t * one_unit) else cmp i t)"
      by (simp add: compare_integer_float_def Let_def flip: u_def t_def)
    have near: "t * one_unit - one_unit < u" "u < t * one_unit + one_unit"
      using trunc_units_bounds [of u, folded t_def] one_unit_pos
      unfolding left_diff_distrib distrib_right mult_1 by (cases "0 \<le> u", linarith, linarith)+
    consider "i = t" | "i < t" | "t < i" by linarith
    then show ?thesis
    proof cases
      case 1
      have "cmp 0 (u - t * one_unit) = cmp (t * one_unit) u" by (simp add: cmp_def)
      then show ?thesis using c 1 by (simp flip: u_def)
    next
      case 2
      then have "i * one_unit < u" using near scaled [of i "t - 1"] by (simp add: left_diff_distrib)
      then show ?thesis using 2 by (simp add: c cmp_def flip: u_def)
    next
      case 3
      then have "u < i * one_unit" using near scaled [of "t + 1" i] by (simp add: distrib_right)
      then show ?thesis using 3 by (simp add: c cmp_def flip: u_def)
    qed
  qed
qed

section \<open>Properties\<close>

lemma i64_bits: "i64_min \<le> (if b then 1 else 0) \<and> (if b then 1 else 0) \<le> i64_max"
  by (simp add: i64_min_def i64_max_def)

text \<open>A number of a valid value, and its exact size in units.\<close>

definition numeric :: "val \<Rightarrow> bool" where
  "numeric v =
     (case v of Boolean b \<Rightarrow> True | Integer i \<Rightarrow> i64_min \<le> i \<and> i \<le> i64_max | Number n \<Rightarrow> is_finite n | _ \<Rightarrow> False)"

definition numeric_units :: "val \<Rightarrow> int" where
  "numeric_units v =
     (case v of Boolean b \<Rightarrow> (if b then 1 else 0) * one_unit | Integer i \<Rightarrow> i * one_unit | Number n \<Rightarrow> f64_units n | _ \<Rightarrow> 0)"

definition double_zero :: "val \<Rightarrow> bool" where
  "double_zero v = (case v of Number n \<Rightarrow> f64_magnitude n = 0 | _ \<Rightarrow> False)"

text \<open>C15: predicates compare numbers exactly. Two numbers, each a boolean, a 64-bit integer or a finite
  double, are ordered by their mathematical values: no integer is rounded to a double on the way. The
  one exception is a pair of double zeros, which the order of the bits separates by sign.
\<close>

theorem order_numbers_exact:
  assumes "numeric a" and "numeric b"
  shows "order_val writes a b = Inr
    (if double_zero a \<and> double_zero b
     then total_cmp (case a of Number m \<Rightarrow> m) (case b of Number n \<Rightarrow> n)
     else cmp (numeric_units a) (numeric_units b))"
  using assms
  by (cases a; cases b)
    (auto simp: numeric_def order_val_def storage_class_def order_numbers_def number_of_def numeric_units_def
      double_zero_def total_cmp_exact compare_integer_float_exact i64_bits)

theorem order_numbers_exact_witness:
  "order_val (\<lambda>_. []) (Integer 9007199254740993) (Number 0x4340000000000000) = Inr Greater"
proof -
  have "numeric (Integer 9007199254740993)" "numeric (Number 0x4340000000000000)"
    by (simp_all add: numeric_def i64_min_def i64_max_def is_finite_def f64_exponent_def)
  from order_numbers_exact [OF this, of "\<lambda>_. []"] show ?thesis
    by (simp add: double_zero_def numeric_units_def f64_units_def f64_negative_def f64_magnitude_def magnitude_units_def
        one_unit_def)
qed

text \<open>
  The zeros: the integer equals both doubles, the doubles are equal as values, and a predicate still
  tells them apart. So \<open>=\<close> in a step is not transitive, and differs from the equality of values.
\<close>

lemma zeros_differ:
  "order_val writes (Integer 0) (Number 0) = Inr Equal"
  "order_val writes (Integer 0) (Number 0x8000000000000000) = Inr Equal"
  "order_val writes (Number 0) (Number 0x8000000000000000) = Inr Greater"
  "equal (Number 0) (Number 0x8000000000000000)"
  by (simp_all add: order_val_def storage_class_def order_numbers_def number_of_def compare_integer_float_def
      f64_units_def f64_negative_def f64_magnitude_def magnitude_units_def total_cmp_def total_key_def cmp_def
      one_unit_def trunc_units_def i64_min_def i64_max_def scalar_eq_def f64_eq_def f64_nan_def f64_exponent_def)

end
