(* ===== verification/Graph_Source.thy ===== *)
theory Graph_Source
  imports Graph_Search Graph_Predicate Graph_Parser Script
begin

text \<open>
  GRAPH sources, the part of \<open>fastdb/frontend/src/graph/query.rs\<close> around the traversal: \<open>expand_sources\<close>
  rewrites every \<open>GRAPH(...)\<close> after FROM or JOIN to an internal table call that carries the path text,
  \<open>graph_hops\<close> resolves the steps of a query against the catalog, and \<open>graph_source_sql\<close> runs the
  source. The catalog, the evaluation of expressions and the engine's rows are parameters.
\<close>

section \<open>Expanding sources\<close>

text \<open>
  \<open>Panics\<close> is an arithmetic overflow: the production profile builds with overflow checks.
\<close>

datatype 'a run = Panics | Returns 'a

definition graph_at :: "token list \<Rightarrow> nat \<Rightarrow> bool" where
  "graph_at ts i \<longleftrightarrow>
     tok_kind (ts ! i) = KWord \<and> eq_ignore_ascii_case (tok_text (ts ! i)) ''GRAPH'' \<and>
     tok_text (ts ! (i + 1)) = ''('' \<and> tok_kind (ts ! (i - 1)) = KWord \<and>
     (eq_ignore_ascii_case (tok_text (ts ! (i - 1))) ''FROM'' \<or>
      eq_ignore_ascii_case (tok_text (ts ! (i - 1))) ''JOIN'')"

text \<open>The scan for the closing token: the tokens from index \<open>j\<close> on, and the \<open>usize\<close> depth.\<close>

fun close_loop :: "token list \<Rightarrow> nat \<Rightarrow> nat \<Rightarrow> nat option run" where
  "close_loop [] j depth = Returns None"
| "close_loop (t # ts) j depth =
     (if tok_kind t \<noteq> KSymbol then close_loop ts (j + 1) depth
      else if tok_text t \<in> {''('', ''['', ''{''} then close_loop ts (j + 1) (depth + 1)
      else if tok_text t \<in> {'')'', '']'', ''}''} then
        (if depth = 0 then Panics
         else if depth - 1 = 0 then Returns (Some j)
         else close_loop ts (j + 1) (depth - 1))
      else close_loop ts (j + 1) depth)"

lemma close_loop_bounds:
  "close_loop ts j depth = Returns (Some k) \<Longrightarrow> j \<le> k \<and> k < j + length ts"
  by (induction ts j depth rule: close_loop.induct) (auto split: if_splits)

definition graph_call :: "string \<Rightarrow> string" where
  "graph_call body = ''__fastdb_graph('' @ [CHR 0x27] @ double_quote CHR 0x27 body @ [CHR 0x27] @ '')''"

text \<open>
  The main loop from token \<open>i\<close> on, with the text written so far and the end of the copied input. A
  parser that ran out of fuel would end here too; it never does.
\<close>

function expand_loop ::
  "string \<Rightarrow> token list \<Rightarrow> nat \<Rightarrow> string \<Rightarrow> nat \<Rightarrow> (ferror + string \<times> nat) run" where
  "expand_loop sql ts i out copied =
     (if i + 1 < length ts then
        if graph_at ts i then
          (case close_loop (drop (i + 1) ts) (i + 1) 0 of
             Panics \<Rightarrow> Panics
           | Returns None \<Rightarrow> Returns (Inl (Validation ''unclosed GRAPH source''))
           | Returns (Some close) \<Rightarrow>
               (let body = subslice sql (tok_end (ts ! (i + 1))) (tok_start (ts ! close))
                in case parse_graph body of
                     None \<Rightarrow> Panics
                   | Some (Inl e) \<Rightarrow>
                       Returns (Inl (Syntax (SyntaxError (offset e + tok_end (ts ! (i + 1)))
                         (''GRAPH: '' @ message e))))
                   | Some (Inr q) \<Rightarrow>
                       expand_loop sql ts (close + 1)
                         (out @ subslice sql copied (tok_start (ts ! i)) @ graph_call body)
                         (tok_end (ts ! close))))
        else expand_loop sql ts (i + 1) out copied
      else Returns (Inr (out, copied)))"
  by pat_completeness auto
termination
  by (relation "measure (\<lambda>(sql, ts, i, out, copied). length ts - i)") (auto dest: close_loop_bounds)

declare expand_loop.simps [simp del]

definition mentions_graph :: "string \<Rightarrow> bool" where
  "mentions_graph sql \<longleftrightarrow> list_ex (\<lambda>i. i + 5 \<le> length sql \<and>
     eq_ignore_ascii_case (subslice sql i (i + 5)) ''graph'') [0 ..< length sql]"

definition expand_sources :: "string \<Rightarrow> (ferror + string) run" where
  "expand_sources sql =
     (if \<not> mentions_graph sql then Returns (Inr sql)
      else case tokenize sql of
             Inl e \<Rightarrow> Returns (Inl (Syntax e))
           | Inr ts \<Rightarrow>
               (case expand_loop sql ts 1 [] 0 of
                  Panics \<Rightarrow> Panics
                | Returns (Inl e) \<Rightarrow> Returns (Inl e)
                | Returns (Inr (out, copied)) \<Rightarrow>
                    Returns (Inr (if copied = 0 then sql else out @ drop copied sql))))"

section \<open>What the expansion does\<close>

text \<open>
  The token that closes the delimiters opened by a list of tokens, of which \<open>d\<close> are open before it:
  the first closing token where they balance.
\<close>

definition closing_token :: "token \<Rightarrow> bool" where
  "closing_token t \<longleftrightarrow> tok_kind t = KSymbol \<and> tok_text t \<in> {'')'', '']'', ''}''}"

definition closes_at :: "int \<Rightarrow> token list \<Rightarrow> nat \<Rightarrow> bool" where
  "closes_at d ts n \<longleftrightarrow>
     n < length ts \<and> closing_token (ts ! n) \<and> d + balance (take (Suc n) ts) = 0 \<and>
     (\<forall>m < n. closing_token (ts ! m) \<longrightarrow> 0 < d + balance (take (Suc m) ts))"

definition source_closes :: "token list \<Rightarrow> nat \<Rightarrow> nat \<Rightarrow> bool" where
  "source_closes ts i k \<longleftrightarrow> i < k \<and> closes_at 0 (drop (i + 1) ts) (k - (i + 1))"

definition source_body :: "string \<Rightarrow> token list \<Rightarrow> nat \<Rightarrow> nat \<Rightarrow> string" where
  "source_body sql ts i k = subslice sql (tok_end (ts ! (i + 1))) (tok_start (ts ! k))"

text \<open>
  The sources among the tokens from \<open>a\<close> on, each by its word GRAPH and its closing token: none is left
  out, none lies inside another, and every body is a query the parser accepts.
\<close>

fun sources :: "string \<Rightarrow> token list \<Rightarrow> nat \<Rightarrow> (nat \<times> nat) list \<Rightarrow> bool" where
  "sources sql ts a [] \<longleftrightarrow> (\<forall>i. a \<le> i \<and> i + 1 < length ts \<longrightarrow> \<not> graph_at ts i)"
| "sources sql ts a ((i, k) # rs) \<longleftrightarrow>
     a \<le> i \<and> (\<forall>j. a \<le> j \<and> j < i \<longrightarrow> \<not> graph_at ts j) \<and> graph_at ts i \<and> source_closes ts i k \<and>
     (\<exists>q. parse_graph (source_body sql ts i k) = Some (Inr q)) \<and> sources sql ts (k + 1) rs"

text \<open>The text with a call in place of each source, from offset \<open>copied\<close> on.\<close>

fun expansion_text :: "string \<Rightarrow> token list \<Rightarrow> nat \<Rightarrow> (nat \<times> nat) list \<Rightarrow> string" where
  "expansion_text sql ts copied [] = drop copied sql"
| "expansion_text sql ts copied ((i, k) # rs) =
     subslice sql copied (tok_start (ts ! i)) @ graph_call (source_body sql ts i k) @
     expansion_text sql ts (tok_end (ts ! k)) rs"

definition expanded :: "string \<Rightarrow> string \<Rightarrow> bool" where
  "expanded sql out \<longleftrightarrow>
     (case tokenize sql of
        Inl _ \<Rightarrow> out = sql
      | Inr ts \<Rightarrow> \<exists>rs. sources sql ts 1 rs \<and> out = expansion_text sql ts 0 rs)"

text \<open>Why a source at token \<open>i\<close> is refused.\<close>

definition source_refused :: "string \<Rightarrow> token list \<Rightarrow> nat \<Rightarrow> ferror \<Rightarrow> bool" where
  "source_refused sql ts i e \<longleftrightarrow>
     (\<nexists>k. source_closes ts i k) \<and> e = Validation ''unclosed GRAPH source'' \<or>
     (\<exists>k x. source_closes ts i k \<and> parse_graph (source_body sql ts i k) = Some (Inl x) \<and>
        offset x + tok_end (ts ! (i + 1)) \<le> length sql \<and>
        e = Syntax (SyntaxError (offset x + tok_end (ts ! (i + 1))) (''GRAPH: '' @ message x)))"

definition expansion_refused :: "string \<Rightarrow> ferror \<Rightarrow> bool" where
  "expansion_refused sql e \<longleftrightarrow>
     (case tokenize sql of
        Inl x \<Rightarrow> e = Syntax x
      | Inr ts \<Rightarrow> \<exists>i. i + 1 < length ts \<and> graph_at ts i \<and> source_refused sql ts i e)"

text \<open>Where the depth underflows: the token after the word GRAPH is a quoted parenthesis.\<close>

definition quoted_parenthesis :: "string \<Rightarrow> bool" where
  "quoted_parenthesis sql \<longleftrightarrow>
     (\<exists>ts i. tokenize sql = Inr ts \<and> i + 1 < length ts \<and> graph_at ts i \<and> tok_kind (ts ! (i + 1)) \<noteq> KSymbol)"

lemma parse_graph_outcome: "outcome body wf_query (parse_graph body)"
  unfolding parse_graph_def by (rule run_parser_good [OF good_graph_body])

text \<open>Inside an open delimiter the scan for the closing token cannot underflow.\<close>

lemma close_loop_open: "0 < depth \<Longrightarrow> close_loop ts j depth \<noteq> Panics"
  by (induction ts j depth rule: close_loop.induct) auto

lemma close_loop_first:
  assumes "close_loop (t # ts) j 0 = Panics" and "tok_text t = ''(''"
  shows "tok_kind t \<noteq> KSymbol"
  using assms close_loop_open [of 1 ts "j + 1"] by (auto split: if_splits)

lemma closes_at_Cons:
  "closes_at d (t # ts) 0 \<longleftrightarrow> closing_token t \<and> d + delimiter_weight t = 0"
  "closes_at d (t # ts) (Suc n) \<longleftrightarrow>
     (closing_token t \<longrightarrow> 0 < d + delimiter_weight t) \<and> closes_at (d + delimiter_weight t) ts n"
  by (auto simp: closes_at_def balance_def All_less_Suc2 add.assoc)

lemma weight_closing: "closing_token t \<Longrightarrow> delimiter_weight t = - 1"
  by (auto simp: closing_token_def delimiter_weight_def)

lemma close_loop_exact:
  "case close_loop ts j depth of
     Panics \<Rightarrow> True
   | Returns None \<Rightarrow> \<nexists>n. closes_at (int depth) ts n
   | Returns (Some k) \<Rightarrow> j \<le> k \<and> closes_at (int depth) ts (k - j)"
proof (induction ts j depth rule: close_loop.induct)
  case (1 j depth)
  then show ?case by (simp add: closes_at_def)
next
  case (2 t ts j depth)
  let ?d = "int depth + delimiter_weight t"
  consider (closing) "closing_token t" "depth = 0" | (last) "closing_token t" "depth = 1"
    | (inner) depth' where "\<not> (closing_token t \<and> depth < 2)" "int depth' = ?d"
        "close_loop (t # ts) j depth = close_loop ts (j + 1) depth'"
        "case close_loop ts (j + 1) depth' of
           Panics \<Rightarrow> True
         | Returns None \<Rightarrow> \<nexists>n. closes_at (int depth') ts n
         | Returns (Some k) \<Rightarrow> j + 1 \<le> k \<and> closes_at (int depth') ts (k - (j + 1))"
  proof -
    consider (word) "tok_kind t \<noteq> KSymbol" | (opens) "tok_kind t = KSymbol" "tok_text t \<in> {''('', ''['', ''{''}"
      | (closing) "closing_token t" "1 < depth" | (ended) "closing_token t" "depth < 2"
      | (other) "tok_kind t = KSymbol" "tok_text t \<notin> {''('', ''['', ''{''}" "tok_text t \<notin> {'')'', '']'', ''}''}"
      unfolding closing_token_def by fastforce
    then show thesis
    proof cases
      case word
      then show thesis using that(3) [of depth] 2(1) by (simp add: closing_token_def delimiter_weight_def)
    next
      case opens
      then show thesis using that(3) [of "depth + 1"] 2(2) by (auto simp: closing_token_def delimiter_weight_def)
    next
      case closing
      then show thesis using that(3) [of "depth - 1"] 2(3) by (auto simp: closing_token_def delimiter_weight_def)
    next
      case ended
      then show thesis using that(1,2) by linarith
    next
      case other
      then show thesis using that(3) [of depth] 2(4) by (auto simp: closing_token_def delimiter_weight_def)
    qed
  qed
  then show ?case
  proof cases
    case closing
    then show ?thesis by (auto simp: closing_token_def)
  next
    case last
    then show ?thesis using weight_closing [of t] by (auto simp: closing_token_def closes_at_Cons)
  next
    case inner
    have pos: "closing_token t \<Longrightarrow> 0 < ?d" using inner(1) weight_closing [of t] by auto
    have zero: "\<not> closes_at (int depth) (t # ts) 0" using pos by (auto simp: closes_at_Cons)
    have Suc: "closes_at (int depth) (t # ts) (Suc n) \<longleftrightarrow> closes_at (int depth') ts n" for n
      using pos inner(2) by (simp add: closes_at_Cons)
    have "(\<exists>n. closes_at (int depth) (t # ts) n) \<longleftrightarrow> (\<exists>n. closes_at (int depth') ts n)"
      using zero Suc by (metis not0_implies_Suc)
    moreover have "k - j = Suc (k - (j + 1))" if "j + 1 \<le> k" for k using that by simp
    ultimately show ?thesis
      using inner(4) Suc unfolding inner(3) by (auto split: run.splits option.splits)
  qed
qed

definition expand_ok :: "string \<Rightarrow> token list \<Rightarrow> nat \<Rightarrow> string \<Rightarrow> nat \<Rightarrow> (ferror + string \<times> nat) run \<Rightarrow> bool" where
  "expand_ok sql ts i out copied r =
     (case r of
        Panics \<Rightarrow> \<exists>j. j + 1 < length ts \<and> graph_at ts j \<and> tok_kind (ts ! (j + 1)) \<noteq> KSymbol
      | Returns (Inl e) \<Rightarrow> \<exists>j. j + 1 < length ts \<and> graph_at ts j \<and> source_refused sql ts j e
      | Returns (Inr (out', copied')) \<Rightarrow>
          \<exists>rs. sources sql ts i rs \<and> out' @ drop copied' sql = out @ expansion_text sql ts copied rs \<and>
            (copied' = 0 \<longrightarrow> rs = [] \<and> copied = 0))"

text \<open>A source at token \<open>i\<close>: the scan for its end and the check of its body.\<close>

lemma expand_source:
  assumes ts: "tokenize sql = Inr ts" and len: "i + 1 < length ts" and g: "graph_at ts i"
    and go: "\<And>k q. source_closes ts i k \<Longrightarrow> k < length ts \<Longrightarrow> parse_graph (source_body sql ts i k) = Some (Inr q) \<Longrightarrow>
      close_loop (drop (i + 1) ts) (i + 1) 0 = Returns (Some k) \<Longrightarrow>
      expand_ok sql ts (k + 1) (out @ subslice sql copied (tok_start (ts ! i)) @ graph_call (source_body sql ts i k))
        (tok_end (ts ! k))
        (expand_loop sql ts (k + 1) (out @ subslice sql copied (tok_start (ts ! i)) @ graph_call (source_body sql ts i k))
           (tok_end (ts ! k)))"
  shows "expand_ok sql ts i out copied (expand_loop sql ts i out copied)"
proof -
  note step = expand_loop.simps [of sql ts i out copied]
  have drop: "drop (i + 1) ts = ts ! (i + 1) # drop (i + 2) ts" using len by (simp add: Cons_nth_drop_Suc)
  have paren: "tok_text (ts ! (i + 1)) = ''(''" using g by (simp add: graph_at_def)
  note exact = close_loop_exact [where ts = "drop (i + 1) ts" and j = "i + 1" and depth = 0]
  consider (panics) "close_loop (drop (i + 1) ts) (i + 1) 0 = Panics"
    | (unclosed) "close_loop (drop (i + 1) ts) (i + 1) 0 = Returns None"
    | (closed) k where "close_loop (drop (i + 1) ts) (i + 1) 0 = Returns (Some k)"
    by (metis option.exhaust run.exhaust)
  then show ?thesis
  proof cases
    case panics
    then have "tok_kind (ts ! (i + 1)) \<noteq> KSymbol" using close_loop_first [OF _ paren] unfolding drop by blast
    then show ?thesis unfolding step using len g panics by (auto simp: expand_ok_def)
  next
    case unclosed
    then have "\<nexists>k. source_closes ts i k" using exact by (auto simp: source_closes_def)
    then have "source_refused sql ts i (Validation ''unclosed GRAPH source'')" by (simp add: source_refused_def)
    then show ?thesis unfolding step using len g unclosed by (auto simp: expand_ok_def)
  next
    case closed
    have cl: "source_closes ts i k" using exact closed by (auto simp: source_closes_def)
    have kl: "k < length ts" using close_loop_bounds [OF closed] len unfolding length_drop by linarith
    have k: "i + 1 \<le> k" using cl by (simp add: source_closes_def)
    have body: "subslice sql (tok_end (ts ! (i + 1))) (tok_start (ts ! k)) = source_body sql ts i k"
      by (simp add: source_body_def)
    note result = parse_graph_outcome [of "source_body sql ts i k", unfolded outcome_def]
    consider (refused) x where "parse_graph (source_body sql ts i k) = Some (Inl x)" "offset x \<le> length (source_body sql ts i k)"
      | (accepted) q where "parse_graph (source_body sql ts i k) = Some (Inr q)"
      using result by (auto split: option.splits sum.splits)
    then show ?thesis
    proof cases
      case refused
      note sp = tokenize_spans [OF ts]
      have "offset x + tok_end (ts ! (i + 1)) \<le> length sql"
        using refused(2) spans_from_mem [OF sp, of "ts ! (i + 1)"] spans_from_mem [OF sp, of "ts ! k"] len kl
        by (auto simp: source_body_def subslice_def)
      then have "source_refused sql ts i
          (Syntax (SyntaxError (offset x + tok_end (ts ! (i + 1))) (''GRAPH: '' @ message x)))"
        using cl refused(1) by (auto simp: source_refused_def)
      moreover have "expand_loop sql ts i out copied =
          Returns (Inl (Syntax (SyntaxError (offset x + tok_end (ts ! (i + 1))) (''GRAPH: '' @ message x))))"
        unfolding step using len g closed refused(1) by (simp add: source_body_def)
      ultimately show ?thesis using len g by (auto simp: expand_ok_def)
    next
      case accepted
      let ?out = "out @ subslice sql copied (tok_start (ts ! i)) @ graph_call (source_body sql ts i k)"
      have run: "expand_loop sql ts i out copied = expand_loop sql ts (k + 1) ?out (tok_end (ts ! k))"
        unfolding step using len g closed accepted by (simp add: source_body_def)
      have pos: "0 < tok_end (ts ! k)" using spans_from_mem [OF tokenize_spans [OF ts], of "ts ! k"] kl by auto
      have found: "sources sql ts i ((i, k) # rs)" if "sources sql ts (k + 1) rs" for rs
        using that g cl accepted by auto
      have "expand_ok sql ts i out copied r" if r: "expand_ok sql ts (k + 1) ?out (tok_end (ts ! k)) r" for r
      proof (cases "\<exists>out' copied'. r = Returns (Inr (out', copied'))")
        case True
        then obtain out' copied' where r': "r = Returns (Inr (out', copied'))" by blast
        then obtain rs where "sources sql ts (k + 1) rs"
          "out' @ drop copied' sql = ?out @ expansion_text sql ts (tok_end (ts ! k)) rs" "copied' \<noteq> 0"
          using r pos by (auto simp: expand_ok_def)
        then show ?thesis using found [of rs] unfolding r' by (auto simp: expand_ok_def intro!: exI [of _ "(i, k) # rs"])
      next
        case False
        then show ?thesis using r by (auto simp: expand_ok_def split: run.splits sum.splits)
      qed
      then show ?thesis using go [OF cl kl accepted closed] unfolding run by blast
    qed
  qed
qed

lemma expand_loop_ok:
  "tokenize sql = Inr ts \<Longrightarrow> expand_ok sql ts i out copied (expand_loop sql ts i out copied)"
proof (induction sql ts i out copied rule: expand_loop.induct)
  case (1 sql ts i out copied)
  note step = expand_loop.simps [of sql ts i out copied]
  consider "length ts \<le> i + 1" | "i + 1 < length ts" "graph_at ts i" | "i + 1 < length ts" "\<not> graph_at ts i"
    by linarith
  then show ?case
  proof cases
    case 1
    then have "sources sql ts i []" by auto
    then show ?thesis unfolding step using 1 by (auto simp: expand_ok_def intro!: exI [of _ "[]"])
  next
    case 2
    show ?thesis
      by (rule expand_source [OF "1.prems" 2])
        (rule "1.IH"(1) [OF 2 _ refl _ _ refl "1.prems", folded source_body_def]; simp add: source_body_def)
  next
    case 3
    have le: "i \<le> j \<longleftrightarrow> j = i \<or> Suc i \<le> j" for j by auto
    have "sources sql ts i rs" if "sources sql ts (i + 1) rs" for rs
      using that 3(2) by (cases rs) (auto simp: le)
    then show ?thesis
      using "1.IH"(2) [OF 3 "1.prems"] unfolding step using 3
      by (auto simp: expand_ok_def split: run.splits sum.splits prod.splits)
  qed
qed

text \<open>The test for the word GRAPH misses no source.\<close>

lemma graph_at_mentions:
  assumes ts: "tokenize sql = Inr ts" and i: "i + 1 < length ts" "graph_at ts i"
  shows "mentions_graph sql"
proof -
  let ?t = "ts ! i"
  have t: "?t \<in> set ts" using i by simp
  note b = spans_from_mem [OF tokenize_spans [OF ts] t]
  have word: "subslice sql (tok_start ?t) (tok_end ?t) = tok_text ?t"
    using tokenize_lexeme [OF ts t] i(2) by (simp add: graph_at_def)
  have five: "length (tok_text ?t) = 5" using i(2)
    by (auto simp: graph_at_def eq_ignore_ascii_case_def to_ascii_lowercase_def dest: map_eq_imp_length_eq)
  have "length (subslice sql (tok_start ?t) (tok_end ?t)) = 5" unfolding word by (rule five)
  then have e: "tok_end ?t = tok_start ?t + 5" using b by (simp add: length_slice)
  have "eq_ignore_ascii_case (tok_text ?t) ''graph''"
    using i(2) by (simp add: graph_at_def eq_ignore_ascii_case_def) code_simp
  then show ?thesis
    using word b unfolding e mentions_graph_def list_ex_iff by (intro bexI [of _ "tok_start ?t"]) auto
qed

section \<open>Resolving a query\<close>

text \<open>What a traversal uses of a collection and of its edge declaration.\<close>

record edge_def =
  ed_source :: string
  ed_target :: string
  ed_adjacency :: string

record graph_collection =
  gc_name :: string
  gc_storage :: string
  gc_edge :: "edge_def option"

record resolved_hop =
  rh_edges :: graph_collection
  rh_adjacency :: string
  rh_outgoing :: bool
  rh_incoming :: bool
  rh_edge_predicate :: "step_predicate option"
  rh_node :: graph_collection
  rh_node_predicate :: "step_predicate option"

text \<open>
  The rest of the connection: the catalog, the evaluation of an expression with the statement's
  parameters, the stored documents, the adjacency entries, and the JSON of values.
\<close>

record graph_env =
  env_params :: "string \<Rightarrow> val option"
  env_catalog :: "string \<Rightarrow> ferror + graph_collection"
  env_evaluate :: "expr \<Rightarrow> ferror + val"
  env_document :: "graph_collection \<Rightarrow> string \<Rightarrow> ferror + document option"
  env_entries :: "string \<Rightarrow> bool \<Rightarrow> string list \<Rightarrow> ferror + (string \<times> string \<times> string) option list"
  env_exists :: "graph_collection \<Rightarrow> string \<Rightarrow> ferror + bool"
  env_writes :: "val \<Rightarrow> string list"
  env_decode :: "string \<Rightarrow> ferror + val"

fun parameters :: "expr \<Rightarrow> string set" where
  "parameters (EParameter n) = {n}"
| "parameters (ECase base branches fallback) =
     (case base of None \<Rightarrow> {} | Some x \<Rightarrow> parameters x) \<union>
     (case fallback of None \<Rightarrow> {} | Some x \<Rightarrow> parameters x) \<union>
     \<Union> (set (map (\<lambda>b. parameters (fst b) \<union> parameters (snd b)) branches))"
| "parameters (ECall f args) = \<Union> (set (map parameters args))"
| "parameters (EArray args) = \<Union> (set (map parameters args))"
| "parameters (EObject fs) = \<Union> (set (map (\<lambda>f. parameters (snd f)) fs))"
| "parameters (EUnary op a) = parameters a"
| "parameters (EBinary a op b) = parameters a \<union> parameters b"
| "parameters _ = {}"

definition step_parameters :: "graph_step \<Rightarrow> string set" where
  "step_parameters s = (case gs_predicate s of None \<Rightarrow> {} | Some x \<Rightarrow> parameters x)"

definition query_parameters :: "graph_query \<Rightarrow> string set" where
  "query_parameters q =
     parameters (gq_root q) \<union>
     \<Union> (set (map (\<lambda>h. step_parameters (gh_edge h) \<union> step_parameters (gh_node h)) (gq_hops q)))"

text \<open>The loop over the names, in the order of the set: the first missing one is the error.\<close>

fun consume :: "(string \<Rightarrow> val option) \<Rightarrow> string list \<Rightarrow> string set \<Rightarrow> (ferror + unit) \<times> string set" where
  "consume params [] consumed = (Inr (), consumed)"
| "consume params (n # ns) consumed =
     (if params n = None then (Inl (Parameter n), consumed)
      else consume params ns (insert n consumed))"

definition direction_text :: "direction \<Rightarrow> string" where
  "direction_text d = (case d of Out \<Rightarrow> ''->'' | In \<Rightarrow> ''<-'' | Both \<Rightarrow> ''<->'')"

definition compile_step :: "graph_env \<Rightarrow> graph_step \<Rightarrow> ferror + step_predicate option" where
  "compile_step env s =
     (case gs_predicate s of
        None \<Rightarrow> Inr None
      | Some x \<Rightarrow>
          rbind (compile (env_evaluate env)
                   (gs_table s # (case gs_alias s of None \<Rightarrow> [] | Some a \<Rightarrow> [a])) x)
            (\<lambda>p. Inr (Some p)))"

definition graph_hop_step ::
  "graph_env \<Rightarrow> bool \<Rightarrow> string \<Rightarrow> graph_hop \<Rightarrow> ferror + resolved_hop" where
  "graph_hop_step env recursive current h =
     rbind (env_catalog env (gs_table (gh_edge h))) (\<lambda>edges.
       case gc_edge edges of
         None \<Rightarrow> Inl (Validation (gc_name edges @ '' is not an edge table; declare it with CREATE EDGE TABLE''))
       | Some edge \<Rightarrow>
           rbind (env_catalog env (gs_table (gh_node h))) (\<lambda>node.
             let forward = (ed_source edge = current \<and> ed_target edge = gc_name node);
                 backward = (ed_target edge = current \<and> ed_source edge = gc_name node);
                 outgoing = (gh_direction h \<noteq> In \<and> forward);
                 incoming = (gh_direction h \<noteq> Out \<and> backward)
             in if \<not> outgoing \<and> \<not> incoming
                then Inl (Validation (''edge table '' @ gc_name edges @ '' connects '' @ ed_source edge @ '' to '' @
                  ed_target edge @ ''; it cannot traverse '' @ current @ '' '' @ direction_text (gh_direction h) @
                  '' '' @ gc_name node))
                else if recursive \<and> \<not> (ed_source edge = ed_target edge \<and> gc_name node = current)
                then Inl (Validation (''recursive GRAPH queries require an edge table from '' @ current @ '' to '' @
                  current))
                else rbind (compile_step env (gh_edge h)) (\<lambda>ep.
                  rbind (compile_step env (gh_node h)) (\<lambda>np.
                    Inr \<lparr>rh_edges = edges, rh_adjacency = ed_adjacency edge, rh_outgoing = outgoing,
                         rh_incoming = incoming, rh_edge_predicate = ep, rh_node = node,
                         rh_node_predicate = np\<rparr>))))"

fun graph_hops_loop :: "graph_env \<Rightarrow> bool \<Rightarrow> string \<Rightarrow> graph_hop list \<Rightarrow> ferror + resolved_hop list" where
  "graph_hops_loop env recursive current [] = Inr []"
| "graph_hops_loop env recursive current (h # hs) =
     rbind (graph_hop_step env recursive current h) (\<lambda>r.
       rbind (graph_hops_loop env recursive (gc_name (rh_node r)) hs) (\<lambda>rs. Inr (r # rs)))"

definition graph_hops :: "graph_env \<Rightarrow> graph_query \<Rightarrow> graph_collection \<Rightarrow> ferror + resolved_hop list" where
  "graph_hops env q root = graph_hops_loop env (gq_depth q \<noteq> None) (gc_name root) (gq_hops q)"

text \<open>The hop of the traversal: a filter reads the document of an id and matches it.\<close>

definition filter_of :: "graph_env \<Rightarrow> graph_collection \<Rightarrow> step_predicate \<Rightarrow> string \<Rightarrow> ferror + bool option" where
  "filter_of env c p i =
     rbind (env_document env c i) (\<lambda>d.
       case d of
         None \<Rightarrow> Inr None
       | Some doc \<Rightarrow> rbind (matches (env_writes env) p doc) (\<lambda>b. Inr (Some b)))"

definition hop_of :: "graph_env \<Rightarrow> resolved_hop \<Rightarrow> hop" where
  "hop_of env r =
     \<lparr>hop_outgoing = rh_outgoing r, hop_incoming = rh_incoming r,
      edge_predicate = map_option (filter_of env (rh_edges r)) (rh_edge_predicate r),
      node_predicate = map_option (filter_of env (rh_node r)) (rh_node_predicate r)\<rparr>"

section \<open>Rows as SQL\<close>

definition hex_digit :: "nat \<Rightarrow> char" where
  "hex_digit n = (if n < 10 then char_of (48 + n) else char_of (87 + n))"

definition hex :: "string \<Rightarrow> string" where
  "hex bytes =
     ''x'' @ [CHR 0x27] @ concat (map (\<lambda>c. [hex_digit (byte c div 16), hex_digit (byte c mod 16)]) bytes) @ [CHR 0x27]"

definition id_array :: "graph_env \<Rightarrow> string list \<Rightarrow> ferror + string" where
  "id_array env ids =
     rbind (collect_results (env_decode env) ids) (\<lambda>vs.
       rbind (encode (env_writes env) (Array vs)) (\<lambda>b. Inr (hex b)))"

fun join :: "string \<Rightarrow> string list \<Rightarrow> string" where
  "join sep [] = []"
| "join sep [x] = x"
| "join sep (x # xs) = x @ sep @ join sep xs"

definition row_tuple :: "graph_env \<Rightarrow> string \<Rightarrow> graph_row \<Rightarrow> ferror + string" where
  "row_tuple env root r =
     (let start = ''('' @ root @ '','' @ hex (row_node r) @ '','' @
            (case row_edge r of None \<Rightarrow> ''NULL'' | Some e \<Rightarrow> hex e) @ '','' @ show_nat (row_depth r)
      in case row_path r of
           None \<Rightarrow> Inr (start @ '')'')
         | Some (nodes, edges) \<Rightarrow>
             rbind (id_array env nodes) (\<lambda>a. rbind (id_array env edges) (\<lambda>b.
               Inr (start @ '','' @ a @ '','' @ b @ '')''))))"

definition rows_sql :: "graph_env \<Rightarrow> nat \<Rightarrow> graph_row list \<Rightarrow> string \<Rightarrow> bool \<Rightarrow> ferror + string" where
  "rows_sql env n rows root with_path =
     (let columns = (if with_path then ''root,node,edge,depth,nodes,edges'' else ''root,node,edge,depth'');
          name = ''__fastdb_graph_rows_'' @ show_nat n
      in rbind
           (if rows = []
            then Inr (''SELECT '' @ join '','' (replicate (if with_path then 6 else 4) ''NULL'') @ '' WHERE 0'')
            else rbind (collect_results (row_tuple env (hex root)) rows)
                   (\<lambda>tuples. Inr (''VALUES '' @ join '','' tuples)))
           (\<lambda>values.
             Inr (''WITH '' @ name @ ''('' @ columns @ '') AS MATERIALIZED ('' @ values @ '') SELECT '' @ columns @
               '' FROM '' @ name)))"

section \<open>Running a source\<close>

text \<open>What a statement accumulates over its sources, and the counter of relation names.\<close>

record source_state =
  src_consumed :: "string set"
  src_counters :: graph_counters
  src_plan :: "string list"
  src_relation :: nat

type_synonym source_result = "((ferror + string \<times> bool) \<times> source_state) run"

definition given :: "ferror + 'a \<Rightarrow> source_state \<Rightarrow> ('a \<Rightarrow> source_result) \<Rightarrow> source_result" where
  "given r st f = (case r of Inl e \<Rightarrow> Returns (Inl e, st) | Inr x \<Rightarrow> f x)"

definition resolve_root :: "val \<Rightarrow> ferror + record_ref" where
  "resolve_root v =
     (case v of
        Record r \<Rightarrow> rbind (canonical (rec_table r)) (\<lambda>t. Inr (r\<lparr>rec_table := t\<rparr>))
      | _ \<Rightarrow> Inl (Validation (''GRAPH root must be a typed record, got '' @
          (case v of
             Null \<Rightarrow> ''null'' | String s \<Rightarrow> ''a string'' | Integer i \<Rightarrow> ''a number'' | Number n \<Rightarrow> ''a number''
           | _ \<Rightarrow> ''another value''))))"

definition hop_line :: "nat \<times> resolved_hop \<Rightarrow> string" where
  "hop_line ih =
     (case ih of (i, h) \<Rightarrow>
       ''GRAPH HOP '' @ show_nat (i + 1) @ '' '' @ gc_name (rh_edges h) @
       (if rh_outgoing h then '' SEARCH USING COVERING INDEX '' @ rh_adjacency h @ ''_out'' else []) @
       (if rh_incoming h then '' SEARCH USING COVERING INDEX '' @ rh_adjacency h @ ''_in'' else []) @
       (if rh_edge_predicate h \<noteq> None then '' EDGE FILTER'' else []) @
       '' TO '' @ gc_name (rh_node h) @
       (if rh_node_predicate h \<noteq> None then '' NODE FILTER'' else []))"

definition recursion_line :: "graph_query \<Rightarrow> string list" where
  "recursion_line q =
     (case (gq_depth q, gq_mode q) of
        (Some (lo, hi), Some mode) \<Rightarrow>
          [''GRAPH RECURSION DEPTH '' @ show_nat lo @ '' TO '' @ show_nat hi @ '' MODE '' @
           (case mode of
              Reachable \<Rightarrow> ''REACHABLE (breadth-first, visited set per root)''
            | Paths \<Rightarrow> ''PATHS (simple paths, no repeated node)'') @ '' '' @
           (if gq_with_path q then ''WITH PATH'' else [])]
      | _ \<Rightarrow> [])"

definition limits_line :: "graph_limits \<Rightarrow> string" where
  "limits_line L =
     ''GRAPH MATERIALIZE limits depth='' @ show_nat (max_depth L) @
     '' adjacency_entries='' @ show_nat (max_adjacency_entries L) @ '' expansions='' @ show_nat (max_expansions L) @
     '' retained_nodes='' @ show_nat (max_retained_nodes L) @ '' path_states='' @ show_nat (max_path_states L) @
     '' rows='' @ show_nat (max_graph_rows L) @ '' bytes='' @ show_nat (max_bytes L)"

definition plan_lines :: "graph_limits \<Rightarrow> graph_query \<Rightarrow> graph_collection \<Rightarrow> resolved_hop list \<Rightarrow> string list" where
  "plan_lines L q root steps =
     (''GRAPH ROOT '' @ gc_name root @ '' USING PRIMARY KEY'') #
     map hop_line (enumerate 0 steps) @ recursion_line q @ [limits_line L]"

definition run_traversal ::
  "graph_env \<Rightarrow> graph_limits \<Rightarrow> graph_query \<Rightarrow> string \<Rightarrow> resolved_hop list \<Rightarrow>
   (ferror + graph_row list \<times> traversal) run" where
  "run_traversal env L q root steps =
     (let hs = map (hop_of env) steps;
          read = (\<lambda>s. env_entries env (rh_adjacency (steps ! s)));
          t = start_traversal L
      in case (gq_depth q, gq_mode q) of
           (Some (lo, hi), Some Reachable) \<Rightarrow>
             if hs = [] then Panics else Returns (reachable_rows (read 0) root (hs ! 0) lo hi (gq_with_path q) t)
         | (Some (lo, hi), Some Paths) \<Rightarrow>
             if hs = [] then Panics else Returns (paths_rows (read 0) root (hs ! 0) lo hi t)
         | _ \<Rightarrow> Returns (fixed read root hs (gq_with_path q) t))"

definition add_counters :: "graph_counters \<Rightarrow> nat \<Rightarrow> graph_counters \<Rightarrow> graph_counters" where
  "add_counters c rows acc =
     \<lparr>adjacency_entries = adjacency_entries acc + adjacency_entries c,
      expansions = expansions acc + expansions c, documents = documents acc + documents c,
      result_rows = result_rows acc + rows, visited_nodes = visited_nodes acc + visited_nodes c,
      peak_bytes = max (peak_bytes acc) (peak_bytes c)\<rparr>"

definition finish_source ::
  "graph_env \<Rightarrow> bool \<Rightarrow> string \<Rightarrow> graph_row list \<Rightarrow> graph_counters \<Rightarrow> source_state \<Rightarrow> source_result" where
  "finish_source env with_path root rows c st =
     given (rows_sql env (src_relation st) rows root with_path) st (\<lambda>sql.
       Returns (Inr (sql, with_path),
         st\<lparr>src_counters := add_counters c (length rows) (src_counters st), src_relation := src_relation st + 1\<rparr>))"

definition traverse_source ::
  "graph_env \<Rightarrow> graph_limits \<Rightarrow> graph_query \<Rightarrow> record_ref \<Rightarrow> graph_collection \<Rightarrow> resolved_hop list \<Rightarrow>
   source_state \<Rightarrow> source_result" where
  "traverse_source env L q root collection steps st =
     given (encode (env_writes env) (Record root)) st (\<lambda>root_id.
       given (env_exists env collection root_id) st (\<lambda>found.
         if \<not> found
         then finish_source env (gq_with_path q) root_id [] (t_counters (start_traversal L)) st
         else case run_traversal env L q root_id steps of
             Panics \<Rightarrow> Panics
           | Returns r \<Rightarrow>
               given r st (\<lambda>(rows, t). finish_source env (gq_with_path q) root_id rows (t_counters t) st)))"

definition explain_source ::
  "graph_env \<Rightarrow> graph_limits \<Rightarrow> graph_query \<Rightarrow> graph_collection \<Rightarrow> resolved_hop list \<Rightarrow> source_state \<Rightarrow> source_result" where
  "explain_source env L q collection steps st =
     (let st = st\<lparr>src_plan := src_plan st @ plan_lines L q collection steps\<rparr>
      in given (rows_sql env (src_relation st) [] [] (gq_with_path q)) st (\<lambda>sql.
           Returns (Inr (sql, gq_with_path q), st\<lparr>src_relation := src_relation st + 1\<rparr>)))"

definition graph_source_sql ::
  "graph_env \<Rightarrow> graph_limits \<Rightarrow> bool \<Rightarrow> string \<Rightarrow> source_state \<Rightarrow> source_result" where
  "graph_source_sql env L explain body st =
     (case parse_graph body of
        None \<Rightarrow> Panics
      | Some (Inl e) \<Rightarrow> Returns (Inl (Syntax e), st)
      | Some (Inr q) \<Rightarrow>
          (case consume (env_params env) (sorted_list_of_set (query_parameters q)) (src_consumed st) of
             (Inl e, consumed) \<Rightarrow> Returns (Inl e, st\<lparr>src_consumed := consumed\<rparr>)
           | (Inr _, consumed) \<Rightarrow>
               (let st = st\<lparr>src_consumed := consumed\<rparr>
                in if max_depth L < length (gq_hops q) \<or>
                      (case gq_depth q of None \<Rightarrow> False | Some (lo, hi) \<Rightarrow> max_depth L < hi)
                   then Returns (Inl (graph_limit ''depth'' (max_depth L)), st)
                   else given (rbind (env_evaluate env (gq_root q)) resolve_root) st (\<lambda>root.
                     given (env_catalog env (rec_table root)) st (\<lambda>collection.
                       given (graph_hops env q collection) st (\<lambda>steps.
                         if explain then explain_source env L q collection steps st
                         else traverse_source env L q root collection steps st))))))"

section \<open>Lemmas on running a source\<close>


lemma consume_ok:
  "consume params ns consumed = (Inr u, consumed') \<Longrightarrow>
   consumed' = consumed \<union> set ns \<and> (\<forall>n \<in> set ns. params n \<noteq> None)"
  by (induction ns arbitrary: consumed) (auto split: if_splits)

lemma finite_parameters [simp]: "finite (parameters x)"
  by (induction x rule: parameters.induct) (auto split: option.splits)

lemma finite_query_parameters [simp]: "finite (query_parameters q)"
  by (auto simp: query_parameters_def step_parameters_def split: option.splits)

lemma graph_hops_length: "graph_hops_loop env r c hs = Inr rs \<Longrightarrow> length rs = length hs"
  by (induction hs arbitrary: c rs) auto

text \<open>A resolved hop follows its edge table in a direction the table has.\<close>

definition joins :: "string \<Rightarrow> resolved_hop \<Rightarrow> bool" where
  "joins current h \<longleftrightarrow>
     (rh_outgoing h \<or> rh_incoming h) \<and>
     (case gc_edge (rh_edges h) of
        None \<Rightarrow> False
      | Some e \<Rightarrow> rh_adjacency h = ed_adjacency e \<and>
          (rh_outgoing h \<longrightarrow> ed_source e = current \<and> ed_target e = gc_name (rh_node h)) \<and>
          (rh_incoming h \<longrightarrow> ed_target e = current \<and> ed_source e = gc_name (rh_node h)))"

lemma graph_hop_step_joins:
  assumes "graph_hop_step env r c h = Inr x"
  shows "joins c x"
proof (cases "env_catalog env (gs_table (gh_edge h))")
  case (Inl e)
  then show ?thesis using assms by (simp add: graph_hop_step_def)
next
  case edges: (Inr edges)
  show ?thesis
  proof (cases "gc_edge edges")
    case None
    then show ?thesis using assms edges by (simp add: graph_hop_step_def)
  next
    case edge: (Some edge)
    show ?thesis
    proof (cases "env_catalog env (gs_table (gh_node h))")
      case (Inl e)
      then show ?thesis using assms edges edge by (simp add: graph_hop_step_def)
    next
      case node: (Inr node)
      define out inc where "out = (gh_direction h \<noteq> In \<and> ed_source edge = c \<and> ed_target edge = gc_name node)"
        and "inc = (gh_direction h \<noteq> Out \<and> ed_target edge = c \<and> ed_source edge = gc_name node)"
      note run = assms [unfolded graph_hop_step_def edges rbind_simps edge option.case node Let_def,
          folded out_def inc_def]
      from run have live: "out \<or> inc" by (rule contrapos_pp) simp
      from run obtain ep np where "x = \<lparr>rh_edges = edges, rh_adjacency = ed_adjacency edge, rh_outgoing = out,
          rh_incoming = inc, rh_edge_predicate = ep, rh_node = node, rh_node_predicate = np\<rparr>"
        by (auto split: if_split_asm)
      then show ?thesis using live edge by (simp add: joins_def out_def inc_def)
    qed
  qed
qed

text \<open>Consecutive hops join: the node collection of a hop is where the next one starts.\<close>

fun connected :: "string \<Rightarrow> resolved_hop list \<Rightarrow> bool" where
  "connected current [] \<longleftrightarrow> True"
| "connected current (h # hs) \<longleftrightarrow> joins current h \<and> connected (gc_name (rh_node h)) hs"

lemma graph_hops_connected: "graph_hops_loop env r c hs = Inr rs \<Longrightarrow> connected c rs"
  by (induction hs arbitrary: c rs) (auto dest: graph_hop_step_joins)

text \<open>What a source that succeeds has checked.\<close>

definition source_checked :: "graph_env \<Rightarrow> graph_limits \<Rightarrow> string \<Rightarrow> bool \<Rightarrow> bool \<Rightarrow> source_state \<Rightarrow> source_state \<Rightarrow> bool" where
  "source_checked env L body explain with_path st st' \<longleftrightarrow>
     (\<exists>q. parse_graph body = Some (Inr q) \<and> with_path = gq_with_path q \<and>
        length (gq_hops q) \<le> max_depth L \<and> (\<forall>lo hi. gq_depth q = Some (lo, hi) \<longrightarrow> hi \<le> max_depth L) \<and>
        query_parameters q \<subseteq> {n. env_params env n \<noteq> None} \<and>
        (\<exists>root collection steps. rbind (env_evaluate env (gq_root q)) resolve_root = Inr root \<and>
           env_catalog env (rec_table root) = Inr collection \<and>
           graph_hops env q collection = Inr steps \<and> connected (gc_name collection) steps) \<and>
        src_consumed st' = src_consumed st \<union> query_parameters q \<and>
        (explain \<longrightarrow> src_counters st' = src_counters st) \<and> (\<not> explain \<longrightarrow> src_plan st' = src_plan st))"

text \<open>A run that does not panic, and keeps the consumed names, the plan or the counters as required.\<close>

definition source_ok :: "bool \<Rightarrow> graph_query \<Rightarrow> source_state \<Rightarrow> source_result \<Rightarrow> bool" where
  "source_ok explain q st r =
     (case r of
        Panics \<Rightarrow> False
      | Returns (Inl e, st') \<Rightarrow> True
      | Returns (Inr (sql, with_path), st') \<Rightarrow>
          with_path = gq_with_path q \<and> src_consumed st' = src_consumed st \<and>
          (explain \<longrightarrow> src_counters st' = src_counters st) \<and> (\<not> explain \<longrightarrow> src_plan st' = src_plan st))"

lemma source_ok_given:
  assumes "\<And>x. r = Inr x \<Longrightarrow> source_ok explain q st (f x)"
  shows "source_ok explain q st (given r st' f)"
  using assms by (cases r) (auto simp: given_def source_ok_def)

lemma given_success:
  "given r st f = Returns (Inr y, st') \<Longrightarrow> \<exists>x. r = Inr x \<and> f x = Returns (Inr y, st')"
  by (cases r) (auto simp: given_def)

lemma finish_source_ok: "source_ok False q st (finish_source env (gq_with_path q) root rows c st)"
  unfolding finish_source_def by (rule source_ok_given) (simp add: source_ok_def)

lemma explain_source_ok: "source_ok True q st (explain_source env L q collection steps st)"
  unfolding explain_source_def Let_def by (rule source_ok_given) (simp add: source_ok_def)

lemma traverse_source_ok:
  assumes "steps \<noteq> []"
  shows "source_ok False q st (traverse_source env L q root collection steps st)"
proof -
  have "run_traversal env L q i steps \<noteq> Panics" for i
    using assms by (auto simp: run_traversal_def Let_def split: option.splits prod.splits graph_mode.splits)
  then show ?thesis
    unfolding traverse_source_def
    by (intro source_ok_given) (auto simp: finish_source_ok split: run.splits intro!: source_ok_given)
qed

text \<open>A query whose parameters are bound and whose depth is allowed.\<close>

lemma source_checked_run:
  assumes q: "parse_graph body = Some (Inr q)"
    and c: "consume (env_params env) (sorted_list_of_set (query_parameters q)) (src_consumed st) = (Inr u, consumed)"
    and depth: "length (gq_hops q) \<le> max_depth L" "\<forall>lo hi. gq_depth q = Some (lo, hi) \<longrightarrow> hi \<le> max_depth L"
  shows "case graph_source_sql env L explain body st of
     Panics \<Rightarrow> False
   | Returns (Inl e, st') \<Rightarrow> True
   | Returns (Inr (sql, with_path), st') \<Rightarrow> source_checked env L body explain with_path st st'"
proof -
  let ?st = "st\<lparr>src_consumed := consumed\<rparr>"
  let ?go = "given (rbind (env_evaluate env (gq_root q)) resolve_root) ?st (\<lambda>root.
    given (env_catalog env (rec_table root)) ?st (\<lambda>collection.
      given (graph_hops env q collection) ?st (\<lambda>steps.
        if explain then explain_source env L q collection steps ?st
        else traverse_source env L q root collection steps ?st)))"
  have "gq_hops q \<noteq> []" using parse_graph_outcome [of body] q by (simp add: outcome_def wf_query_def)
  then have ne: "steps \<noteq> []" if "graph_hops env q collection = Inr steps" for collection steps
    using that graph_hops_length unfolding graph_hops_def by fastforce
  have go: "source_ok explain q ?st ?go"
    by (intro source_ok_given) (use ne explain_source_ok traverse_source_ok in auto)
  have run: "graph_source_sql env L explain body st = ?go"
    using q c depth by (auto simp: graph_source_sql_def Let_def split: option.splits)
  have "query_parameters q \<subseteq> {n. env_params env n \<noteq> None}" "consumed = src_consumed st \<union> query_parameters q"
    using consume_ok [OF c] by auto
  moreover have "\<exists>root collection steps. rbind (env_evaluate env (gq_root q)) resolve_root = Inr root \<and>
      env_catalog env (rec_table root) = Inr collection \<and>
      graph_hops env q collection = Inr steps \<and> connected (gc_name collection) steps"
    if "?go = Returns (Inr y, st')" for y st'
  proof -
    from given_success [OF that] obtain root where
      root: "rbind (env_evaluate env (gq_root q)) resolve_root = Inr root"
      and rest: "given (env_catalog env (rec_table root)) ?st (\<lambda>collection.
        given (graph_hops env q collection) ?st (\<lambda>steps.
          if explain then explain_source env L q collection steps ?st
          else traverse_source env L q root collection steps ?st)) = Returns (Inr y, st')" by blast
    from given_success [OF rest] obtain collection where
      collection: "env_catalog env (rec_table root) = Inr collection"
      and steps: "given (graph_hops env q collection) ?st (\<lambda>steps.
          if explain then explain_source env L q collection steps ?st
          else traverse_source env L q root collection steps ?st) = Returns (Inr y, st')" by blast
    from given_success [OF steps] obtain steps where "graph_hops env q collection = Inr steps" by blast
    moreover from this have "connected (gc_name collection) steps"
      unfolding graph_hops_def by (rule graph_hops_connected)
    ultimately show ?thesis using root collection by blast
  qed
  ultimately show ?thesis
    using go q depth unfolding run source_ok_def source_checked_def
    by (auto split: run.splits prod.splits sum.splits)
qed

section \<open>Properties\<close>

text \<open>C11: \<open>expand_sources\<close> rewrites exactly the GRAPH sources. A statement it returns is the input with
each source, from the word GRAPH after FROM or JOIN to the first token that closes its parenthesis,
replaced by a call whose quoted argument is the body. No source is left out, every body is a query the
parser accepts, and all other text is unchanged, also when the statement is passed on without
tokenizing it. It refuses a statement only for the error of the tokenizer, a source that nothing closes, or
a body the parser refuses, with the error at its place in the statement. The depth underflows only where
a quoted parenthesis follows the word GRAPH.
\<close>

theorem expand_sources_exact:
  "case expand_sources sql of
     Panics \<Rightarrow> quoted_parenthesis sql
   | Returns (Inl e) \<Rightarrow> expansion_refused sql e
   | Returns (Inr out) \<Rightarrow> expanded sql out"
proof (cases "mentions_graph sql")
  case False
  then have "sources sql ts 1 []" if "tokenize sql = Inr ts" for ts
    using graph_at_mentions [OF that] by auto
  then have "expanded sql sql" by (auto simp: expanded_def split: sum.splits intro!: exI [of _ "[]"])
  then show ?thesis using False by (simp add: expand_sources_def)
next
  case m: True
  show ?thesis
  proof (cases "tokenize sql")
    case (Inl x)
    then show ?thesis using m by (simp add: expand_sources_def expansion_refused_def)
  next
    case (Inr ts)
    then show ?thesis using m expand_loop_ok [OF Inr, of 1 "[]" 0]
      by (auto simp: expand_sources_def expand_ok_def expanded_def expansion_refused_def quoted_parenthesis_def
          split: run.splits sum.splits prod.splits)
  qed
qed

text \<open>The overflow is real: a quoted parenthesis and a closing one.\<close>

lemma expand_sources_panics: "expand_sources ''FROM graph [(] )'' = Panics"
proof -
  have "mentions_graph ''FROM graph [(] )''" by code_simp
  moreover have "tokenize ''FROM graph [(] )'' = Inr
      [\<lparr>tok_kind = KWord, tok_text = ''FROM'', tok_start = 0, tok_end = 4\<rparr>,
       \<lparr>tok_kind = KWord, tok_text = ''graph'', tok_start = 5, tok_end = 10\<rparr>,
       \<lparr>tok_kind = KIdentifier, tok_text = ''('', tok_start = 11, tok_end = 14\<rparr>,
       \<lparr>tok_kind = KSymbol, tok_text = '')'', tok_start = 15, tok_end = 16\<rparr>]" by code_simp
  moreover have "eq_ignore_ascii_case ''graph'' ''GRAPH''" "eq_ignore_ascii_case ''FROM'' ''FROM''" by code_simp+
  ultimately show ?thesis by (simp add: expand_sources_def expand_loop.simps graph_at_def)
qed

text \<open>C13: running a GRAPH source never panics, and a source that returns rows or a plan has been checked: the
  body is a query the parser accepts, its hops and its largest depth are within the depth limit, every
  parameter it names is bound and is recorded as consumed, with nothing else consumed, its root
  evaluates to a record whose collection the catalog has, and its hops follow edge tables of the catalog in
  directions these have, the first from that collection and each other from where the one before it ends; an
  EXPLAIN reads no data, so it leaves the counters alone, and a run leaves the plan alone.
\<close>

theorem graph_source_checked:
  "case graph_source_sql env L explain body st of
     Panics \<Rightarrow> False
   | Returns (Inl e, st') \<Rightarrow> True
   | Returns (Inr (sql, with_path), st') \<Rightarrow> source_checked env L body explain with_path st st'"
proof -
  consider e where "parse_graph body = Some (Inl e)" | q where "parse_graph body = Some (Inr q)"
    using parse_graph_outcome [of body] by (auto simp: outcome_def split: option.splits sum.splits)
  then show ?thesis
  proof cases
    case 1
    then show ?thesis by (simp add: graph_source_sql_def)
  next
    case 2
    obtain u consumed where c: "consume (env_params env) (sorted_list_of_set (query_parameters q)) (src_consumed st) =
      (u, consumed)" by (cases "consume (env_params env) (sorted_list_of_set (query_parameters q)) (src_consumed st)")
    show ?thesis
    proof (cases "(\<exists>e. u = Inl e) \<or> max_depth L < length (gq_hops q) \<or>
        (case gq_depth q of None \<Rightarrow> False | Some (lo, hi) \<Rightarrow> max_depth L < hi)")
      case True
      then show ?thesis using 2 c by (cases u) (auto simp: graph_source_sql_def)
    next
      case False
      then obtain x where "u = Inr x" by (cases u) auto
      then show ?thesis
        by (intro source_checked_run [OF 2 c [unfolded \<open>u = Inr x\<close>]]) (use False in auto)
    qed
  qed
qed

end
