(* ===== verification/Field_Rules.thy ===== *)
theory Field_Rules
  imports Budgets "HOL-Library.Sublist" "HOL-Library.Product_Lexorder"
begin

text \<open>
  Field definitions and rules of collections, \<open>fastdb/frontend/src/field_rules.rs\<close> and
  \<open>schema_rules.rs\<close>: the types a value may have, typed array elements, defaults, read-only fields, and
  the strict schema, which accepts a document only when every field of it is declared. A collection
  is the part of it that the rules read.
\<close>

section \<open>Data\<close>

datatype field_type =
    FString | FInteger | FNumber | FBoolean | FObject | FArray | FRecord string | FVector nat

record field =
  f_path :: "string list"
  f_kind :: field_type
  f_required :: bool
  f_nullable :: bool
  f_check :: "string option"

record field_options =
  o_default :: "val option"
  o_computed :: "string option"
  o_readonly :: bool
  o_flexible :: bool
  o_element_type :: "field_type option"
  o_element_nullable :: bool

record policy =
  pol_path :: "string list"
  pol_options :: field_options

record collection_rules =
  cr_fields :: "field list"
  cr_policies :: "policy list"
  cr_strict :: bool
  cr_edge :: bool

definition options_empty :: "field_options \<Rightarrow> bool" where
  "options_empty o1 \<longleftrightarrow>
     o_default o1 = None \<and> o_computed o1 = None \<and> \<not> o_readonly o1 \<and> \<not> o_flexible o1 \<and>
     o_element_type o1 = None \<and> \<not> o_element_nullable o1"

fun join_path :: "string list \<Rightarrow> string" where
  "join_path [] = []"
| "join_path [x] = x"
| "join_path (x # xs) = x @ ''.'' @ join_path xs"

section \<open>Types\<close>

definition matches_kind :: "field_type \<Rightarrow> val \<Rightarrow> ferror + bool" where
  "matches_kind kind v =
     (case (kind, v) of
        (FString, String _) \<Rightarrow> Inr True
      | (FInteger, Integer _) \<Rightarrow> Inr True
      | (FNumber, Integer _) \<Rightarrow> Inr True
      | (FNumber, Number _) \<Rightarrow> Inr True
      | (FBoolean, Boolean _) \<Rightarrow> Inr True
      | (FObject, Object _) \<Rightarrow> Inr True
      | (FArray, Array _) \<Rightarrow> Inr True
      | (FRecord target, Record r) \<Rightarrow> Inr (eq_ignore_ascii_case target (rec_table r))
      | (FVector n, Vector bytes) \<Rightarrow> rbind (dimensions bytes) (\<lambda>d. Inr (d = n))
      | _ \<Rightarrow> Inr False)"

definition type_name :: "field_type \<Rightarrow> string" where
  "type_name kind =
     (case kind of
        FString \<Rightarrow> ''string'' | FInteger \<Rightarrow> ''integer'' | FNumber \<Rightarrow> ''number'' | FBoolean \<Rightarrow> ''boolean''
      | FObject \<Rightarrow> ''object'' | FArray \<Rightarrow> ''array'' | FRecord target \<Rightarrow> ''record<'' @ target @ ''>''
      | FVector n \<Rightarrow> ''vector<'' @ show_nat n @ ''>'')"

definition element_type :: "string option \<Rightarrow> ferror + field_type option \<times> bool" where
  "element_type target =
     (case target of
        None \<Rightarrow> Inr (None, False)
      | Some text \<Rightarrow>
          (let nullable = (text \<noteq> [] \<and> last text = CHR ''?'');
               t = to_ascii_lowercase (if nullable then butlast text else text);
               closed = (t \<noteq> [] \<and> last t = CHR ''>'')
           in if t = ''any'' then Inr (None, False)
              else if t = ''string'' then Inr (Some FString, nullable)
              else if t = ''integer'' then Inr (Some FInteger, nullable)
              else if t = ''number'' then Inr (Some FNumber, nullable)
              else if t = ''boolean'' then Inr (Some FBoolean, nullable)
              else if t = ''object'' then Inr (Some FObject, nullable)
              else if t = ''array'' then Inr (Some FArray, nullable)
              else if starts_with ''record<'' t \<and> closed
              then rbind (canonical (butlast (drop 7 t))) (\<lambda>c. Inr (Some (FRecord c), nullable))
              else if starts_with ''vector<'' t \<and> closed
              then (case parse_unsigned usize_max (butlast (drop 7 t)) of
                      None \<Rightarrow> Inl (Validation ''invalid element vector dimension'')
                    | Some n \<Rightarrow> Inr (Some (FVector n), nullable))
              else Inl (Unsupported ''unsupported array element type'')))"

fun elements_loop :: "field_type \<Rightarrow> bool \<Rightarrow> nat \<Rightarrow> val list \<Rightarrow> ferror + unit" where
  "elements_loop kind nullable index [] = Inr ()"
| "elements_loop kind nullable index (v # vs) =
     rbind (if v = Null \<and> nullable then Inr True else matches_kind kind v) (\<lambda>ok.
       if \<not> ok
       then Inl (Validation (''array element '' @ show_nat index @ '' failed '' @ type_name kind @ '' validation''))
       else elements_loop kind nullable (index + 1) vs)"

text \<open>\<open>work.saturating_add\<close>: the lengths of arrays in memory stay far from the largest \<open>usize\<close>.\<close>

definition validate_elements :: "val \<Rightarrow> field_options \<Rightarrow> nat \<Rightarrow> ferror + nat" where
  "validate_elements v opts work =
     (case (o_element_type opts, v) of
        (Some kind, Array vs) \<Rightarrow>
          (let work = min usize_max (work + length vs)
           in if 1000000 < work then Inl (Limit ''typed array validation exceeds 1000000 elements'')
              else rbind (elements_loop kind (o_element_nullable opts) 0 vs) (\<lambda>_. Inr work))
      | _ \<Rightarrow> Inr work)"

fun arrays_loop :: "policy list \<Rightarrow> document \<Rightarrow> nat \<Rightarrow> ferror + unit" where
  "arrays_loop [] doc work = Inr ()"
| "arrays_loop (p # ps) doc work =
     (if o_element_type (pol_options p) = None then arrays_loop ps doc work
      else rbind (path_value doc (pol_path p)) (\<lambda>r.
        case r of
          None \<Rightarrow> arrays_loop ps doc work
        | Some v \<Rightarrow> rbind (validate_elements v (pol_options p) work) (\<lambda>work. arrays_loop ps doc work)))"

definition validate_arrays :: "collection_rules \<Rightarrow> document \<Rightarrow> ferror + unit" where
  "validate_arrays c doc = arrays_loop (cr_policies c) doc 0"

section \<open>Defaults and read-only fields\<close>

text \<open>\<open>None\<close> is the \<open>expect\<close> on an empty path, which the definition of a field rejects.\<close>

fun apply_default :: "string list \<Rightarrow> val \<Rightarrow> document \<Rightarrow> document option" where
  "apply_default [] v doc = None"
| "apply_default [key] v doc = Some (if bm_contains key doc then doc else bm_insert key v doc)"
| "apply_default (key # rest) v doc =
     (case bm_get key doc of
        Some (Object fs) \<Rightarrow> map_option (\<lambda>fs'. bm_insert key (Object fs') doc) (apply_default rest v fs)
      | _ \<Rightarrow> Some doc)"

definition sorted_policies :: "policy list \<Rightarrow> policy list" where
  "sorted_policies ps = sort_key (\<lambda>p. (length (pol_path p), pol_path p)) ps"

fun defaults_loop :: "policy list \<Rightarrow> document \<Rightarrow> document option" where
  "defaults_loop [] doc = Some doc"
| "defaults_loop (p # ps) doc =
     (case o_default (pol_options p) of
        None \<Rightarrow> defaults_loop ps doc
      | Some v \<Rightarrow> Option.bind (apply_default (pol_path p) v doc) (defaults_loop ps))"

definition defaults :: "collection_rules \<Rightarrow> document \<Rightarrow> document option" where
  "defaults c doc = defaults_loop (sorted_policies (cr_policies c)) doc"

fun same_value :: "val option \<Rightarrow> val option \<Rightarrow> bool" where
  "same_value None None \<longleftrightarrow> True"
| "same_value (Some a) (Some b) \<longleftrightarrow> equal a b"
| "same_value _ _ \<longleftrightarrow> False"

fun readonly_loop :: "policy list \<Rightarrow> document \<Rightarrow> document \<Rightarrow> ferror + unit" where
  "readonly_loop [] before after = Inr ()"
| "readonly_loop (p # ps) before after =
     (if \<not> o_readonly (pol_options p) then readonly_loop ps before after
      else rbind (path_value before (pol_path p)) (\<lambda>b. rbind (path_value after (pol_path p)) (\<lambda>a.
        if same_value b a then readonly_loop ps before after
        else Inl (Validation (''read-only field '' @ join_path (pol_path p) @ '' cannot change or be removed'')))))"

definition readonly :: "collection_rules \<Rightarrow> document \<Rightarrow> document \<Rightarrow> ferror + unit" where
  "readonly c before after = readonly_loop (cr_policies c) before after"

section \<open>The strict schema\<close>

datatype node = Node (children: "(string \<times> node) list") (flexible: bool)

definition empty_node :: node where
  "empty_node = Node [] False"

text \<open>\<open>node.children.entry(key).or_default()\<close> along a path.\<close>

fun declare_path :: "string list \<Rightarrow> node \<Rightarrow> node" where
  "declare_path [] n = n"
| "declare_path (k # ks) n =
     Node (bm_insert k (declare_path ks (case bm_get k (children n) of None \<Rightarrow> empty_node | Some c \<Rightarrow> c)) (children n))
       (flexible n)"

text \<open>The node of a flexible rule; \<open>None\<close> is the \<open>expect\<close> on a path without a node.\<close>

fun mark_flexible :: "string list \<Rightarrow> node \<Rightarrow> node option" where
  "mark_flexible [] n = Some (Node (children n) True)"
| "mark_flexible (k # ks) n =
     (case bm_get k (children n) of
        None \<Rightarrow> None
      | Some c \<Rightarrow> map_option (\<lambda>c'. Node (bm_insert k c' (children n)) (flexible n)) (mark_flexible ks c))"

definition declared_tree :: "collection_rules \<Rightarrow> node" where
  "declared_tree c =
     fold (\<lambda>f. declare_path (f_path f)) (cr_fields c)
       (let root = Node (bm_insert ''id'' empty_node []) False
        in if cr_edge c
           then Node (bm_insert ''target'' empty_node (bm_insert ''source'' empty_node (children root))) False
           else root)"

fun mark_all :: "policy list \<Rightarrow> node \<Rightarrow> node option" where
  "mark_all [] n = Some n"
| "mark_all (p # ps) n =
     (if o_flexible (pol_options p) then Option.bind (mark_flexible (pol_path p) n) (mark_all ps)
      else mark_all ps n)"

definition schema_tree :: "collection_rules \<Rightarrow> node option" where
  "schema_tree c = mark_all (cr_policies c) (declared_tree c)"

definition walk_step :: "nat \<Rightarrow> ferror + nat" where
  "walk_step work =
     (if 1000000 < work + 1 then Inl (Limit ''strict schema validation exceeds 1000000 steps'') else Inr (work + 1))"

definition undeclared :: "string list \<Rightarrow> ferror" where
  "undeclared at = Validation (''undeclared field '' @ join_path at @ '' in strict collection'')"

lemma size_fields: "size_list (size_prod (\<lambda>_. 0) size) fs = size_list (\<lambda>f. Suc (size (snd f))) fs"
  by (induction fs) (auto split: prod.splits)

function (sequential) walk_value :: "val \<Rightarrow> node \<Rightarrow> bool \<Rightarrow> string list \<Rightarrow> nat \<Rightarrow> ferror + nat"
  and walk_elements :: "nat \<Rightarrow> val list \<Rightarrow> node \<Rightarrow> bool \<Rightarrow> string list \<Rightarrow> nat \<Rightarrow> ferror + nat"
  and walk_fields :: "document \<Rightarrow> node \<Rightarrow> bool \<Rightarrow> string list \<Rightarrow> nat \<Rightarrow> ferror + nat" where
  "walk_value (Object fs) n flex at work = walk_fields fs n (flex \<or> flexible n) at work"
| "walk_value (Array vs) n flex at work = walk_elements 0 vs n flex at work"
| "walk_value v n flex at work = Inr work"
| "walk_elements i [] n flex at work = Inr work"
| "walk_elements i (v # vs) n flex at work =
     rbind (walk_step work) (\<lambda>work.
       rbind (walk_value v n flex (at @ [''['' @ show_nat i @ '']'']) work) (\<lambda>work.
         walk_elements (i + 1) vs n flex at work))"
| "walk_fields [] n flex at work = Inr work"
| "walk_fields (f # fs) n flex at work =
     rbind (walk_step work) (\<lambda>work.
       rbind (case bm_get (fst f) (children n) of
                Some child \<Rightarrow> walk_value (snd f) child (flex \<or> flexible child) (at @ [fst f]) work
              | None \<Rightarrow> if flex then Inr work else Inl (undeclared (at @ [fst f])))
         (\<lambda>work. walk_fields fs n flex at work))"
  by pat_completeness auto
termination
  by (relation "measure (\<lambda>x. case x of
      Inl (v, _) \<Rightarrow> 2 * size v
    | Inr (Inl (_, vs, _)) \<Rightarrow> Suc (2 * size_list size vs)
    | Inr (Inr (fs, _)) \<Rightarrow> Suc (2 * size_list (\<lambda>f. Suc (size (snd f))) fs))") (auto simp: size_fields)

text \<open>\<open>schema_rules::validate\<close>; \<open>None\<close> is the panic of a flexible rule without a field.\<close>

definition validate_strict :: "collection_rules \<Rightarrow> document \<Rightarrow> (ferror + unit) option" where
  "validate_strict c doc =
     (if \<not> cr_strict c then Some (Inr ())
      else map_option (\<lambda>root. rbind (walk_fields doc root (flexible root) [] 0) (\<lambda>_. Inr ())) (schema_tree c))"

definition validate_definition :: "collection_rules \<Rightarrow> ferror + unit" where
  "validate_definition c =
     (if \<not> cr_strict c then Inr ()
      else if 1024 < length (cr_fields c) \<or> list_ex (\<lambda>f. 64 < length (f_path f)) (cr_fields c)
      then Inl (Limit ''strict schema exceeds 1024 fields or 64 path steps'')
      else try_all (\<lambda>f.
        if f_kind f \<noteq> FObject \<and>
           list_ex (\<lambda>g. length (f_path f) < length (f_path g) \<and> starts_with (f_path f) (f_path g)) (cr_fields c)
        then Inl (Validation (''strict schema parent '' @ join_path (f_path f) @ '' must be an object''))
        else Inr ()) (cr_fields c))"

section \<open>Declared and flexible paths\<close>

fun has_node :: "node \<Rightarrow> string list \<Rightarrow> bool" where
  "has_node n [] \<longleftrightarrow> True"
| "has_node n (k # ks) \<longleftrightarrow> (case bm_get k (children n) of None \<Rightarrow> False | Some c \<Rightarrow> has_node c ks)"

fun flexible_at :: "node \<Rightarrow> string list \<Rightarrow> bool" where
  "flexible_at n [] \<longleftrightarrow> flexible n"
| "flexible_at n (k # ks) \<longleftrightarrow> (case bm_get k (children n) of None \<Rightarrow> False | Some c \<Rightarrow> flexible_at c ks)"

lemma empty_node_simps [simp]:
  "children empty_node = []" "flexible empty_node = False"
  "has_node empty_node p \<longleftrightarrow> p = []" "\<not> flexible_at empty_node p"
  by (simp_all add: empty_node_def) (cases p; simp)+

lemma declare_path_at:
  "(has_node (declare_path q n) p \<longleftrightarrow> has_node n p \<or> prefix p q) \<and>
   (flexible_at (declare_path q n) p \<longleftrightarrow> flexible_at n p)"
proof (induction q arbitrary: n p)
  case (Cons k q)
  show ?case
  proof (cases p)
    case p: (Cons j p')
    show ?thesis
      using Cons.IH [of "case bm_get k (children n) of None \<Rightarrow> empty_node | Some c \<Rightarrow> c" p'] p
      by (auto split: option.splits)
  qed simp
qed auto

lemma fold_declare_at:
  "(has_node (fold (\<lambda>f. declare_path (f_path f)) fs n) p \<longleftrightarrow>
      has_node n p \<or> (\<exists>f \<in> set fs. prefix p (f_path f))) \<and>
   (flexible_at (fold (\<lambda>f. declare_path (f_path f)) fs n) p \<longleftrightarrow> flexible_at n p)"
  by (induction fs arbitrary: n) (auto simp: declare_path_at)

text \<open>The paths a strict collection declares, with all their parents.\<close>

definition declared :: "collection_rules \<Rightarrow> string list \<Rightarrow> bool" where
  "declared c p \<longleftrightarrow>
     p = [] \<or> p = [''id''] \<or> cr_edge c \<and> p \<in> {[''source''], [''target'']} \<or>
     (\<exists>f \<in> set (cr_fields c). prefix p (f_path f))"

lemma declared_tree_at:
  "has_node (declared_tree c) p \<longleftrightarrow> declared c p"
  "\<not> flexible_at (declared_tree c) p"
proof -
  let ?root = "Node (bm_insert ''id'' empty_node []) False"
  let ?base = "if cr_edge c then Node (bm_insert ''target'' empty_node (bm_insert ''source'' empty_node (children ?root))) False
    else ?root"
  have tree: "declared_tree c = fold (\<lambda>f. declare_path (f_path f)) (cr_fields c) ?base"
    by (simp add: declared_tree_def Let_def)
  have base: "has_node ?base p \<longleftrightarrow> p = [] \<or> p = [''id''] \<or> cr_edge c \<and> p \<in> {[''source''], [''target'']}"
    by (cases p) auto
  have flex: "\<not> flexible_at ?base p" by (cases p) auto
  show "has_node (declared_tree c) p \<longleftrightarrow> declared c p" "\<not> flexible_at (declared_tree c) p"
    using fold_declare_at [of "cr_fields c" ?base p] base flex unfolding tree declared_def by blast+
qed

lemma mark_flexible_at:
  "mark_flexible q n = Some n' \<Longrightarrow>
   (has_node n' p \<longleftrightarrow> has_node n p) \<and> (flexible_at n' p \<longleftrightarrow> flexible_at n p \<or> p = q)"
proof (induction q n arbitrary: n' p rule: mark_flexible.induct)
  case (1 n)
  then show ?case by (cases p) auto
next
  case (2 k ks n)
  then obtain c c' where c: "bm_get k (children n) = Some c" "mark_flexible ks c = Some c'"
    and n': "n' = Node (bm_insert k c' (children n)) (flexible n)" by (auto split: option.splits)
  show ?case
  proof (cases p)
    case (Cons j p')
    then show ?thesis using "2.IH" [OF c, of p'] c n' by (auto split: option.splits)
  qed (simp add: n')
qed

lemma mark_flexible_None: "mark_flexible q n = None \<longleftrightarrow> \<not> has_node n q"
  by (induction q n rule: mark_flexible.induct) (auto split: option.splits)

lemma mark_all_at:
  "mark_all ps n = Some n' \<Longrightarrow>
   (has_node n' p \<longleftrightarrow> has_node n p) \<and>
   (flexible_at n' p \<longleftrightarrow> flexible_at n p \<or> (\<exists>r \<in> set ps. o_flexible (pol_options r) \<and> p = pol_path r))"
proof (induction ps arbitrary: n)
  case (Cons r ps)
  show ?case
  proof (cases "o_flexible (pol_options r)")
    case True
    then obtain m where m: "mark_flexible (pol_path r) n = Some m" "mark_all ps m = Some n'"
      using Cons.prems by (auto simp: bind_eq_Some_conv)
    show ?thesis using Cons.IH [OF m(2)] mark_flexible_at [OF m(1), of p] True by auto
  next
    case False
    then show ?thesis using Cons.IH [of n] Cons.prems by auto
  qed
qed simp

lemma mark_all_marked:
  "mark_all ps n = Some n' \<Longrightarrow> r \<in> set ps \<Longrightarrow> o_flexible (pol_options r) \<Longrightarrow> has_node n (pol_path r)"
proof (induction ps arbitrary: n)
  case (Cons p ps)
  show ?case
  proof (cases "o_flexible (pol_options p)")
    case True
    then obtain m where m: "mark_flexible (pol_path p) n = Some m" "mark_all ps m = Some n'"
      using Cons.prems by (auto simp: bind_eq_Some_conv)
    then have "has_node n (pol_path p)" using mark_flexible_None [of "pol_path p" n] by simp
    then show ?thesis using Cons.IH [OF m(2)] Cons.prems mark_flexible_at [OF m(1)] by auto
  next
    case False
    then show ?thesis using Cons.IH [of n] Cons.prems by auto
  qed
qed simp

lemma mark_all_None:
  "mark_all ps n = None \<Longrightarrow> \<exists>r \<in> set ps. o_flexible (pol_options r) \<and> \<not> has_node n (pol_path r)"
proof (induction ps arbitrary: n)
  case (Cons r ps)
  show ?case
  proof (cases "o_flexible (pol_options r)")
    case True
    show ?thesis
    proof (cases "mark_flexible (pol_path r) n")
      case None
      then show ?thesis using True by (auto simp: mark_flexible_None)
    next
      case (Some m)
      then have "mark_all ps m = None" using Cons.prems True by simp
      then show ?thesis using Cons.IH [of m] mark_flexible_at [OF Some] by auto
    qed
  next
    case False
    then show ?thesis using Cons by auto
  qed
qed simp

definition flexible_rule :: "collection_rules \<Rightarrow> string list \<Rightarrow> bool" where
  "flexible_rule c p \<longleftrightarrow> (\<exists>r \<in> set (cr_policies c). o_flexible (pol_options r) \<and> p = pol_path r)"

definition stray_flexible :: "collection_rules \<Rightarrow> bool" where
  "stray_flexible c \<longleftrightarrow> (\<exists>p. flexible_rule c p \<and> \<not> declared c p)"

lemma schema_tree_at:
  assumes "schema_tree c = Some root"
  shows "has_node root p \<longleftrightarrow> declared c p" "flexible_at root p \<longleftrightarrow> flexible_rule c p"
  using mark_all_at [of "cr_policies c" "declared_tree c" root p] assms declared_tree_at [of c p]
  by (auto simp: schema_tree_def flexible_rule_def)

lemma schema_tree_None: "schema_tree c = None \<longleftrightarrow> stray_flexible c"
proof
  assume "schema_tree c = None"
  then obtain r where "r \<in> set (cr_policies c)" "o_flexible (pol_options r)" "\<not> has_node (declared_tree c) (pol_path r)"
    using mark_all_None unfolding schema_tree_def by blast
  then show "stray_flexible c" by (auto simp: stray_flexible_def flexible_rule_def declared_tree_at)
next
  assume "stray_flexible c"
  then obtain r where r: "r \<in> set (cr_policies c)" "o_flexible (pol_options r)" "\<not> declared c (pol_path r)"
    by (auto simp: stray_flexible_def flexible_rule_def)
  show "schema_tree c = None"
  proof (cases "schema_tree c")
    case (Some root)
    then have "has_node (declared_tree c) (pol_path r)"
      using mark_all_marked r(1,2) by (auto simp: schema_tree_def)
    then show ?thesis using r(3) by (simp add: declared_tree_at)
  qed
qed

section \<open>The walk\<close>

text \<open>
  The walk over a document said without the tree. A path lies under a flexible rule when the rule is on
  it or on a prefix of it. The walk takes one step per key of an object and one per array element, in
  document order, and goes into the value of a key only when the path of the key is declared. A step
  is listed as the key path, array elements left out (\<open>None\<close> for the step of an element), with the path
  an error shows.
\<close>

definition under_flexible :: "collection_rules \<Rightarrow> string list \<Rightarrow> bool" where
  "under_flexible c p \<longleftrightarrow> (\<exists>q. prefix q p \<and> flexible_rule c q)"

function (sequential) visits :: "collection_rules \<Rightarrow> string list \<Rightarrow> string list \<Rightarrow> val \<Rightarrow> (string list option \<times> string list) list"
  and visits_elements :: "collection_rules \<Rightarrow> string list \<Rightarrow> string list \<Rightarrow> nat \<Rightarrow> val list \<Rightarrow> (string list option \<times> string list) list"
  and visits_fields :: "collection_rules \<Rightarrow> string list \<Rightarrow> string list \<Rightarrow> document \<Rightarrow> (string list option \<times> string list) list" where
  "visits c p at (Object fs) = visits_fields c p at fs"
| "visits c p at (Array vs) = visits_elements c p at 0 vs"
| "visits c p at v = []"
| "visits_elements c p at i [] = []"
| "visits_elements c p at i (v # vs) =
     (None, at @ [''['' @ show_nat i @ '']'']) #
       visits c p (at @ [''['' @ show_nat i @ '']'']) v @ visits_elements c p at (i + 1) vs"
| "visits_fields c p at [] = []"
| "visits_fields c p at (f # fs) =
     (Some (p @ [fst f]), at @ [fst f]) #
       (if declared c (p @ [fst f]) then visits c (p @ [fst f]) (at @ [fst f]) (snd f) else []) @
       visits_fields c p at fs"
  by pat_completeness auto
termination
  by (relation "measure (\<lambda>x. case x of
      Inl (_, _, _, v) \<Rightarrow> 2 * size v
    | Inr (Inl (_, _, _, _, vs)) \<Rightarrow> Suc (2 * size_list size vs)
    | Inr (Inr (_, _, _, fs)) \<Rightarrow> Suc (2 * size_list (\<lambda>f. Suc (size (snd f))) fs))") (auto simp: size_fields)

definition refused :: "collection_rules \<Rightarrow> string list option \<times> string list \<Rightarrow> bool" where
  "refused c v \<longleftrightarrow> (case fst v of None \<Rightarrow> False | Some p \<Rightarrow> \<not> declared c p \<and> \<not> under_flexible c p)"

lemma refused_simps [simp]:
  "\<not> refused c (None, at)" "refused c (Some p, at) \<longleftrightarrow> \<not> declared c p \<and> \<not> under_flexible c p"
  by (simp_all add: refused_def)

text \<open>Taking the steps one by one: the limit is tested before the key.\<close>

fun scan :: "('a \<Rightarrow> bool) \<Rightarrow> ('a \<times> string list) list \<Rightarrow> nat \<Rightarrow> ferror + nat" where
  "scan bad [] work = Inr work"
| "scan bad (v # vs) work =
     rbind (walk_step work) (\<lambda>work. if bad (fst v) then Inl (undeclared (snd v)) else scan bad vs work)"

lemma scan_append: "scan bad (vs @ ws) work = rbind (scan bad vs work) (scan bad ws)"
  by (induction vs arbitrary: work) (auto simp: rbind_def split: sum.splits)

lemma scan_find:
  assumes "work \<le> 1000000"
  shows "scan bad vs work =
    (case find (\<lambda>v. bad (fst v)) (take (1000000 - work) vs) of
       Some v \<Rightarrow> Inl (undeclared (snd v))
     | None \<Rightarrow> if 1000000 < work + length vs then Inl (Limit ''strict schema validation exceeds 1000000 steps'')
               else Inr (work + length vs))"
  using assms
proof (induction vs arbitrary: work)
  case (Cons v vs)
  show ?case
  proof (cases "work = 1000000")
    case False
    then have "1000000 - work = Suc (1000000 - Suc work)" using Cons.prems by simp
    then show ?thesis using Cons.IH [of "Suc work"] Cons.prems False
      by (simp add: walk_step_def split: option.split)
  qed (simp add: walk_step_def)
qed simp

text \<open>The node of a path in the tree of a collection.\<close>

definition node_at :: "collection_rules \<Rightarrow> node \<Rightarrow> string list \<Rightarrow> bool" where
  "node_at c n p \<longleftrightarrow>
     (\<forall>q. (has_node n q \<longleftrightarrow> declared c (p @ q)) \<and> (flexible_at n q \<longleftrightarrow> flexible_rule c (p @ q)))"

lemma node_at_child:
  assumes "node_at c n p"
  shows "bm_get k (children n) = None \<Longrightarrow> \<not> declared c (p @ [k]) \<and> \<not> flexible_rule c (p @ [k])"
    and "bm_get k (children n) = Some m \<Longrightarrow>
      declared c (p @ [k]) \<and> node_at c m (p @ [k]) \<and> (flexible m \<longleftrightarrow> flexible_rule c (p @ [k]))"
proof -
  have at: "has_node n (k # q) \<longleftrightarrow> declared c (p @ k # q)" "flexible_at n (k # q) \<longleftrightarrow> flexible_rule c (p @ k # q)" for q
    using assms [unfolded node_at_def, rule_format, of "k # q"] by blast+
  show "bm_get k (children n) = None \<Longrightarrow> \<not> declared c (p @ [k]) \<and> \<not> flexible_rule c (p @ [k])"
    using at [of "[]"] by simp
  show "declared c (p @ [k]) \<and> node_at c m (p @ [k]) \<and> (flexible m \<longleftrightarrow> flexible_rule c (p @ [k]))"
    if m: "bm_get k (children n) = Some m"
  proof -
    have "has_node m q \<longleftrightarrow> declared c (p @ k # q)" "flexible_at m q \<longleftrightarrow> flexible_rule c (p @ k # q)" for q
      using at [of q] m by simp_all
    from this [of "[]"] this show ?thesis by (simp add: node_at_def)
  qed
qed

lemma under_flexible_snoc: "under_flexible c (p @ [k]) \<longleftrightarrow> under_flexible c p \<or> flexible_rule c (p @ [k])"
  unfolding under_flexible_def prefix_snoc by blast

lemma under_flexible_append: "under_flexible c p \<Longrightarrow> under_flexible c (p @ q)"
  unfolding under_flexible_def by (meson prefix_append prefix_order.trans prefixI)

lemma walk_visits:
  "node_at c n p \<Longrightarrow> flex = under_flexible c p \<Longrightarrow>
     walk_value v n flex at work = scan (\<lambda>q. refused c (q, [])) (visits c p at v) work"
  "node_at c n p \<Longrightarrow> flex = under_flexible c p \<Longrightarrow>
     walk_elements i vs n flex at work = scan (\<lambda>q. refused c (q, [])) (visits_elements c p at i vs) work"
  "node_at c n p \<Longrightarrow> flex = under_flexible c p \<Longrightarrow>
     walk_fields fs n flex at work = scan (\<lambda>q. refused c (q, [])) (visits_fields c p at fs) work"
proof (induction v n flex at work and i vs n flex at work and fs n flex at work
    arbitrary: p and p and p rule: walk_value_walk_elements_walk_fields.induct)
  case (1 fs n flex at work)
  have "flexible n \<Longrightarrow> flex"
    using "1.prems" [unfolded node_at_def] by (auto simp: under_flexible_def dest!: spec [of _ "[]"])
  then have "(flex \<or> flexible n) = flex" by blast
  then show ?case using "1.IH" [OF "1.prems"(1)] "1.prems"(2) by simp
next
  case (5 i v vs n flex at work)
  show ?case
    by (cases "walk_step work")
      (simp_all add: scan_append "5.IH"(1) [OF "5.prems", simplified] "5.IH"(2) [OF "5.prems", simplified] rbind_def split: sum.split)
next
  case (7 f fs n flex at work)
  show ?case
  proof (cases "bm_get (fst f) (children n)")
    case None
    then have bad: "refused c (Some (p @ [fst f]), []) \<longleftrightarrow> \<not> flex" "\<not> declared c (p @ [fst f])"
      using node_at_child(1) [OF "7.prems"(1) None] "7.prems"(2)
      by (simp_all add: under_flexible_snoc)
    show ?thesis using "7.IH"(2) [OF "7.prems"]
      by (cases "walk_step work") (auto simp del: refused_simps simp add: None bad)
  next
    case (Some m)
    then have m: "declared c (p @ [fst f])" "node_at c m (p @ [fst f])"
        "(flex \<or> flexible m) = under_flexible c (p @ [fst f])"
      using node_at_child(2) [OF "7.prems"(1) Some] "7.prems"(2) by (simp_all add: under_flexible_snoc)
    show ?thesis
      by (cases "walk_step work")
        (simp_all add: Some m(1) scan_append "7.IH"(1) [OF Some m(2,3)] "7.IH"(2) [OF "7.prems"] rbind_def
          split: sum.split)
  qed
qed simp_all

text \<open>The key paths of a value, array elements in between left out.\<close>

fun key_paths :: "val \<Rightarrow> string list set" where
  "key_paths (Object fs) = \<Union> (set (map (\<lambda>f. insert [fst f] ((#) (fst f) ` key_paths (snd f))) fs))"
| "key_paths (Array vs) = \<Union> (set (map key_paths vs))"
| "key_paths _ = {}"

definition permitted :: "collection_rules \<Rightarrow> string list \<Rightarrow> string list set \<Rightarrow> bool" where
  "permitted c p qs \<longleftrightarrow> (\<forall>q \<in> qs. declared c (p @ q) \<or> under_flexible c (p @ q))"

lemma permitted_simps [simp]:
  "permitted c p {}" "permitted c p (qs \<union> rs) \<longleftrightarrow> permitted c p qs \<and> permitted c p rs"
  "permitted c p (insert q qs) \<longleftrightarrow> (declared c (p @ q) \<or> under_flexible c (p @ q)) \<and> permitted c p qs"
  "permitted c p ((#) k ` qs) \<longleftrightarrow> permitted c (p @ [k]) qs"
  by (auto simp: permitted_def)

lemma permitted_under: "under_flexible c p \<Longrightarrow> permitted c p qs"
  by (simp add: permitted_def under_flexible_append)

lemma visits_permitted:
  "list_ex (refused c) (visits c p at v) \<longleftrightarrow> \<not> permitted c p (key_paths v)"
  "list_ex (refused c) (visits_elements c p at i vs) \<longleftrightarrow> \<not> permitted c p (key_paths (Array vs))"
  "list_ex (refused c) (visits_fields c p at fs) \<longleftrightarrow> \<not> permitted c p (key_paths (Object fs))"
proof (induction c p at v and c p at i vs and c p at fs rule: visits_visits_elements_visits_fields.induct)
  case (7 c p at f fs)
  then show ?case
    by (cases "declared c (p @ [fst f])") (auto simp: permitted_under)
qed simp_all

section \<open>Property\<close>

text \<open>What the strict schema of a collection asks of a document.\<close>

definition strict_conforms :: "collection_rules \<Rightarrow> document \<Rightarrow> bool" where
  "strict_conforms c doc \<longleftrightarrow>
     \<not> cr_strict c \<or>
     (\<forall>p \<in> key_paths (Object doc). declared c p \<or> (\<exists>q. prefix q p \<and> flexible_rule c q))"

text \<open>C5: strict validation, exactly. A collection that is not strict accepts every document. A strict one
panics exactly when some flexible rule is on a path that no field declares, which the catalog excludes.
Otherwise the verdict is that of the first million steps, a step being a key or an array element in
document order outside undeclared values: the first key among them that is neither declared (as a field, a
parent of a field, the id, or an end of an edge) nor under a flexible rule is reported as undeclared, with
its path; without one the document is accepted, unless a step is left, which is the limit error. No key of
any step is refused exactly when the document conforms, that is when each key path of it, array elements in
between left out, is declared or under a flexible rule.\<close>

theorem strict_exact:
  "validate_strict c doc =
     (if \<not> cr_strict c then Some (Inr ())
      else if stray_flexible c then None
      else Some (case find (refused c) (take 1000000 (visits_fields c [] [] doc)) of
          Some v \<Rightarrow> Inl (undeclared (snd v))
        | None \<Rightarrow>
            if 1000000 < length (visits_fields c [] [] doc)
            then Inl (Limit ''strict schema validation exceeds 1000000 steps'')
            else Inr ())) \<and>
   (strict_conforms c doc \<longleftrightarrow>
      (if cr_strict c then find (refused c) (visits_fields c [] [] doc) = None else True))"
proof
  have bad: "(\<lambda>v. refused c (fst v, [])) = refused c" by (simp add: refused_def fun_eq_iff)
  show "validate_strict c doc =
     (if \<not> cr_strict c then Some (Inr ())
      else if stray_flexible c then None
      else Some (case find (refused c) (take 1000000 (visits_fields c [] [] doc)) of
          Some v \<Rightarrow> Inl (undeclared (snd v))
        | None \<Rightarrow>
            if 1000000 < length (visits_fields c [] [] doc)
            then Inl (Limit ''strict schema validation exceeds 1000000 steps'')
            else Inr ()))"
  proof (cases "schema_tree c")
    case None
    then show ?thesis by (simp add: validate_strict_def schema_tree_None [symmetric])
  next
    case (Some root)
    then have at: "node_at c root []" by (simp add: node_at_def schema_tree_at)
    have flex: "flexible root = under_flexible c []"
      using schema_tree_at(2) [OF Some, of "[]"] by (simp add: under_flexible_def)
    have "\<not> stray_flexible c" using Some by (simp add: schema_tree_None [symmetric])
    then show ?thesis
      by (simp add: validate_strict_def Some walk_visits(3) [OF at flex] scan_find bad split: option.split)
  qed
  show "strict_conforms c doc \<longleftrightarrow>
      (if cr_strict c then find (refused c) (visits_fields c [] [] doc) = None else True)"
  proof -
    have "find (refused c) (visits_fields c [] [] doc) = None \<longleftrightarrow> \<not> list_ex (refused c) (visits_fields c [] [] doc)"
      by (auto simp: find_None_iff list_ex_iff)
    moreover have "strict_conforms c doc \<longleftrightarrow> \<not> cr_strict c \<or> permitted c [] (key_paths (Object doc))"
      by (simp only: strict_conforms_def permitted_def under_flexible_def append_Nil)
    ultimately show ?thesis by (simp only: visits_permitted) simp
  qed
qed

end
