(* ===== verification/Computed.thy ===== *)
theory Computed
  imports Field_Rules Expressions
begin

text \<open>
  Computed fields, \<open>fastdb/frontend/src/computed.rs\<close>: the check of an expression and its dependencies, the
  plan that orders the computed fields of a collection, and the computation and check of the fields of
  a document. The evaluation of an expression on a document is SQL of the engine and a parameter.
\<close>

section \<open>Definitions\<close>

record computed_def =
  cd_expression :: expr
  cd_dependencies :: "string list set"

definition eligible_call :: "string \<Rightarrow> nat \<Rightarrow> bool" where
  "eligible_call f arity \<longleftrightarrow>
     (let n = to_ascii_lowercase f
      in if n \<in> {''abs'', ''length'', ''lower'', ''upper'', ''record::id'', ''record::table'', ''array::len'',
            ''array::distinct'', ''array::flatten'', ''doc::keys'', ''doc::values'', ''doc::entries'',
            ''doc::from_entries'', ''string::slugify'', ''vector32'', ''vector64''} then arity = 1
         else if n \<in> {''trim'', ''ltrim'', ''rtrim'', ''round''} then 1 \<le> arity \<and> arity \<le> 2
         else if n \<in> {''substr'', ''substring''} then 2 \<le> arity \<and> arity \<le> 3
         else if n \<in> {''replace'', ''geo::within''} then arity = 3
         else if n = ''coalesce'' then 2 \<le> arity
         else if n \<in> {''ifnull'', ''nullif'', ''type::record'', ''doc::get'', ''doc::has'', ''string::normalize'',
            ''array::append'', ''array::contains'', ''geo::point'', ''geo::distance''} then arity = 2
         else n = ''array::new'')"

text \<open>The subexpressions in the order they are visited.\<close>

fun subexpressions :: "expr \<Rightarrow> expr list" where
  "subexpressions (EUnary op a) = [a]"
| "subexpressions (EBinary a op b) = [a, b]"
| "subexpressions (ECall f args) = args"
| "subexpressions (EObject fs) = map snd fs"
| "subexpressions (EArray xs) = xs"
| "subexpressions (ECase base branches fallback) =
     (case base of None \<Rightarrow> [] | Some x \<Rightarrow> [x]) @ (case fallback of None \<Rightarrow> [] | Some x \<Rightarrow> [x]) @
     concat (map (\<lambda>b. [fst b, snd b]) branches)"
| "subexpressions _ = []"

text \<open>What \<open>visit\<close> checks of one node, before its subexpressions.\<close>

definition visit_node :: "expr \<Rightarrow> string list set \<times> nat \<Rightarrow> ferror + string list set \<times> nat" where
  "visit_node x s =
     (case s of (deps, work) \<Rightarrow>
        if 256 < work + 1 then Inl (Limit ''computed expression exceeds 256 nodes'')
        else case x of
            EParameter n \<Rightarrow> Inl (Validation ''computed fields cannot capture parameters'')
          | EField p \<Rightarrow>
              rbind (validate_path p) (\<lambda>_.
                if 64 < length p then Inl (Limit ''computed dependency exceeds 64 path steps'')
                else Inr (insert p deps, work + 1))
          | ECall f args \<Rightarrow>
              if eligible_call f (length args) then Inr (deps, work + 1)
              else Inl (Validation (''function '' @ f @ '' or its arity is not eligible in a computed field''))
          | _ \<Rightarrow> Inr (deps, work + 1))"

lemma size_subexpressions: "x \<in> set (subexpressions e) \<Longrightarrow> size x < size e"
proof (cases e)
  case (ECase base branches fallback)
  assume x: "x \<in> set (subexpressions e)"
  have "size (fst b) + size (snd b) \<le> size_list (size_prod size size) branches" if "b \<in> set branches" for b
    using that by (induction branches) (auto split: prod.splits)
  then show ?thesis using x unfolding ECase by (fastforce split: option.splits)
next
  case (EObject fs)
  assume x: "x \<in> set (subexpressions e)"
  have "size (snd f) \<le> size_list (size_prod (\<lambda>_. 0) size) fs" if "f \<in> set fs" for f
    using that by (induction fs) (auto split: prod.splits)
  then show ?thesis using x unfolding EObject by fastforce
qed (auto simp: size_list_estimation less_Suc_eq_le size_list_estimation')

function visit_expr :: "expr \<Rightarrow> string list set \<times> nat \<Rightarrow> ferror + string list set \<times> nat" where
  "visit_expr x s =
     rbind (visit_node x s) (\<lambda>s. fold (\<lambda>y r. rbind r (visit_expr y)) (subexpressions x) (Inr s))"
  by pat_completeness auto
termination
  by (relation "measure (\<lambda>(x, s). size x)") (auto simp: size_subexpressions)

declare visit_expr.simps [simp del]

text \<open>A parser that ran out of fuel would be the last case; it never does.\<close>

definition parsed :: "string \<Rightarrow> ferror + expr" where
  "parsed sql =
     (case parse_expression sql of
        Some (Inr x) \<Rightarrow> Inr x
      | Some (Inl e) \<Rightarrow> Inl (Syntax e)
      | None \<Rightarrow> Inl (Limit ''fuel''))"

definition definition_inner :: "string \<Rightarrow> ferror + computed_def" where
  "definition_inner sql =
     (if 16 * 1024 < length sql then Inl (Limit ''computed expression exceeds 16 KiB'')
      else rbind (parsed sql) (\<lambda>x.
        rbind (visit_expr x ({}, 0)) (\<lambda>(deps, work).
          Inr \<lparr>cd_expression = x, cd_dependencies = deps\<rparr>)))"

definition validate_computed :: "field_options \<Rightarrow> ferror + unit" where
  "validate_computed opts =
     (case o_computed opts of
        None \<Rightarrow> Inr ()
      | Some sql \<Rightarrow>
          if o_default opts \<noteq> None \<or> o_readonly opts
          then Inl (Validation ''VALUE cannot be combined with DEFAULT or READONLY'')
          else rbind (definition_inner sql) (\<lambda>_. Inr ()))"

section \<open>The plan\<close>

definition computed_fields :: "collection_rules \<Rightarrow> (string list \<times> string) list" where
  "computed_fields c =
     List.map_filter (\<lambda>p. map_option (Pair (pol_path p)) (o_computed (pol_options p))) (cr_policies c)"

definition related :: "string list \<Rightarrow> string list \<Rightarrow> bool" where
  "related p q \<longleftrightarrow> starts_with q p \<or> starts_with p q"

text \<open>
  One row of \<open>edges\<close>: the fields that the expression of field \<open>i\<close> reads, with the check that no other
  output path overlaps.
\<close>

fun edge_row :: "nat \<Rightarrow> string list \<Rightarrow> string list set \<Rightarrow> nat \<Rightarrow> string list list \<Rightarrow> ferror + nat list" where
  "edge_row i p deps other [] = Inr []"
| "edge_row i p deps other (q # qs) =
     (if i \<noteq> other \<and> related p q then Inl (Validation ''computed output paths cannot overlap'')
      else rbind (edge_row i p deps (other + 1) qs) (\<lambda>row.
        Inr (if \<exists>d \<in> deps. related d q then other # row else row)))"

fun edge_rows :: "nat \<Rightarrow> string list list \<Rightarrow> (string list \<times> computed_def) list \<Rightarrow> ferror + nat list list" where
  "edge_rows i paths [] = Inr []"
| "edge_rows i paths (f # fs) =
     rbind (edge_row i (fst f) (cd_dependencies (snd f)) 0 paths) (\<lambda>row.
       rbind (edge_rows (i + 1) paths fs) (\<lambda>rows. Inr (row # rows)))"

text \<open>
  The depth-first search, with \<open>state\<close> 0 for a field not reached, 1 for one on the path, 2 for one in
  the order. \<open>None\<close> is fuel that ran out; the fuel is the number of fields and one.
\<close>

definition cycle_error :: ferror where
  "cycle_error = Validation ''computed field dependency cycle''"

fun dfs :: "nat \<Rightarrow> nat list list \<Rightarrow> nat \<Rightarrow> nat list \<times> nat list \<Rightarrow> (ferror + nat list \<times> nat list) option"
  and dfs_all :: "nat \<Rightarrow> nat list list \<Rightarrow> nat list \<Rightarrow> nat list \<times> nat list \<Rightarrow> (ferror + nat list \<times> nat list) option" where
  "dfs 0 edges i s = None"
| "dfs (Suc k) edges i s =
     (if fst s ! i = 2 then Some (Inr s)
      else if fst s ! i = 1 then Some (Inl cycle_error)
      else case dfs_all k edges (edges ! i) ((fst s)[i := 1], snd s) of
          None \<Rightarrow> None
        | Some (Inl e) \<Rightarrow> Some (Inl e)
        | Some (Inr (state, order)) \<Rightarrow> Some (Inr (state[i := 2], order @ [i])))"
| "dfs_all k edges [] s = Some (Inr s)"
| "dfs_all k edges (j # js) s =
     (case dfs k edges j s of
        None \<Rightarrow> None
      | Some (Inl e) \<Rightarrow> Some (Inl e)
      | Some (Inr s') \<Rightarrow> dfs_all k edges js s')"

definition plan_order :: "nat list list \<Rightarrow> (ferror + nat list) option" where
  "plan_order edges =
     (let n = length edges
      in map_option (map_sum id snd) (dfs_all (n + 1) edges [0 ..< n] (replicate n 0, [])))"

definition plan :: "collection_rules \<Rightarrow> (ferror + (string list \<times> expr) list) option" where
  "plan c =
     (let fields = computed_fields c
      in if 128 < length fields then Some (Inl (Limit ''collection exceeds 128 computed fields''))
         else case collect_results (\<lambda>f. definition_inner (snd f)) fields of
             Inl e \<Rightarrow> Some (Inl e)
           | Inr defs \<Rightarrow>
               (case edge_rows 0 (map fst fields) (zip (map fst fields) defs) of
                  Inl e \<Rightarrow> Some (Inl e)
                | Inr edges \<Rightarrow>
                    map_option (map_sum id (map (\<lambda>i. (fst (fields ! i), cd_expression (defs ! i)))))
                      (plan_order edges)))"

section \<open>Computing the fields of a document\<close>

text \<open>
  \<open>None\<close> is a panic: the \<open>expect\<close> and the slice of an empty path, which the definition of a field
  rejects.
\<close>

definition orbind :: "('e + 'a) option \<Rightarrow> ('a \<Rightarrow> ('e + 'b) option) \<Rightarrow> ('e + 'b) option" where
  "orbind r f = (case r of None \<Rightarrow> None | Some (Inl e) \<Rightarrow> Some (Inl e) | Some (Inr x) \<Rightarrow> f x)"

fun remove_computed :: "document \<Rightarrow> string list \<Rightarrow> (ferror + document) option" where
  "remove_computed doc [] = None"
| "remove_computed doc [key] = Some (Inr (bm_remove key doc))"
| "remove_computed doc (key # rest) =
     (case bm_get key doc of
        Some (Object fs) \<Rightarrow> orbind (remove_computed fs rest) (\<lambda>fs'. Some (Inr (bm_insert key (Object fs') doc)))
      | None \<Rightarrow> Some (Inr doc)
      | _ \<Rightarrow> Some (Inl (Validation ''computed field requires object parents'')))"

fun remove_outputs :: "(string list \<times> expr) list \<Rightarrow> document \<Rightarrow> (ferror + document) option" where
  "remove_outputs [] doc = Some (Inr doc)"
| "remove_outputs (f # fs) doc = orbind (remove_computed doc (fst f)) (remove_outputs fs)"

fun put_computed :: "document \<Rightarrow> string list \<Rightarrow> val \<Rightarrow> (ferror + document) option" where
  "put_computed doc [] v = None"
| "put_computed doc [key] v = Some (Inr (bm_insert key v doc))"
| "put_computed doc (key # rest) v =
     (case bm_get key doc of
        Some (Object fs) \<Rightarrow> orbind (put_computed fs rest v) (\<lambda>fs'. Some (Inr (bm_insert key (Object fs') doc)))
      | _ \<Rightarrow> Some (Inl (Validation ''computed field requires object parents'')))"

type_synonym evaluator = "expr \<Rightarrow> document \<Rightarrow> fetch_budget \<Rightarrow> (ferror + val) \<times> fetch_budget"

fun compute_loop ::
  "evaluator \<Rightarrow> (string list \<times> expr) list \<Rightarrow> fetch_budget \<Rightarrow> document \<Rightarrow> (ferror + document) option" where
  "compute_loop evaluate [] b doc = Some (Inr doc)"
| "compute_loop evaluate (f # fs) b doc =
     orbind (Some (if 1 < length (fst f) then path_value doc (butlast (fst f)) else Inr (Some Null))) (\<lambda>parent.
       if parent = None then compute_loop evaluate fs b doc
       else (case evaluate (snd f) doc b of
               (Inl e, _) \<Rightarrow> Some (Inl e)
             | (Inr v, b') \<Rightarrow> orbind (put_computed doc (fst f) v) (compute_loop evaluate fs b')))"

definition compute_fields ::
  "evaluator \<Rightarrow> (val \<Rightarrow> string list) \<Rightarrow> collection_rules \<Rightarrow> document \<Rightarrow> (ferror + document) option" where
  "compute_fields evaluate writes c doc =
     orbind (plan c) (\<lambda>fs.
       if fs = [] then Some (Inr doc)
       else orbind (Some (validate_document_value doc)) (\<lambda>_.
         orbind (remove_outputs fs doc) (\<lambda>doc.
           case seq_all fb_write (map length (writes (Object doc))) \<lparr>fb_used = 0, fb_limit = 64 * 1024 * 1024\<rparr> of
             (Inl _, _) \<Rightarrow> Some (Inl (Limit ''computed input/evaluation exceeds 64 MiB''))
           | (Inr _, b) \<Rightarrow> compute_loop evaluate fs b doc)))"

fun computed_equal_loop :: "policy list \<Rightarrow> document \<Rightarrow> document \<Rightarrow> ferror + unit" where
  "computed_equal_loop [] doc expected = Inr ()"
| "computed_equal_loop (p # ps) doc expected =
     (if o_computed (pol_options p) = None then computed_equal_loop ps doc expected
      else rbind (path_value doc (pol_path p)) (\<lambda>a. rbind (path_value expected (pol_path p)) (\<lambda>e.
        if same_value a e then computed_equal_loop ps doc expected
        else Inl (Validation (''stored computed field '' @ join_path (pol_path p) @ '' does not match its expression'')))))"

definition validate_computed_fields ::
  "evaluator \<Rightarrow> (val \<Rightarrow> string list) \<Rightarrow> collection_rules \<Rightarrow> document \<Rightarrow> (ferror + unit) option" where
  "validate_computed_fields evaluate writes c doc =
     (if \<not> list_ex (\<lambda>p. o_computed (pol_options p) \<noteq> None) (cr_policies c) then Some (Inr ())
      else orbind (compute_fields evaluate writes c doc) (\<lambda>e. Some (computed_equal_loop (cr_policies c) doc e)))"

section \<open>The search is a topological sort\<close>

definition reads_rel :: "nat list list \<Rightarrow> (nat \<times> nat) set" where
  "reads_rel edges = {(i, j). i < length edges \<and> j \<in> set (edges ! i)}"

text \<open>Every field stands after the fields it reads.\<close>

fun topological :: "nat list list \<Rightarrow> nat set \<Rightarrow> nat list \<Rightarrow> bool" where
  "topological edges before [] \<longleftrightarrow> True"
| "topological edges before (i # order) \<longleftrightarrow>
     set (edges ! i) \<subseteq> before \<and> i \<notin> before \<and> topological edges (insert i before) order"

lemma topological_snoc:
  "topological edges before (order @ [i]) \<longleftrightarrow>
   topological edges before order \<and> set (edges ! i) \<subseteq> before \<union> set order \<and> i \<notin> before \<union> set order"
  by (induction order arbitrary: before) auto

definition dfs_inv :: "nat list list \<Rightarrow> nat list \<times> nat list \<Rightarrow> bool" where
  "dfs_inv edges s \<longleftrightarrow>
     length (fst s) = length edges \<and> topological edges {} (snd s) \<and>
     (\<forall>x < length edges. (fst s ! x = 2 \<longleftrightarrow> x \<in> set (snd s)) \<and> fst s ! x \<le> 2) \<and> set (snd s) \<subseteq> {..< length edges}"

definition grey :: "nat list \<times> nat list \<Rightarrow> nat set" where
  "grey s = {x. x < length (fst s) \<and> fst s ! x = 1}"

definition white :: "nat list \<times> nat list \<Rightarrow> nat set" where
  "white s = {x. x < length (fst s) \<and> fst s ! x = 0}"

lemma finite_white [simp]: "finite (white s)"
  by (simp add: white_def)

text \<open>What a search from \<open>js\<close> returns, started at \<open>s\<close>.\<close>

definition dfs_post ::
  "nat list list \<Rightarrow> nat list \<Rightarrow> nat list \<times> nat list \<Rightarrow> (ferror + nat list \<times> nat list) option \<Rightarrow> bool" where
  "dfs_post edges js s r \<longleftrightarrow>
     (case r of
        None \<Rightarrow> False
      | Some (Inl e) \<Rightarrow> e = cycle_error \<and> \<not> acyclic (reads_rel edges)
      | Some (Inr s') \<Rightarrow>
          dfs_inv edges s' \<and> grey s' = grey s \<and> white s' \<subseteq> white s \<and>
          set (snd s) \<subseteq> set (snd s') \<and> set js \<subseteq> set (snd s'))"

definition edges_wf :: "nat list list \<Rightarrow> bool" where
  "edges_wf edges \<longleftrightarrow> (\<forall>row \<in> set edges. set row \<subseteq> {..< length edges})"

lemma enter_node:
  assumes "dfs_inv edges s" and "i < length edges" and "fst s ! i = 0"
  defines "s1 \<equiv> ((fst s)[i := 1], snd s)"
  shows "dfs_inv edges s1" "grey s1 = insert i (grey s)" "white s1 = white s - {i}" "i \<in> white s"
  using assms by (auto simp: dfs_inv_def grey_def white_def nth_list_update)

lemma leave_node:
  assumes inv: "dfs_inv edges s" and i: "i \<in> grey s" and reads: "set (edges ! i) \<subseteq> set (snd s)"
  defines "s2 \<equiv> ((fst s)[i := 2], snd s @ [i])"
  shows "dfs_inv edges s2" "grey s2 = grey s - {i}" "white s2 = white s"
proof -
  have len: "i < length edges" "fst s ! i = 1" "length (fst s) = length edges"
    using inv i by (auto simp: dfs_inv_def grey_def)
  then have "i \<notin> set (snd s)" using inv by (auto simp: dfs_inv_def)
  then show "dfs_inv edges s2"
    using inv len reads by (auto simp: dfs_inv_def s2_def topological_snoc nth_list_update)
  show "grey s2 = grey s - {i}" "white s2 = white s"
    using len by (auto simp: grey_def white_def s2_def nth_list_update)
qed

lemma dfs_correct:
  assumes wf: "edges_wf edges"
  shows "dfs_inv edges s \<Longrightarrow> i < length edges \<Longrightarrow> \<forall>x \<in> grey s. (x, i) \<in> (reads_rel edges)\<^sup>+ \<Longrightarrow>
      card (white s) < k \<Longrightarrow> dfs_post edges [i] s (dfs k edges i s)"
    and "dfs_inv edges s \<Longrightarrow> set js \<subseteq> {..< length edges} \<Longrightarrow>
      \<forall>x \<in> grey s. \<forall>j \<in> set js. (x, j) \<in> (reads_rel edges)\<^sup>+ \<Longrightarrow>
      card (white s) < k \<Longrightarrow> dfs_post edges js s (dfs_all k edges js s)"
  using wf
proof (induction k edges i s and k edges js s rule: dfs_dfs_all.induct)
  case (2 k edges i s)
  let ?s1 = "((fst s)[i := 1], snd s)"
  have range: "fst s ! i \<le> 2" "fst s ! i = 2 \<longleftrightarrow> i \<in> set (snd s)" "length (fst s) = length edges"
    using "2.prems" by (auto simp: dfs_inv_def)
  show ?case
  proof (cases "fst s ! i = 0")
    case False
    show ?thesis
    proof (cases "fst s ! i = 1")
      case True
      then have "i \<in> grey s" using "2.prems"(2) range(3) by (simp add: grey_def)
      then have "(i, i) \<in> (reads_rel edges)\<^sup>+" using "2.prems"(3) by blast
      then show ?thesis using True by (auto simp: dfs_post_def acyclic_def)
    next
      case 1: False
      then have "fst s ! i = 2" using False range(1) by linarith
      then show ?thesis using "2.prems"(1) range(2) by (simp add: dfs_post_def)
    qed
  next
    case True
    note e = enter_node [OF "2.prems"(1,2) True]
    have sub: "set (edges ! i) \<subseteq> {..< length edges}" using "2.prems"(2,5) by (auto simp: edges_wf_def)
    have step: "(i, j) \<in> reads_rel edges" if "j \<in> set (edges ! i)" for j
      using that "2.prems"(2) by (simp add: reads_rel_def)
    have reach: "\<forall>x \<in> grey ?s1. \<forall>j \<in> set (edges ! i). (x, j) \<in> (reads_rel edges)\<^sup>+"
      unfolding e(2) using "2.prems"(3) step by (blast intro: trancl_into_trancl r_into_trancl)
    have fuel: "card (white ?s1) < k"
      unfolding e(3) using "2.prems"(4) e(4) by (simp add: card_Diff_singleton) (metis Suc_pred card_gt_0_iff empty_iff finite_white not_less_eq Suc_less_SucD)
    have IH: "dfs_post edges (edges ! i) ?s1 (dfs_all k edges (edges ! i) ?s1)"
      using "2.IH" [OF _ _ e(1) sub reach fuel "2.prems"(5)] True by simp
    show ?thesis
    proof (cases "dfs_all k edges (edges ! i) ?s1")
      case None
      then show ?thesis using IH by (simp add: dfs_post_def)
    next
      case (Some r)
      show ?thesis
      proof (cases r)
        case (Inl x)
        then show ?thesis using IH True Some by (simp add: dfs_post_def)
      next
        case (Inr s')
        have post: "dfs_inv edges s'" "grey s' = insert i (grey s)" "white s' \<subseteq> white s"
          "set (snd s) \<subseteq> set (snd s')" "set (edges ! i) \<subseteq> set (snd s')"
          using IH Some Inr e(2,3) by (auto simp: dfs_post_def)
        have ig: "i \<in> grey s'" using post(2) by simp
        note l = leave_node [OF post(1) ig post(5)]
        have "i \<notin> grey s" using True by (simp add: grey_def)
        then have "dfs_post edges [i] s (Some (Inr ((fst s')[i := 2], snd s' @ [i])))"
          using l post(2,3,4) by (auto simp: dfs_post_def)
        then show ?thesis using True Some Inr by (cases s') simp
      qed
    qed
  qed
next
  case (4 k edges j js s)
  have IH: "dfs_post edges [j] s (dfs k edges j s)" using 4 by simp
  show ?case
  proof (cases "dfs k edges j s")
    case None
    then show ?thesis using IH by (simp add: dfs_post_def)
  next
    case (Some r)
    show ?thesis
    proof (cases r)
      case (Inl x)
      then show ?thesis using IH Some by (simp add: dfs_post_def)
    next
      case (Inr s')
      have post: "dfs_inv edges s'" "grey s' = grey s" "white s' \<subseteq> white s" "set (snd s) \<subseteq> set (snd s')" "j \<in> set (snd s')"
        using IH Some Inr by (auto simp: dfs_post_def)
      have fuel: "card (white s') < k" using card_mono [OF finite_white post(3)] "4.prems"(4) by linarith
      have "dfs_post edges js s' (dfs_all k edges js s')"
        by (rule "4.IH"(2) [OF Some Inr post(1)]) (use "4.prems" post(2) fuel in auto)
      then have "dfs_post edges (j # js) s (dfs_all k edges js s')"
        using post unfolding dfs_post_def by (auto split: option.splits sum.splits)
      then show ?thesis using Some Inr by simp
    qed
  qed
qed (auto simp: dfs_post_def)

lemma topological_before:
  "topological edges before order \<Longrightarrow> order = a @ i # b \<Longrightarrow> set (edges ! i) \<subseteq> before \<union> set a"
  by (induction a arbitrary: before order) auto

lemma topological_distinct: "topological edges before order \<Longrightarrow> distinct order \<and> set order \<inter> before = {}"
  by (induction order arbitrary: before) auto

text \<open>The position of a field in the order.\<close>

definition position :: "nat list \<Rightarrow> nat \<Rightarrow> nat" where
  "position order i = length (takeWhile (\<lambda>x. x \<noteq> i) order)"

lemma position_split: "i \<notin> set a \<Longrightarrow> position (a @ i # b) i = length a"
  by (induction a) (auto simp: position_def)

lemma position_less: "j \<in> set a \<Longrightarrow> position (a @ b) j < length a"
  by (induction a) (auto simp: position_def)

lemma topological_acyclic:
  assumes top: "topological edges {} order" and all: "set order = {..< length edges}"
  shows "acyclic (reads_rel edges)"
proof -
  have "position order j < position order i" if "(i, j) \<in> reads_rel edges" for i j
  proof -
    have i: "i \<in> set order" "j \<in> set (edges ! i)" using that all by (auto simp: reads_rel_def)
    obtain a b where ab: "order = a @ i # b" using i(1) by (meson split_list)
    have t: "set (edges ! i) \<subseteq> set a" "i \<notin> set a"
      using topological_before [OF top ab] topological_distinct [OF top] ab by auto
    show ?thesis using position_split [of i a b] position_less [of j a "i # b"] t i(2) ab by auto
  qed
  then have "(reads_rel edges)\<inverse> \<subseteq> measure (position order)" by auto
  then have "wf ((reads_rel edges)\<inverse>)" by (rule wf_subset [rotated]) simp
  then show ?thesis using wf_acyclic acyclic_converse by blast
qed

lemma plan_order_correct:
  assumes "edges_wf edges"
  shows "case plan_order edges of
      None \<Rightarrow> False
    | Some (Inl e) \<Rightarrow> e = cycle_error \<and> \<not> acyclic (reads_rel edges)
    | Some (Inr order) \<Rightarrow>
        topological edges {} order \<and> set order = {..< length edges} \<and> acyclic (reads_rel edges)"
proof -
  let ?n = "length edges"
  let ?s = "(replicate ?n 0, [])"
  have inv: "dfs_inv edges ?s" by (simp add: dfs_inv_def)
  have "white ?s = {..< ?n}" by (auto simp: white_def)
  then have fuel: "card (white ?s) < ?n + 1" by simp
  have "grey ?s = {}" by (auto simp: grey_def)
  then have "dfs_post edges [0 ..< ?n] ?s (dfs_all (?n + 1) edges [0 ..< ?n] ?s)"
    using inv fuel by (intro dfs_correct(2) [OF assms]) auto
  then show ?thesis
    by (auto simp: plan_order_def Let_def dfs_post_def dfs_inv_def atLeast0LessThan split: option.splits sum.splits
        intro: topological_acyclic [OF _ subset_antisym])
qed

section \<open>The edges of the plan\<close>

function field_reads :: "expr \<Rightarrow> string list set" where
  "field_reads x =
     (case x of EField p \<Rightarrow> {p} | _ \<Rightarrow> {}) \<union> \<Union> (set (map field_reads (subexpressions x)))"
  by pat_completeness auto
termination
  by (relation "measure size") (auto simp: size_subexpressions)

declare field_reads.simps [simp del]

lemma visit_node_reads:
  "visit_node x (deps, work) = Inr s \<Longrightarrow> fst s = deps \<union> (case x of EField p \<Rightarrow> {p} | _ \<Rightarrow> {})"
  by (cases x) (auto simp: visit_node_def split: if_splits)

lemma fold_rbind_Inl: "fold (\<lambda>y r. rbind r (f y)) ys (Inl e) = Inl e"
  by (induction ys) simp_all

lemma visit_fold_reads:
  assumes "\<And>y s s'. y \<in> set ys \<Longrightarrow> visit_expr y s = Inr s' \<Longrightarrow> fst s' = fst s \<union> field_reads y"
  shows "fold (\<lambda>y r. rbind r (visit_expr y)) ys (Inr s) = Inr s' \<Longrightarrow> fst s' = fst s \<union> \<Union> (field_reads ` set ys)"
  using assms
proof (induction ys arbitrary: s)
  case (Cons y ys)
  obtain s1 where s1: "visit_expr y s = Inr s1"
    using Cons.prems(1) by (cases "visit_expr y s") (auto simp: fold_rbind_Inl)
  have "fold (\<lambda>y r. rbind r (visit_expr y)) ys (Inr s1) = Inr s'" using Cons.prems(1) s1 by simp
  then have "fst s' = fst s1 \<union> \<Union> (field_reads ` set ys)" using Cons.IH [of s1] Cons.prems(2) by simp
  then show ?case using Cons.prems(2) [OF _ s1] by auto
qed simp

lemma visit_expr_reads: "visit_expr x s = Inr s' \<Longrightarrow> fst s' = fst s \<union> field_reads x"
proof (induction x s arbitrary: s' rule: visit_expr.induct)
  case (1 x s)
  obtain s1 where s1: "visit_node x s = Inr s1"
    and rest: "fold (\<lambda>y r. rbind r (visit_expr y)) (subexpressions x) (Inr s1) = Inr s'"
    using "1.prems" by (auto simp: visit_expr.simps [of x s])
  have "fst s1 = fst s \<union> (case x of EField p \<Rightarrow> {p} | _ \<Rightarrow> {})"
    using visit_node_reads [of x "fst s" "snd s" s1] s1 by simp
  moreover have "fst s' = fst s1 \<union> \<Union> (field_reads ` set (subexpressions x))"
    by (rule visit_fold_reads [OF _ rest]) (use "1.IH" in auto)
  ultimately show ?case by (subst field_reads.simps) auto
qed

lemma definition_reads:
  assumes "definition_inner sql = Inr d"
  shows "parsed sql = Inr (cd_expression d)" "cd_dependencies d = field_reads (cd_expression d)"
  using assms visit_expr_reads [of _ "({}, 0)"] by (fastforce simp: definition_inner_def split: if_splits)+

lemma edge_row_Inr:
  assumes "edge_row i p deps k qs = Inr row"
  shows "set row = {k + j | j. j < length qs \<and> (\<exists>d \<in> deps. related d (qs ! j))} \<and>
    (\<forall>j < length qs. i \<noteq> k + j \<longrightarrow> \<not> related p (qs ! j))"
  using assms
proof (induction qs arbitrary: k row)
  case (Cons q qs)
  have ok: "\<not> (i \<noteq> k \<and> related p q)" using Cons.prems by (auto split: if_splits)
  with Cons.prems obtain row' where row: "edge_row i p deps (k + 1) qs = Inr row'"
    "row = (if \<exists>d \<in> deps. related d q then k # row' else row')"
    unfolding edge_row.simps by (simp only: if_False rbind_eq_Inr sum.inject) blast
  note r = row(1) ok row(2)
  note IH = Cons.IH [OF r(1)]
  have "{k + j | j. j < length (q # qs) \<and> (\<exists>d \<in> deps. related d ((q # qs) ! j))} =
      {k | u. \<exists>d \<in> deps. related d q} \<union> {k + 1 + j | j. j < length qs \<and> (\<exists>d \<in> deps. related d (qs ! j))}"
    (is "?l = ?r")
  proof (intro set_eqI iffI)
    fix x assume "x \<in> ?l"
    then obtain j where "x = k + j" "j < length (q # qs)" "\<exists>d \<in> deps. related d ((q # qs) ! j)" by blast
    then show "x \<in> ?r" by (cases j) auto
  next
    fix x assume "x \<in> ?r"
    then consider "x = k" "\<exists>d \<in> deps. related d q" | j where "x = k + Suc j" "j < length qs" "\<exists>d \<in> deps. related d (qs ! j)"
      by auto
    then show "x \<in> ?l"
    proof cases
      case 1
      then show ?thesis by (auto intro!: exI [of _ 0])
    next
      case 2
      then show ?thesis by (auto intro!: exI [of _ "Suc j"])
    qed
  qed
  moreover have "\<not> related p ((q # qs) ! j)" if "j < length (q # qs)" "i \<noteq> k + j" for j
    using that IH r(2) by (cases j) auto
  ultimately show ?case using IH r(3) by auto
qed simp

lemma edge_rows_Inr:
  assumes "edge_rows k paths fs = Inr rows"
  shows "length rows = length fs \<and> (\<forall>i < length fs.
    edge_row (k + i) (fst (fs ! i)) (cd_dependencies (snd (fs ! i))) 0 paths = Inr (rows ! i))"
  using assms
proof (induction fs arbitrary: k rows)
  case (Cons f fs)
  then obtain row rows' where r: "edge_row k (fst f) (cd_dependencies (snd f)) 0 paths = Inr row"
    "edge_rows (k + 1) paths fs = Inr rows'" "rows = row # rows'" by auto
  show ?case using Cons.IH [OF r(2)] r(1,3) by (auto simp: less_Suc_eq_0_disj)
qed simp

section \<open>Property\<close>

text \<open>Field \<open>i\<close> reads the output of field \<open>j\<close>: a path of its expression and the output path overlap.\<close>

definition field_rel :: "collection_rules \<Rightarrow> (nat \<times> nat) set" where
  "field_rel c =
     (let fs = computed_fields c
      in {(i, j). i < length fs \<and> j < length fs \<and>
           (\<exists>x. parsed (snd (fs ! i)) = Inr x \<and> (\<exists>d \<in> field_reads x. related d (fst (fs ! j))))})"

definition overlapping :: "collection_rules \<Rightarrow> bool" where
  "overlapping c \<longleftrightarrow>
     (let fs = computed_fields c
      in \<exists>i < length fs. \<exists>j < length fs. i \<noteq> j \<and> related (fst (fs ! i)) (fst (fs ! j)))"

text \<open>The steps are the fields in an order in which no step reads its own output or a later one.\<close>

definition plan_ok :: "collection_rules \<Rightarrow> (string list \<times> expr) list \<Rightarrow> bool" where
  "plan_ok c steps \<longleftrightarrow>
     acyclic (field_rel c) \<and> \<not> overlapping c \<and> distinct (map fst steps) \<and>
     set steps = {(p, x) | p sql x. (p, sql) \<in> set (computed_fields c) \<and> parsed sql = Inr x} \<and>
     length steps = length (computed_fields c) \<and>
     (\<forall>a b. a \<le> b \<and> b < length steps \<longrightarrow>
        (\<forall>d \<in> field_reads (snd (steps ! a)). \<not> related d (fst (steps ! b))))"

definition plan_refused :: "collection_rules \<Rightarrow> ferror \<Rightarrow> bool" where
  "plan_refused c e \<longleftrightarrow>
     128 < length (computed_fields c) \<or>
     (\<exists>f \<in> set (computed_fields c). definition_inner (snd f) = Inl e) \<or> overlapping c \<or>
     e = cycle_error \<and> \<not> acyclic (field_rel c)"

lemma collect_results_Inr:
  "collect_results f xs = Inr ys \<Longrightarrow> length ys = length xs \<and> (\<forall>i < length xs. f (xs ! i) = Inr (ys ! i))"
  by (induction xs arbitrary: ys) (auto simp: less_Suc_eq_0_disj)

lemma collect_results_Inl: "collect_results f xs = Inl e \<Longrightarrow> \<exists>x \<in> set xs. f x = Inl e"
  by (induction xs) auto

lemma edge_row_Inl: "edge_row i p deps k qs = Inl e \<Longrightarrow> \<exists>j < length qs. i \<noteq> k + j \<and> related p (qs ! j)"
proof (induction qs arbitrary: k)
  case (Cons q qs)
  show ?case
  proof (cases "i \<noteq> k \<and> related p q")
    case True
    then show ?thesis by (auto intro!: exI [of _ 0])
  next
    case False
    then obtain j where "j < length qs" "i \<noteq> k + 1 + j" "related p (qs ! j)"
      using Cons.prems Cons.IH [of "k + 1"] by (auto split: if_splits)
    then show ?thesis by (auto intro!: exI [of _ "Suc j"])
  qed
qed simp

lemma edge_rows_Inl:
  "edge_rows k paths fs = Inl e \<Longrightarrow> \<exists>i < length fs. \<exists>j < length paths. k + i \<noteq> j \<and> related (fst (fs ! i)) (paths ! j)"
proof (induction fs arbitrary: k)
  case (Cons f fs)
  show ?case
  proof (cases "edge_row k (fst f) (cd_dependencies (snd f)) 0 paths")
    case (Inl x)
    from edge_row_Inl [OF Inl] obtain j where "j < length paths" "k \<noteq> j" "related (fst f) (paths ! j)" by auto
    then show ?thesis by (intro exI [of _ 0]) auto
  next
    case (Inr row)
    then obtain i j where "i < length fs" "j < length paths" "k + 1 + i \<noteq> j" "related (fst (fs ! i)) (paths ! j)"
      using Cons.prems Cons.IH [of "k + 1"] by auto
    then show ?thesis by (intro exI [of _ "Suc i"]) auto
  qed
qed simp

lemma plan_edges:
  fixes c
  defines "fs \<equiv> computed_fields c"
  assumes defs: "collect_results (\<lambda>f. definition_inner (snd f)) fs = Inr defs"
    and edges: "edge_rows 0 (map fst fs) (zip (map fst fs) defs) = Inr edges"
  shows "length edges = length fs" "length defs = length fs" "edges_wf edges" "reads_rel edges = field_rel c" "\<not> overlapping c"
    "\<And>i. i < length fs \<Longrightarrow> parsed (snd (fs ! i)) = Inr (cd_expression (defs ! i))"
    "\<And>i. i < length fs \<Longrightarrow>
      set (edges ! i) = {j. j < length fs \<and> (\<exists>d \<in> field_reads (cd_expression (defs ! i)). related d (fst (fs ! j)))}"
proof -
  note d = collect_results_Inr [OF defs]
  show len: "length defs = length fs" using d by simp
  show parsed: "parsed (snd (fs ! i)) = Inr (cd_expression (defs ! i))" if "i < length fs" for i
    using definition_reads(1) d that by blast
  have deps: "cd_dependencies (defs ! i) = field_reads (cd_expression (defs ! i))" if "i < length fs" for i
    using definition_reads(2) d that by blast
  note e = edge_rows_Inr [OF edges]
  show el: "length edges = length fs" using e len by simp
  have row: "edge_row i (fst (fs ! i)) (field_reads (cd_expression (defs ! i))) 0 (map fst fs) = Inr (edges ! i)"
    if "i < length fs" for i
    using e that len deps by simp
  show rows: "set (edges ! i) = {j. j < length fs \<and> (\<exists>d \<in> field_reads (cd_expression (defs ! i)). related d (fst (fs ! j)))}"
    if "i < length fs" for i
    using edge_row_Inr [OF row [OF that]] by auto
  show "\<not> overlapping c"
    using edge_row_Inr [OF row] unfolding overlapping_def Let_def fs_def [symmetric] by auto
  show "edges_wf edges"
    unfolding edges_wf_def using rows el by (metis (no_types, lifting) in_set_conv_nth lessThan_iff mem_Collect_eq subsetI)
  show "reads_rel edges = field_rel c"
    unfolding reads_rel_def field_rel_def Let_def fs_def [symmetric] el using rows parsed by auto
qed

lemma related_refl [simp]: "related p p"
  by (simp add: related_def starts_with_def)

lemma plan_steps:
  fixes c
  defines "fs \<equiv> computed_fields c"
  assumes defs: "collect_results (\<lambda>f. definition_inner (snd f)) fs = Inr defs"
    and edges: "edge_rows 0 (map fst fs) (zip (map fst fs) defs) = Inr edges"
    and top: "topological edges {} order" and all: "set order = {..< length edges}" and acy: "acyclic (reads_rel edges)"
  shows "plan_ok c (map (\<lambda>i. (fst (fs ! i), cd_expression (defs ! i))) order)" (is "plan_ok c ?steps")
proof -
  note e = plan_edges [of c, folded fs_def, OF defs edges]
  have d: "distinct order" using topological_distinct [OF top] by simp
  have len: "length order = length fs" using distinct_card [OF d] all e(1) by simp
  have lt: "order ! a < length fs" if "a < length order" for a using nth_mem [OF that] all e(1) by simp
  have "inj_on (\<lambda>i. fst (fs ! i)) (set order)"
  proof (rule inj_onI)
    fix i j assume "i \<in> set order" "j \<in> set order" "fst (fs ! i) = fst (fs ! j)"
    then show "i = j"
      using e(5) all e(1) unfolding overlapping_def Let_def fs_def [symmetric] by (metis lessThan_iff related_refl)
  qed
  then have "distinct (map fst ?steps)" using d by (simp add: distinct_map comp_def)
  moreover have "set ?steps = {(p, x) | p sql x. (p, sql) \<in> set fs \<and> parsed sql = Inr x}"
  proof (intro set_eqI iffI)
    fix y assume "y \<in> set ?steps"
    then obtain i where i: "i < length fs" "y = (fst (fs ! i), cd_expression (defs ! i))" using all e(1) by auto
    moreover have "(fst (fs ! i), snd (fs ! i)) \<in> set fs" using i(1) by simp
    ultimately show "y \<in> {(p, x) | p sql x. (p, sql) \<in> set fs \<and> parsed sql = Inr x}" using e(6) [OF i(1)] by blast
  next
    fix y assume "y \<in> {(p, x) | p sql x. (p, sql) \<in> set fs \<and> parsed sql = Inr x}"
    then obtain p sql x where y: "y = (p, x)" "(p, sql) \<in> set fs" "parsed sql = Inr x" by blast
    from y(2) obtain i where i: "i < length fs" "fs ! i = (p, sql)" by (auto simp: in_set_conv_nth)
    then have "y = (fst (fs ! i), cd_expression (defs ! i))" using e(6) [OF i(1)] y by simp
    moreover have "i \<in> set order" using i(1) all e(1) by simp
    ultimately show "y \<in> set ?steps" by simp
  qed
  moreover have "\<forall>a b. a \<le> b \<and> b < length ?steps \<longrightarrow> (\<forall>q \<in> field_reads (snd (?steps ! a)). \<not> related q (fst (?steps ! b)))"
  proof (intro allI impI ballI notI; elim conjE)
    fix a b q
    assume ab: "a \<le> b" "b < length ?steps" and q: "q \<in> field_reads (snd (?steps ! a))"
      and rel: "related q (fst (?steps ! b))"
    have a: "a < length order" "b < length order" using ab by auto
    have "order ! b \<in> set (edges ! (order ! a))"
      using e(7) [OF lt [OF a(1)]] lt [OF a(2)] rel q a by auto
    moreover have "order = take a order @ order ! a # drop (Suc a) order" using a(1) by (rule id_take_nth_drop)
    ultimately have "order ! b \<in> set (take a order)" using topological_before [OF top] by blast
    then obtain i where "i < a" "order ! i = order ! b" using a(1) by (auto simp: in_set_conv_nth)
    then show False using d a ab(1) by (auto simp: nth_eq_iff_index_eq)
  qed
  moreover have "acyclic (field_rel c)" using acy e(4) by simp
  ultimately show ?thesis
    unfolding plan_ok_def fs_def [symmetric] using e(5) len by simp
qed

text \<open>C4: the plan of the computed fields is a topological sort and is refused only for a reason. The
search always ends. When a plan is returned, the output paths do not overlap, no field depends on itself
through others, and the steps are all computed fields, each once with its parsed expression, in an order
in which no expression reads its own output or the output of a later step. When none is, there are more
than 128 fields, some expression is not admitted, two output paths overlap, or the fields really depend
on each other in a cycle.\<close>

theorem plan_topological:
  "case plan c of
     None \<Rightarrow> False
   | Some (Inl e) \<Rightarrow> plan_refused c e
   | Some (Inr steps) \<Rightarrow> plan_ok c steps"
proof -
  let ?fs = "computed_fields c"
  consider "128 < length ?fs" | e where "length ?fs \<le> 128" "collect_results (\<lambda>f. definition_inner (snd f)) ?fs = Inl e"
    | defs where "length ?fs \<le> 128" "collect_results (\<lambda>f. definition_inner (snd f)) ?fs = Inr defs"
    by (cases "collect_results (\<lambda>f. definition_inner (snd f)) ?fs") (auto simp: not_less [symmetric])
  then show ?thesis
  proof cases
    case 1
    then show ?thesis by (simp add: plan_def plan_refused_def)
  next
    case 2
    then show ?thesis using collect_results_Inl [OF 2(2)] by (simp add: plan_def plan_refused_def)
  next
    case 3
    note len = conjunct1 [OF collect_results_Inr [OF 3(2)]]
    show ?thesis
    proof (cases "edge_rows 0 (map fst ?fs) (zip (map fst ?fs) defs)")
      case (Inl e)
      have "overlapping c"
        using edge_rows_Inl [OF Inl] len unfolding overlapping_def Let_def by fastforce
      then show ?thesis using 3 Inl by (simp add: plan_def plan_refused_def)
    next
      case (Inr edges)
      note e = plan_edges [OF 3(2) Inr]
      note o = plan_order_correct [OF e(3)]
      show ?thesis
        using o 3 Inr plan_steps [OF 3(2) Inr] e(4)
        by (auto simp: plan_def plan_refused_def split: option.splits sum.splits)
    qed
  qed
qed

end
