(* ===== verification/Schema.thy ===== *)
theory Schema
  imports Computed
begin

text \<open>
  The checks of a catalog entry and of a document against it, the rest of
  \<open>fastdb/frontend/src/field_rules.rs\<close> with \<open>validate_document\<close> of \<open>lib.rs\<close>: the options of a field,
  the rules of a collection, constant default expressions, and the validation of a document. The keys
  an index reads of a document are a parameter.
\<close>

section \<open>Options and rules\<close>

text \<open>A value put at the end of a path of objects.\<close>

definition nest :: "string list \<Rightarrow> val \<Rightarrow> val" where
  "nest parts v = foldr (\<lambda>part v. Object [(part, v)]) parts v"

definition validate_default :: "(val \<Rightarrow> string list) \<Rightarrow> field \<Rightarrow> field_options \<Rightarrow> val \<Rightarrow> ferror + unit" where
  "validate_default writes f opts v =
     rbind (encode_with_limit writes (Some (64 * 1024)) v) (\<lambda>_.
       rbind (validate (nest (f_path f) v)) (\<lambda>_.
         rbind (if v = Null \<and> f_nullable f then Inr True else matches_kind (f_kind f) v) (\<lambda>ok.
           if \<not> ok then Inl (Validation ''default does not match field type/nullability'')
           else rbind (validate_elements v opts 0) (\<lambda>_. Inr ()))))"

definition validate_options :: "(val \<Rightarrow> string list) \<Rightarrow> field \<Rightarrow> field_options \<Rightarrow> ferror + unit" where
  "validate_options writes f opts =
     rbind (validate_computed opts) (\<lambda>_.
       if \<not> options_empty opts \<and> 64 < length (f_path f) then Inl (Limit ''field rules exceed 64 path steps'')
       else if o_flexible opts \<and> f_kind f \<notin> {FObject, FArray}
       then Inl (Validation ''FLEXIBLE requires an object or array field'')
       else if o_element_type opts \<noteq> None \<and> f_kind f \<noteq> FArray
       then Inl (Validation ''element type requires an array field'')
       else if o_element_nullable opts \<and> o_element_type opts = None
       then Inl (Validation ''element nullability requires an element type'')
       else rbind (case o_element_type opts of
                     Some (FVector n) \<Rightarrow> validate_dimension n
                   | Some (FRecord target) \<Rightarrow> rbind (canonical target) (\<lambda>_. Inr ())
                   | _ \<Rightarrow> Inr ()) (\<lambda>_.
              case o_default opts of
                None \<Rightarrow> Inr ()
              | Some v \<Rightarrow> validate_default writes f opts v))"

fun policies_loop ::
  "(val \<Rightarrow> string list) \<Rightarrow> field list \<Rightarrow> string list set \<Rightarrow> policy list \<Rightarrow> ferror + unit" where
  "policies_loop writes fs seen [] = Inr ()"
| "policies_loop writes fs seen (p # ps) =
     (case find (\<lambda>f. f_path f = pol_path p) fs of
        None \<Rightarrow> Inl (Storage ''field rule has no field definition'')
      | Some f \<Rightarrow>
          if pol_path p \<in> seen \<or> options_empty (pol_options p)
          then Inl (Storage ''invalid or duplicate field rule'')
          else rbind (validate_options writes f (pol_options p)) (\<lambda>_.
            policies_loop writes fs (insert (pol_path p) seen) ps))"

definition validate_catalog :: "(val \<Rightarrow> string list) \<Rightarrow> collection_rules \<Rightarrow> (ferror + unit) option" where
  "validate_catalog writes c =
     (case validate_definition c of
        Inl e \<Rightarrow> Some (Inl e)
      | Inr _ \<Rightarrow>
          if 1024 < length (cr_policies c) then Some (Inl (Limit ''collection exceeds 1024 field rules''))
          else case policies_loop writes (cr_fields c) {} (cr_policies c) of
              Inl e \<Rightarrow> Some (Inl e)
            | Inr _ \<Rightarrow> map_option (map_sum id (\<lambda>_. ())) (plan c))"

text \<open>The expressions a DEFAULT may have.\<close>

function constant_expr :: "expr \<Rightarrow> ferror + unit" where
  "constant_expr x =
     (case x of
        EField p \<Rightarrow> Inl (Unsupported
          ''DEFAULT accepts constant expressions and typed parameters, without fields or function calls'')
      | ECall f args \<Rightarrow> Inl (Unsupported
          ''DEFAULT accepts constant expressions and typed parameters, without fields or function calls'')
      | _ \<Rightarrow> try_all constant_expr (subexpressions x))"
  by pat_completeness auto
termination
  by (relation "measure size") (simp_all only: wf_measure in_measure size_subexpressions)

declare constant_expr.simps [simp del]

section \<open>Documents\<close>

definition normalize_document_id :: "string \<Rightarrow> document \<Rightarrow> ferror + document" where
  "normalize_document_id table doc =
     (case bm_get ''id'' doc of
        Some (Record r) \<Rightarrow>
          rbind (normalized_id r table) (\<lambda>r'. Inr (bm_insert ''id'' (Record r') doc))
      | _ \<Rightarrow> Inl (Validation ''id must be a typed record''))"

definition validate_field :: "(field_type \<Rightarrow> string) \<Rightarrow> document \<Rightarrow> field \<Rightarrow> ferror + unit" where
  "validate_field debug doc f =
     rbind (if 1 < length (f_path f) then path_value doc (butlast (f_path f)) else Inr (Some Null)) (\<lambda>parent.
       if parent = None then Inr ()
       else rbind (path_value doc (f_path f)) (\<lambda>value.
         rbind (case value of
                  None \<Rightarrow> Inr (\<not> f_required f)
                | Some v \<Rightarrow> if v = Null \<and> f_nullable f then Inr True else matches_kind (f_kind f) v) (\<lambda>ok.
           if ok then Inr ()
           else Inl (Validation (''field '' @ join_path (f_path f) @ '' failed '' @ debug (f_kind f) @ '' validation'')))))"

text \<open>\<open>debug\<close> is the derived \<open>Debug\<close> text of a field type, \<open>keys\<close> what each index reads.\<close>

definition validate_document ::
  "(field_type \<Rightarrow> string) \<Rightarrow> (document \<Rightarrow> ferror + unit) list \<Rightarrow> collection_rules \<Rightarrow> document \<Rightarrow> (ferror + unit) option" where
  "validate_document debug keys c doc =
     (case rbind (validate_document_value doc) (\<lambda>_.
             rbind (try_all (validate_field debug doc) (cr_fields c)) (\<lambda>_. validate_arrays c doc)) of
        Inl e \<Rightarrow> Some (Inl e)
      | Inr _ \<Rightarrow> map_option (\<lambda>r. rbind r (\<lambda>_. try_all (\<lambda>k. k doc) keys)) (validate_strict c doc))"

section \<open>A checked catalog\<close>

lemma policies_loop_fields:
  "policies_loop writes fs seen ps = Inr u \<Longrightarrow> \<forall>p \<in> set ps. \<exists>f \<in> set fs. f_path f = pol_path p"
proof (induction ps arbitrary: seen)
  case (Cons p ps)
  then obtain f where f: "find (\<lambda>f. f_path f = pol_path p) fs = Some f"
    "policies_loop writes fs (insert (pol_path p) seen) ps = Inr u"
    by (auto split: option.splits if_splits)
  then show ?case using Cons.IH [OF f(2)] find_Some_iff [of _ fs f] by (auto dest: nth_mem)
qed simp

lemma catalog_flexible_declared:
  assumes "validate_catalog writes c = Some (Inr u)"
  shows "\<not> stray_flexible c"
proof -
  have "policies_loop writes (cr_fields c) {} (cr_policies c) = Inr ()"
    using assms by (auto simp: validate_catalog_def split: sum.splits if_splits)
  from policies_loop_fields [OF this] show ?thesis
    by (force simp: stray_flexible_def flexible_rule_def declared_def)
qed

text \<open>Once the catalog entry has been checked, no document makes the strict schema panic.\<close>

lemma catalog_no_panic:
  assumes "validate_catalog writes c = Some (Inr u)"
  shows "validate_document debug keys c doc \<noteq> None"
proof -
  have "validate_strict c doc \<noteq> None"
  proof
    assume n: "validate_strict c doc = None"
    then have "schema_tree c = None" by (auto simp: validate_strict_def split: if_splits)
    then obtain r where "r \<in> set (cr_policies c)" "o_flexible (pol_options r)" "\<not> has_node (declared_tree c) (pol_path r)"
      using mark_all_None unfolding schema_tree_def by blast
    then have "stray_flexible c" by (auto simp: stray_flexible_def flexible_rule_def declared_tree_at)
    then show False using catalog_flexible_declared [OF assms] by blast
  qed
  then show ?thesis by (auto simp: validate_document_def split: sum.splits)
qed

end
