(* ===== verification/Field_Reader.thy ===== *)
theory Field_Reader
  imports Budgets Comparisons
begin

text \<open>
  Reading one field of an encoded document, \<open>mod field\<close> and its callers in
  \<open>fastdb/frontend/src/value.rs\<close>, with the depth check of \<open>wire_json.rs\<close>. The reader walks the bytes of
  the encoding and decodes the field only. A position in the bytes is the rest of them from there, so
  \<open>string_end\<close> and \<open>value_end\<close> are the number of bytes up to the end.

  \<open>serde_json\<close> is a parameter, the record \<open>serde\<close>: the chunks it writes for a value, the text inside the
  quotes of a string, the digits of a double, and what it reads. The property: on the encoding of a
  valid document the reader returns what reading the decoded document returns.
\<close>

section \<open>The JSON library\<close>

record serde =
  sj_writes :: "val \<Rightarrow> string list"
  sj_escape :: "string \<Rightarrow> string"
  sj_number :: "64 word \<Rightarrow> string"
  sj_key :: "string \<Rightarrow> string option"
  sj_parse :: "string \<Rightarrow> ferror + val"
  sj_utf8_error :: "string \<Rightarrow> string"

section \<open>The depth check\<close>

text \<open>What follows the string whose opening quote has been read.\<close>

fun skip_string :: "string \<Rightarrow> string" where
  "skip_string [] = []"
| "skip_string (c # cs) =
     (if c = CHR 0x22 then cs else if c = CHR 0x5C then skip_string (drop 1 cs) else skip_string cs)"

lemma length_skip_string: "length (skip_string s) \<le> length s"
  by (induction s rule: skip_string.induct) auto

definition MAX_WIRE_DEPTH :: nat where
  "MAX_WIRE_DEPTH = 2 * 64 + 8"

definition opens :: "char \<Rightarrow> bool" where
  "opens c \<longleftrightarrow> c = CHR ''['' \<or> c = CHR ''{''"

definition closes :: "char \<Rightarrow> bool" where
  "closes c \<longleftrightarrow> c = CHR '']'' \<or> c = CHR ''}''"

function wire_scan :: "nat \<Rightarrow> string \<Rightarrow> ferror + unit" where
  "wire_scan depth [] = Inr ()"
| "wire_scan depth (c # cs) =
     (if c = CHR 0x22 then wire_scan depth (skip_string cs)
      else if opens c
      then if MAX_WIRE_DEPTH < depth + 1 then Inl (Limit ''wire JSON nesting exceeds 136'')
        else wire_scan (depth + 1) cs
      else if closes c \<and> 0 < depth then wire_scan (depth - 1) cs
      else wire_scan depth cs)"
  by pat_completeness auto
termination
  by (relation "measure (\<lambda>(depth, s). length s)") (auto simp: length_skip_string less_Suc_eq_le)

definition decode_wire_json :: "serde \<Rightarrow> string \<Rightarrow> ferror + val" where
  "decode_wire_json S input = rbind (wire_scan 0 input) (\<lambda>_. sj_parse S input)"

text \<open>\<open>strip_prefix\<close> and \<open>strip_suffix\<close> of slices.\<close>

definition strip_prefix :: "'a list \<Rightarrow> 'a list \<Rightarrow> 'a list option" where
  "strip_prefix p s = (if starts_with p s then Some (drop (length p) s) else None)"

definition strip_suffix :: "'a list \<Rightarrow> 'a list \<Rightarrow> 'a list option" where
  "strip_suffix p s = map_option rev (strip_prefix (rev p) (rev s))"

definition decode :: "serde \<Rightarrow> string \<Rightarrow> ferror + val" where
  "decode S bytes =
     (case strip_prefix magic bytes of
        None \<Rightarrow> Inl (Storage ''unknown value format'')
      | Some input \<Rightarrow>
          if \<not> utf8 input then Inl (Storage (''invalid value UTF-8: '' @ sj_utf8_error S input))
          else rbind (decode_wire_json S input) (\<lambda>v. rbind (validate v) (\<lambda>_. Inr v)))"

section \<open>The reader\<close>

text \<open>\<open>string_end\<close> after the opening quote.\<close>

fun string_scan :: "string \<Rightarrow> nat option" where
  "string_scan [] = None"
| "string_scan (c # cs) =
     (if c = CHR 0x22 then Some 1
      else if c = CHR 0x5C then (case cs of [] \<Rightarrow> None | d # ds \<Rightarrow> map_option (\<lambda>n. n + 2) (string_scan ds))
      else map_option Suc (string_scan cs))"

definition string_end :: "string \<Rightarrow> nat option" where
  "string_end s = map_option Suc (string_scan (tl s))"

function nest_end :: "nat \<Rightarrow> string \<Rightarrow> nat option" where
  "nest_end depth [] = None"
| "nest_end depth (c # cs) =
     (if c = CHR 0x22
      then (case string_scan cs of
              None \<Rightarrow> None
            | Some n \<Rightarrow> map_option (\<lambda>m. Suc n + m) (nest_end depth (drop n cs)))
      else if opens c then map_option Suc (nest_end (depth + 1) cs)
      else if closes c
      then if depth - 1 = 0 then Some 1 else map_option Suc (nest_end (depth - 1) cs)
      else map_option Suc (nest_end depth cs))"
  by pat_completeness auto
termination
  by (relation "measure (\<lambda>(depth, s). length s)") auto

definition value_end :: "string \<Rightarrow> nat option" where
  "value_end s =
     (case s of
        [] \<Rightarrow> None
      | c # _ \<Rightarrow>
          if c = CHR 0x22 then string_end s
          else if opens c then nest_end 0 s
          else Some (length (takeWhile (\<lambda>b. b \<noteq> CHR '','' \<and> \<not> closes b) s)))"

text \<open>The order of an encoded key and a step of the path.\<close>

definition quoted :: "string \<Rightarrow> string" where
  "quoted s = [CHR 0x22] @ s @ [CHR 0x22]"

definition compare_key :: "serde \<Rightarrow> string \<Rightarrow> string \<Rightarrow> ordering option" where
  "compare_key S raw step =
     (if CHR 0x5C \<notin> set raw then Some (cmp raw step)
      else map_option (\<lambda>k. cmp k step) (sj_key S (quoted raw)))"

definition tag_text :: string where
  "tag_text = ''{'' @ quoted ''type'' @ '':'' @ [CHR 0x22]"

definition object_text :: string where
  "object_text = tag_text @ ''Object'' @ [CHR 0x22] @ '','' @ quoted ''value'' @ '':{''"

text \<open>
  The loop over the members of one object: \<open>None\<close> is another layout, \<open>Some None\<close> a missing member,
  and otherwise the result is the position of its value.
\<close>

function find_member :: "serde \<Rightarrow> string \<Rightarrow> string \<Rightarrow> string option option" where
  "find_member S step s =
     (case s of
        [] \<Rightarrow> None
      | c # cs \<Rightarrow>
          if c = CHR ''}'' then Some None
          else if c \<noteq> CHR 0x22 then None
          else case string_scan cs of
              None \<Rightarrow> None
            | Some n \<Rightarrow>
                (case compare_key S (take (n - 1) cs) step of
                   None \<Rightarrow> None
                 | Some order \<Rightarrow>
                     (case drop n cs of
                        [] \<Rightarrow> None
                      | d # vs \<Rightarrow>
                          if d \<noteq> CHR '':'' then None
                          else case order of
                              Equal \<Rightarrow> Some (Some vs)
                            | Greater \<Rightarrow> Some None
                            | Less \<Rightarrow>
                                (case value_end vs of
                                   None \<Rightarrow> None
                                 | Some m \<Rightarrow>
                                     (case drop m vs of
                                        [] \<Rightarrow> None
                                      | e # rest \<Rightarrow>
                                          if e = CHR '','' then find_member S step rest
                                          else if e = CHR ''}'' then Some None
                                          else None)))))"
  by pat_completeness auto
termination
proof (relation "measure (\<lambda>(S, step, s). length s)", simp, goal_cases)
  case (1 S step s c cs n order d vs m e rest)
  then have "length (drop n cs) = Suc (length vs)" "length (drop m vs) = Suc (length rest)" by simp_all
  then show ?case using 1(1) by simp
qed

declare find_member.simps [simp del]

datatype lookup_result = LookupFound string | LookupMissing | LookupRootNotObject

fun lookup_steps :: "serde \<Rightarrow> bool \<Rightarrow> string list \<Rightarrow> string \<Rightarrow> lookup_result option" where
  "lookup_steps S root [] s =
     (case value_end s of
        None \<Rightarrow> None
      | Some n \<Rightarrow> if starts_with tag_text s then Some (LookupFound (take n s)) else None)"
| "lookup_steps S root (step # steps) s =
     (if \<not> starts_with object_text s
      then if starts_with tag_text s then Some (if root then LookupRootNotObject else LookupMissing) else None
      else case find_member S step (drop (length object_text) s) of
          None \<Rightarrow> None
        | Some None \<Rightarrow> Some LookupMissing
        | Some (Some s') \<Rightarrow> lookup_steps S False steps s')"

definition lookup :: "serde \<Rightarrow> string \<Rightarrow> string list \<Rightarrow> lookup_result option" where
  "lookup S bytes parts =
     (case strip_prefix magic bytes of
        None \<Rightarrow> None
      | Some s \<Rightarrow> if parts = [] then None else lookup_steps S True parts s)"

section \<open>Scalars and points\<close>

definition number_byte :: "char \<Rightarrow> bool" where
  "number_byte b \<longleftrightarrow> is_ascii_digit b \<or> b \<in> set ''-+.eE''"

definition scalar_value :: "string \<Rightarrow> string \<Rightarrow> val option" where
  "scalar_value kind raw =
     (if kind = ''Boolean''
      then if raw = ''true'' then Some (Boolean True) else if raw = ''false'' then Some (Boolean False) else None
      else if kind = ''Integer'' then if utf8 raw then map_option Integer (parse_i64 raw) else None
      else if kind = ''Number''
      then if utf8 raw \<and> list_all number_byte raw then map_option Number (parse_f64 raw) else None
      else if kind = ''String''
      then Option.bind (strip_prefix [CHR 0x22] raw) (\<lambda>r. Option.bind (strip_suffix [CHR 0x22] r) (\<lambda>inner.
             if list_ex (\<lambda>b. b = CHR 0x22 \<or> b = CHR 0x5C \<or> byte b < 0x20) inner then None
             else if utf8 inner then Some (String inner) else None))
      else None)"

definition scalar :: "string \<Rightarrow> val option" where
  "scalar s =
     (if s = tag_text @ ''Null'' @ [CHR 0x22] @ ''}'' then Some Null
      else Option.bind (strip_prefix tag_text s) (\<lambda>rest.
        if CHR 0x22 \<notin> set rest then None
        else Option.bind (strip_prefix ([CHR 0x22] @ '','' @ quoted ''value'' @ '':'') (dropWhile (\<lambda>b. b \<noteq> CHR 0x22) rest)) (\<lambda>raw.
          Option.bind (strip_suffix ''}'' raw) (scalar_value (takeWhile (\<lambda>b. b \<noteq> CHR 0x22) rest)))))"

text \<open>\<open>windows(3).position(|w| w == b"},{")\<close>.\<close>

fun split_position :: "string \<Rightarrow> nat option" where
  "split_position [] = None"
| "split_position (c # cs) = (if starts_with ''},{'' (c # cs) then Some 0 else map_option Suc (split_position cs))"

definition point_number :: "string \<Rightarrow> val option" where
  "point_number s = (case scalar s of Some (Number n) \<Rightarrow> Some (Number n) | _ \<Rightarrow> None)"

definition point_head :: string where
  "point_head = object_text @ quoted ''coordinates'' @ '':'' @ tag_text @ ''Array'' @ [CHR 0x22] @ '','' @ quoted ''value'' @ '':[''"

definition point_tail :: string where
  "point_tail = '']},'' @ quoted ''type'' @ '':'' @ tag_text @ ''String'' @ [CHR 0x22] @ '','' @ quoted ''value'' @ '':'' @ quoted ''Point'' @ ''}}}''"

definition point :: "string \<Rightarrow> val option" where
  "point s =
     Option.bind (strip_prefix point_head s) (\<lambda>rest.
       Option.bind (strip_suffix point_tail rest) (\<lambda>rest.
         Option.bind (split_position rest) (\<lambda>i.
           Option.bind (point_number (take (i + 1) rest)) (\<lambda>x.
             Option.bind (point_number (drop (i + 2) rest)) (\<lambda>y.
               Some (Object [(''coordinates'', Array [x, y]), (''type'', String ''Point'')]))))))"

definition decode_simple :: "string \<Rightarrow> val option" where
  "decode_simple bytes =
     Option.bind (strip_prefix magic bytes) (\<lambda>s.
       Option.bind (case scalar s of Some v \<Rightarrow> Some v | None \<Rightarrow> point s) (\<lambda>v.
         if validate v = Inr () then Some v else None))"

section \<open>Fields\<close>

datatype field_read = FieldFound val | FieldMissing | FieldRootNotObject

datatype encoded_read = EncodedFound string | EncodedMissing | EncodedRootNotObject

definition read_field :: "serde \<Rightarrow> string \<Rightarrow> string list \<Rightarrow> field_read option" where
  "read_field S bytes parts =
     (case lookup S bytes parts of
        Some (LookupFound s) \<Rightarrow>
          Option.bind
            (case scalar s of
               Some v \<Rightarrow> Some v
             | None \<Rightarrow>
                 if \<not> utf8 s then None
                 else case decode_wire_json S s of Inl _ \<Rightarrow> None | Inr v \<Rightarrow> Some v)
            (\<lambda>v. if validate v = Inr () then Some (FieldFound v) else None)
      | Some LookupMissing \<Rightarrow> Some FieldMissing
      | _ \<Rightarrow> None)"

definition read_encoded :: "serde \<Rightarrow> string \<Rightarrow> string list \<Rightarrow> encoded_read option" where
  "read_encoded S bytes parts =
     (case lookup S bytes parts of
        Some (LookupFound s) \<Rightarrow> Some (EncodedFound (magic @ s))
      | Some LookupMissing \<Rightarrow> Some EncodedMissing
      | _ \<Rightarrow> None)"

definition decode_field :: "serde \<Rightarrow> string \<Rightarrow> string list \<Rightarrow> ferror + field_read" where
  "decode_field S bytes parts =
     (case read_field S bytes parts of
        Some found \<Rightarrow> Inr found
      | None \<Rightarrow>
          rbind (decode S bytes) (\<lambda>v.
            case v of
              Object doc \<Rightarrow>
                (case path_value doc parts of
                   Inr (Some found) \<Rightarrow> Inr (FieldFound found)
                 | Inr None \<Rightarrow> Inr FieldMissing
                 | Inl (Validation _) \<Rightarrow> Inr FieldMissing
                 | Inl e \<Rightarrow> Inl e)
            | _ \<Rightarrow> Inr FieldRootNotObject))"

definition encoded_field :: "serde \<Rightarrow> string \<Rightarrow> string list \<Rightarrow> ferror + encoded_read" where
  "encoded_field S bytes parts =
     (case read_encoded S bytes parts of
        Some found \<Rightarrow> Inr found
      | None \<Rightarrow>
          rbind (decode_field S bytes parts) (\<lambda>r.
            case r of
              FieldFound v \<Rightarrow> rbind (encode (sj_writes S) v) (\<lambda>b. Inr (EncodedFound b))
            | FieldMissing \<Rightarrow> Inr EncodedMissing
            | FieldRootNotObject \<Rightarrow> Inr EncodedRootNotObject))"

section \<open>The layout of an encoding\<close>

text \<open>
  JSON text without white space as trees; the texts of strings and keys stand as they are written, with
  their escapes.
\<close>

datatype json = JAtom string | JString string | JArray "json list" | JObject "(string \<times> json) list"

lemma size_json_member [termination_simp]:
  "m \<in> set ms \<Longrightarrow> size (snd m) < Suc (size_list (size_prod (\<lambda>_. 0) size) (ms :: (string \<times> json) list))"
  by (induction ms) (auto split: prod.splits)

fun commas :: "string list \<Rightarrow> string" where
  "commas [] = []"
| "commas [x] = x"
| "commas (x # y # ys) = x @ '','' @ commas (y # ys)"

fun render :: "json \<Rightarrow> string" where
  "render (JAtom s) = s"
| "render (JString s) = quoted s"
| "render (JArray ts) = ''['' @ commas (map render ts) @ '']''"
| "render (JObject ms) = ''{'' @ commas (map (\<lambda>m. quoted (fst m) @ '':'' @ render (snd m)) ms) @ ''}''"

text \<open>No quote ends the text of a string early, and no escape swallows the quote that does.\<close>

fun escaped :: "string \<Rightarrow> bool" where
  "escaped [] \<longleftrightarrow> True"
| "escaped (c # cs) \<longleftrightarrow>
     c \<noteq> CHR 0x22 \<and> (if c = CHR 0x5C then (case cs of [] \<Rightarrow> False | d # ds \<Rightarrow> escaped ds) else escaped cs)"

definition plain_byte :: "char \<Rightarrow> bool" where
  "plain_byte c \<longleftrightarrow> c \<noteq> CHR 0x22 \<and> \<not> opens c \<and> \<not> closes c"

text \<open>Well-formed trees nested at most \<open>n\<close> deep.\<close>

fun layout :: "nat \<Rightarrow> json \<Rightarrow> bool" where
  "layout n (JAtom s) \<longleftrightarrow> list_all plain_byte s"
| "layout n (JString s) \<longleftrightarrow> escaped s"
| "layout n (JArray ts) \<longleftrightarrow> 0 < n \<and> (\<forall>t \<in> set ts. layout (n - 1) t)"
| "layout n (JObject ms) \<longleftrightarrow> 0 < n \<and> (\<forall>m \<in> set ms. escaped (fst m) \<and> layout (n - 1) (snd m))"

text \<open>A value is tagged as \<open>{"type":"Kind","value":...}\<close>, the members of an object in key order.\<close>

definition tagged :: "string \<Rightarrow> json \<Rightarrow> json" where
  "tagged kind t = JObject [(''type'', JString kind), (''value'', t)]"

definition byte_array :: "string \<Rightarrow> json" where
  "byte_array b = JArray (map (\<lambda>c. JAtom (show_nat (byte c))) b)"

definition key_tree :: "serde \<Rightarrow> key \<Rightarrow> json" where
  "key_tree S k =
     (case k of
        KeyInteger i \<Rightarrow> JObject [(''Integer'', JAtom (show_int i))]
      | KeyString s \<Rightarrow> JObject [(''String'', JString (sj_escape S s))])"

fun tree :: "serde \<Rightarrow> val \<Rightarrow> json" where
  "tree S Null = JObject [(''type'', JString ''Null'')]"
| "tree S (Boolean b) = tagged ''Boolean'' (JAtom (if b then ''true'' else ''false''))"
| "tree S (Integer i) = tagged ''Integer'' (JAtom (show_int i))"
| "tree S (Number n) = tagged ''Number'' (JAtom (sj_number S n))"
| "tree S (String s) = tagged ''String'' (JString (sj_escape S s))"
| "tree S (Binary b) = tagged ''Binary'' (byte_array b)"
| "tree S (Vector b) = tagged ''Vector'' (byte_array b)"
| "tree S (Record r) = tagged ''Record''
     (JObject [(''table'', JString (sj_escape S (rec_table r))), (''key'', key_tree S (rec_key r))])"
| "tree S (Array vs) = tagged ''Array'' (JArray (map (tree S) vs))"
| "tree S (Object fs) = tagged ''Object'' (JObject (map (\<lambda>f. (sj_escape S (fst f), tree S (snd f))) fs))"

definition json_text :: "serde \<Rightarrow> val \<Rightarrow> string" where
  "json_text S v = render (tree S v)"

section \<open>Walking over a text\<close>

text \<open>
  A walk over the bytes skips a text when it goes on after it as if it had not been there. The law for
  brackets spends one level of nesting.
\<close>

locale text_walk =
  fixes skips :: "nat \<Rightarrow> string \<Rightarrow> bool"
  assumes skips_Nil: "skips n []"
    and skips_append: "skips n x \<Longrightarrow> skips n y \<Longrightarrow> skips n (x @ y)"
    and skips_plain: "plain_byte c \<Longrightarrow> skips n [c]"
    and skips_quoted: "escaped s \<Longrightarrow> skips n (quoted s)"
    and skips_nested: "skips n x \<Longrightarrow> opens a \<Longrightarrow> closes b \<Longrightarrow> skips (Suc n) ([a] @ x @ [b])"
begin

lemma skips_separator: "skips n x \<Longrightarrow> skips n (CHR '','' # x)" "skips n x \<Longrightarrow> skips n (CHR '':'' # x)"
  using skips_append [OF skips_plain, of "CHR '',''" n x] skips_append [OF skips_plain, of "CHR '':''" n x]
  by (simp_all add: plain_byte_def opens_def closes_def)

lemma skips_commas: "\<forall>x \<in> set xs. skips n x \<Longrightarrow> skips n (commas xs)"
  by (induction xs rule: commas.induct) (auto intro!: skips_Nil skips_append skips_separator)

lemma skips_atom: "list_all plain_byte s \<Longrightarrow> skips n s"
proof (induction s)
  case (Cons c s)
  then have "skips n ([c] @ s)" by (intro skips_append skips_plain) simp_all
  then show ?case by simp
qed (rule skips_Nil)

lemma skips_render: "layout n t \<Longrightarrow> skips n (render t)"
proof (induction t arbitrary: n)
  case (JArray ts)
  then have "\<forall>x \<in> set (map render ts). skips (n - 1) x" and "0 < n" by auto
  then show ?case using skips_nested [OF skips_commas, of "map render ts" "n - 1" "CHR ''[''" "CHR '']''"]
    by (simp add: opens_def closes_def)
next
  case (JObject ms)
  have m: "skips (n - 1) (quoted (fst m) @ '':'' @ render (snd m))" if "m \<in> set ms" for m
    using JObject.IH [of m "snd m" "n - 1"] JObject.prems that
    by (auto simp: snds.simps intro!: skips_append skips_quoted skips_separator)
  then show ?case
    using skips_nested [OF skips_commas, of "map (\<lambda>m. quoted (fst m) @ '':'' @ render (snd m)) ms" "n - 1" "CHR ''{''" "CHR ''}''"]
      JObject.prems
    by (simp add: opens_def closes_def)
qed (auto intro: skips_atom skips_quoted)

lemma skips_members:
  assumes "layout n (JObject ms)"
  shows "skips (n - 1) (commas (map (\<lambda>m. quoted (fst m) @ '':'' @ render (snd m)) ms))"
proof (rule skips_commas, rule ballI)
  fix x
  assume "x \<in> set (map (\<lambda>m. quoted (fst m) @ '':'' @ render (snd m)) ms)"
  then obtain m where m: "m \<in> set ms" "x = quoted (fst m) @ CHR '':'' # render (snd m)" by auto
  then show "skips (n - 1) x"
    using assms unfolding m(2) by (intro skips_append skips_quoted skips_separator skips_render) auto
qed

end

lemma string_scan_escaped: "escaped s \<Longrightarrow> string_scan (s @ CHR 0x22 # r) = Some (Suc (length s))"
  by (induction s rule: escaped.induct) (auto split: list.splits if_splits)

lemma skip_string_escaped: "escaped s \<Longrightarrow> skip_string (s @ CHR 0x22 # r) = r"
  by (induction s rule: escaped.induct) (auto split: list.splits if_splits)

definition nest_skips :: "nat \<Rightarrow> string \<Rightarrow> bool" where
  "nest_skips n x \<longleftrightarrow>
     (\<forall>d r. 0 < d \<longrightarrow> nest_end d (x @ r) = map_option (\<lambda>m. length x + m) (nest_end d r))"

definition wire_skips :: "nat \<Rightarrow> string \<Rightarrow> bool" where
  "wire_skips n x \<longleftrightarrow> (\<forall>d r. d + n \<le> MAX_WIRE_DEPTH \<longrightarrow> wire_scan d (x @ r) = wire_scan d r)"

lemma bracket_bytes: "opens a \<Longrightarrow> a \<noteq> CHR 0x22 \<and> \<not> closes a" "closes b \<Longrightarrow> b \<noteq> CHR 0x22 \<and> \<not> opens b"
  by (auto simp: opens_def closes_def)

interpretation nest: text_walk nest_skips
proof
  fix n x y
  assume "nest_skips n x" "nest_skips n y"
  then show "nest_skips n (x @ y)"
    by (simp add: nest_skips_def option.map_comp comp_def add.assoc)
next
  fix n x a b
  assume x: "nest_skips n x" and ab: "opens a" "closes b"
  show "nest_skips (Suc n) ([a] @ x @ [b])"
    unfolding nest_skips_def
  proof (intro allI impI)
    fix d r
    assume d: "0 < (d :: nat)"
    have "nest_end (d + 1) (x @ b # r) = map_option (\<lambda>m. length x + m) (nest_end (d + 1) (b # r))"
      using x unfolding nest_skips_def by simp
    then show "nest_end d (([a] @ x @ [b]) @ r) = map_option (\<lambda>m. length ([a] @ x @ [b]) + m) (nest_end d r)"
      using d ab bracket_bytes(1) [OF ab(1)] bracket_bytes(2) [OF ab(2)]
      by (simp add: option.map_comp comp_def)
  qed
next
  fix n s
  assume "escaped s"
  then have "nest_end d (quoted s @ r) = map_option (\<lambda>m. length (quoted s) + m) (nest_end d r)" for d r
    by (cases "nest_end d r") (simp_all add: quoted_def string_scan_escaped)
  then show "nest_skips n (quoted s)" by (simp add: nest_skips_def)
qed (simp_all add: nest_skips_def plain_byte_def option.map_ident)

interpretation wire: text_walk wire_skips
proof
  fix n x a b
  assume x: "wire_skips n x" and ab: "opens a" "closes b"
  show "wire_skips (Suc n) ([a] @ x @ [b])"
    unfolding wire_skips_def
  proof (intro allI impI)
    fix d r
    assume d: "d + Suc n \<le> MAX_WIRE_DEPTH"
    then have "wire_scan (d + 1) (x @ b # r) = wire_scan (d + 1) (b # r)"
      using x unfolding wire_skips_def by simp
    then show "wire_scan d (([a] @ x @ [b]) @ r) = wire_scan d r"
      using d ab bracket_bytes(1) [OF ab(1)] bracket_bytes(2) [OF ab(2)] by simp
  qed
qed (auto simp: wire_skips_def plain_byte_def quoted_def skip_string_escaped)

lemma wire_scan_render:
  assumes "layout n t" and "n \<le> MAX_WIRE_DEPTH"
  shows "wire_scan 0 (render t) = Inr ()"
  using wire.skips_render [OF assms(1), unfolded wire_skips_def, rule_format, of 0 "[]"] assms(2) by simp

lemma value_end_render:
  assumes "layout n (JObject ms)"
  shows "value_end (render (JObject ms) @ r) = Some (length (render (JObject ms)))"
proof -
  define body where "body = commas (map (\<lambda>m. quoted (fst m) @ '':'' @ render (snd m)) ms)"
  have "nest_end 1 (body @ ''}'' @ r) = map_option (\<lambda>m. length body + m) (nest_end 1 (''}'' @ r))"
    using nest.skips_members [OF assms] unfolding body_def [symmetric] nest_skips_def by simp
  moreover have "render (JObject ms) = ''{'' @ body @ ''}''" by (simp add: body_def)
  ultimately show ?thesis by (simp add: value_end_def opens_def closes_def)
qed

section \<open>What the reader relies on\<close>

text \<open>The values inside a value, itself included.\<close>

fun parts :: "val \<Rightarrow> val set" where
  "parts (Object fs) = insert (Object fs) (\<Union>f \<in> set fs. parts (snd f))"
| "parts (Array vs) = insert (Array vs) (\<Union>v \<in> set vs. parts v)"
| "parts v = {v}"

text \<open>The strings a value holds itself, its keys included; each is a \<open>String\<close> of the code, so UTF-8.\<close>

fun own_strings :: "val \<Rightarrow> string set" where
  "own_strings (String s) = {s}"
| "own_strings (Record r) =
     insert (rec_table r) (case rec_key r of KeyString s \<Rightarrow> {s} | KeyInteger i \<Rightarrow> {})"
| "own_strings (Object fs) = fst ` set fs"
| "own_strings v = {}"

text \<open>
  What the library does with the parts of the value at hand: strings are written escaped, unchanged when
  nothing needs an escape, and read back; a double is written in digits that \<open>str::parse\<close> reads back; a
  value is written in the layout above, as UTF-8, and read back.
\<close>

definition escapes :: "serde \<Rightarrow> string \<Rightarrow> bool" where
  "escapes S s \<longleftrightarrow>
     escaped (sj_escape S s) \<and> (CHR 0x5C \<in> set (sj_escape S s) \<or> sj_escape S s = s) \<and>
     sj_key S (quoted (sj_escape S s)) = Some s"

definition strings_escaped :: "serde \<Rightarrow> val \<Rightarrow> bool" where
  "strings_escaped S v \<longleftrightarrow> (\<forall>u \<in> parts v. \<forall>s \<in> own_strings u. utf8 s \<and> escapes S s)"

definition numbers_exact :: "serde \<Rightarrow> val \<Rightarrow> bool" where
  "numbers_exact S v \<longleftrightarrow>
     (\<forall>n. Number n \<in> parts v \<longrightarrow> list_all number_byte (sj_number S n) \<and> parse_f64 (sj_number S n) = Some n)"

definition values_written :: "serde \<Rightarrow> val \<Rightarrow> bool" where
  "values_written S v \<longleftrightarrow>
     (\<forall>u \<in> parts v. concat (sj_writes S u) = json_text S u \<and> utf8 (json_text S u) \<and> sj_parse S (json_text S u) = Inr u)"

lemma parts_self [simp]: "v \<in> parts v"
  by (cases v) auto

lemma plain_digit: "is_ascii_digit c \<Longrightarrow> plain_byte c"
  by (auto simp: is_ascii_digit_def plain_byte_def opens_def closes_def)

lemma plain_nat: "list_all plain_byte (show_nat n)"
  using show_nat_digits [of n] by (auto simp: list_all_iff plain_digit)

lemma plain_int: "list_all plain_byte (show_int i)"
  using plain_nat by (auto simp: show_int_def plain_byte_def opens_def closes_def)

lemma plain_number: "list_all number_byte s \<Longrightarrow> list_all plain_byte s"
proof (induction s)
  case (Cons c s)
  then have "number_byte c" by simp
  then have "plain_byte c" using plain_digit by (auto simp: number_byte_def plain_byte_def opens_def closes_def)
  then show ?case using Cons by simp
qed simp

lemma strings_escaped_simps:
  "strings_escaped S (String s) \<Longrightarrow> escaped (sj_escape S s)"
  "strings_escaped S (Object fs) \<Longrightarrow> f \<in> set fs \<Longrightarrow> escapes S (fst f) \<and> strings_escaped S (snd f)"
  "strings_escaped S (Array vs) \<Longrightarrow> v \<in> set vs \<Longrightarrow> strings_escaped S v"
  by (auto simp: strings_escaped_def escapes_def)

lemma layout_tree:
  "strings_escaped S v \<Longrightarrow> numbers_exact S v \<Longrightarrow> nesting v \<le> k \<Longrightarrow> layout (2 * k + 3) (tree S v)"
proof (induction v arbitrary: k)
  case (Object fs)
  show ?case
  proof (cases fs)
    case Nil
    then show ?thesis by (simp add: tagged_def)
  next
    case (Cons f gs)
    have kids: "layout (3 + 2 * (k - 1)) (tree S (snd f)) \<and> 0 < k" if "f \<in> set fs" for f
    proof -
      have "strings_escaped S (snd f)" using strings_escaped_simps(2) [OF Object.prems(1) that] by simp
      moreover have "numbers_exact S (snd f)" using Object.prems(2) that by (auto simp: numbers_exact_def)
      moreover have "nesting (snd f) + 1 \<le> k" using Object.prems(3) that by (auto simp: max_or_zero_le)
      ultimately show ?thesis using Object.IH [of f "snd f" "k - 1"] that by (auto simp: snds.simps add.commute)
    qed
    from kids [of f] have "0 < k" using Cons by simp
    then have "2 * k + 3 = Suc (Suc (2 * (k - 1) + 3))" by simp
    then show ?thesis using kids strings_escaped_simps(2) [OF Object.prems(1)] by (auto simp: tagged_def escapes_def)
  qed
next
  case (Array vs)
  show ?case
  proof (cases vs)
    case Nil
    then show ?thesis by (simp add: tagged_def)
  next
    case (Cons w ws)
    have kids: "layout (3 + 2 * (k - 1)) (tree S v) \<and> 0 < k" if "v \<in> set vs" for v
    proof -
      have "strings_escaped S v" using strings_escaped_simps(3) [OF Array.prems(1) that] .
      moreover have "numbers_exact S v" using Array.prems(2) that by (auto simp: numbers_exact_def)
      moreover have "nesting v + 1 \<le> k" using Array.prems(3) that by (auto simp: max_or_zero_le)
      ultimately show ?thesis using Array.IH [of v "k - 1"] that by (auto simp: add.commute)
    qed
    then have "0 < k" using Cons by auto
    then have "2 * k + 3 = Suc (Suc (2 * (k - 1) + 3))" by simp
    then show ?thesis using kids by (auto simp: tagged_def)
  qed
next
  case (Record r)
  then show ?case
    by (auto simp: tagged_def key_tree_def strings_escaped_def escapes_def plain_int split: key.splits)
next
  case (Number n)
  then show ?case by (auto simp: tagged_def numbers_exact_def plain_number)
next
  case (String s)
  then show ?case using strings_escaped_simps(1) by (simp add: tagged_def)
next
  case (Integer i)
  then show ?case by (simp add: tagged_def plain_int)
next
  case (Boolean b)
  then show ?case by (simp add: tagged_def plain_byte_def opens_def closes_def)
next
  case (Binary b)
  then show ?case by (simp add: tagged_def byte_array_def plain_nat)
next
  case (Vector b)
  then show ?case by (simp add: tagged_def byte_array_def plain_nat)
qed simp

section \<open>Finding a member\<close>

lemma starts_with_append [simp]: "starts_with p (p @ s)"
  by (simp add: starts_with_def)

lemma tree_object: "\<exists>ms. tree S v = JObject ms"
  by (cases v) (simp_all add: tagged_def)

lemma value_end_json:
  assumes "strings_escaped S v" and "numbers_exact S v"
  shows "value_end (json_text S v @ r) = Some (length (json_text S v))"
proof -
  obtain ms where ms: "tree S v = JObject ms" using tree_object by blast
  show ?thesis
    using value_end_render [of "2 * nesting v + 3" ms r] layout_tree [OF assms order_refl]
    unfolding json_text_def ms by blast
qed

lemma json_tag: "starts_with tag_text (json_text S v @ r)"
  by (cases v) (simp_all add: json_text_def tagged_def tag_text_def quoted_def starts_with_def)

lemma json_not_object: "\<not> (\<exists>fs. v = Object fs) \<Longrightarrow> \<not> starts_with object_text (json_text S v @ r)"
  by (cases v) (simp_all add: json_text_def tagged_def object_text_def tag_text_def quoted_def starts_with_def)

definition members_text :: "serde \<Rightarrow> document \<Rightarrow> string" where
  "members_text S fs = commas (map (\<lambda>f. quoted (sj_escape S (fst f)) @ '':'' @ json_text S (snd f)) fs)"

lemma json_object: "json_text S (Object fs) @ r = object_text @ members_text S fs @ ''}}'' @ r"
  by (simp add: json_text_def members_text_def tagged_def object_text_def tag_text_def quoted_def comp_def)

lemma members_Cons:
  "members_text S (f # fs) @ ''}'' @ r =
   quoted (sj_escape S (fst f)) @ '':'' @ json_text S (snd f) @
     (if fs = [] then ''}'' @ r else '','' @ members_text S fs @ ''}'' @ r)"
  by (cases fs) (simp_all add: members_text_def)

lemma compare_key_escape:
  assumes "escapes S k"
  shows "compare_key S (sj_escape S k) step = Some (cmp k step)"
  using assms unfolding escapes_def compare_key_def by (metis option.simps(9))

lemma find_member_step:
  assumes "escapes S k"
  shows "find_member S step (quoted (sj_escape S k) @ '':'' @ vs) =
    (case cmp k step of
       Equal \<Rightarrow> Some (Some vs)
     | Greater \<Rightarrow> Some None
     | Less \<Rightarrow>
         (case value_end vs of
            None \<Rightarrow> None
          | Some m \<Rightarrow>
              (case drop m vs of
                 [] \<Rightarrow> None
               | e # rest \<Rightarrow>
                   if e = CHR '','' then find_member S step rest
                   else if e = CHR ''}'' then Some None
                   else None)))"
proof -
  have "string_scan (sj_escape S k @ CHR 0x22 # CHR '':'' # vs) = Some (Suc (length (sj_escape S k)))"
    using assms by (intro string_scan_escaped) (simp add: escapes_def)
  then show ?thesis
    using compare_key_escape [OF assms, of step] by (subst find_member.simps) (simp add: quoted_def)
qed

lemma find_member_end: "find_member S step (''}'' @ r) = Some None"
  by (subst find_member.simps) simp

lemma find_member_json:
  "bm_wf fs \<Longrightarrow> \<forall>f \<in> set fs. escapes S (fst f) \<and> strings_escaped S (snd f) \<and> numbers_exact S (snd f) \<Longrightarrow>
    case bm_get step fs of
      None \<Rightarrow> find_member S step (members_text S fs @ ''}'' @ r) = Some None
    | Some v \<Rightarrow> \<exists>r'. find_member S step (members_text S fs @ ''}'' @ r) = Some (Some (json_text S v @ r'))"
proof (induction fs)
  case Nil
  then show ?case using find_member_end by (simp add: members_text_def)
next
  case (Cons f fs)
  obtain k v where f: "f = (k, v)" by force
  let ?tail = "if fs = [] then ''}'' @ r else '','' @ members_text S fs @ ''}'' @ r"
  have ve: "value_end (json_text S v @ ?tail) = Some (length (json_text S v))"
    using Cons.prems(2) f by (intro value_end_json) simp_all
  have k: "escapes S k" using Cons.prems(2) f by simp
  have step: "find_member S step (members_text S (f # fs) @ ''}'' @ r) =
      (case cmp k step of
         Equal \<Rightarrow> Some (Some (json_text S v @ ?tail))
       | Greater \<Rightarrow> Some None
       | Less \<Rightarrow> if fs = [] then Some None else find_member S step (members_text S fs @ ''}'' @ r))"
    unfolding members_Cons f fst_conv snd_conv find_member_step [OF k] ve
    by (simp del: cmp_simps split: ordering.split)
  consider "k < step" | "k = step" | "step < k" by force
  then show ?case
  proof cases
    case 1
    then have "find_member S step (members_text S (f # fs) @ ''}'' @ r) =
        (if fs = [] then Some None else find_member S step (members_text S fs @ ''}'' @ r))"
      using step by (simp add: cmp_def)
    with 1 show ?thesis
      using Cons.IH Cons.prems f by (cases "fs = []") (auto simp: bm_wf_Cons split: option.splits)
  next
    case 2
    then have "find_member S step (members_text S (f # fs) @ ''}'' @ r) = Some (Some (json_text S v @ ?tail))"
      using step by (simp add: cmp_def)
    then show ?thesis using 2 f by auto
  next
    case 3
    then have "find_member S step (members_text S (f # fs) @ ''}'' @ r) = Some None"
      using step by (auto simp: cmp_def)
    moreover have "bm_get step (f # fs) = None" using bm_get_min [of k v fs step] Cons.prems(1) 3 f by simp
    ultimately show ?thesis by simp
  qed
qed

text \<open>What a path leads to in a value.\<close>

fun expected :: "serde \<Rightarrow> bool \<Rightarrow> string list \<Rightarrow> val \<Rightarrow> lookup_result" where
  "expected S root [] v = LookupFound (json_text S v)"
| "expected S root (step # steps) v =
     (case v of
        Object fs \<Rightarrow>
          (case bm_get step fs of None \<Rightarrow> LookupMissing | Some u \<Rightarrow> expected S False steps u)
      | _ \<Rightarrow> if root then LookupRootNotObject else LookupMissing)"

lemma lookup_json:
  "wf_val v \<Longrightarrow> strings_escaped S v \<Longrightarrow> numbers_exact S v \<Longrightarrow>
    lookup_steps S root steps (json_text S v @ r) = Some (expected S root steps v)"
proof (induction steps arbitrary: v root r)
  case Nil
  then show ?case using value_end_json [OF Nil(2,3)] json_tag by simp
next
  case (Cons step steps)
  show ?case
  proof (cases "\<exists>fs. v = Object fs")
    case True
    then obtain fs where v: "v = Object fs" by blast
    have laws: "\<forall>f \<in> set fs. escapes S (fst f) \<and> strings_escaped S (snd f) \<and> numbers_exact S (snd f)"
      using strings_escaped_simps(2) [OF Cons.prems(2) [unfolded v]] Cons.prems(3) by (auto simp: v numbers_exact_def)
    have fm: "case bm_get step fs of
        None \<Rightarrow> find_member S step (members_text S fs @ ''}'' @ ''}'' @ r) = Some None
      | Some u \<Rightarrow> \<exists>r'. find_member S step (members_text S fs @ ''}'' @ ''}'' @ r) = Some (Some (json_text S u @ r'))"
      by (rule find_member_json) (use Cons.prems(1) laws in \<open>simp_all add: v\<close>)
    have unfold: "lookup_steps S root (step # steps) (json_text S v @ r) =
        (case find_member S step (members_text S fs @ ''}'' @ ''}'' @ r) of
           None \<Rightarrow> None | Some None \<Rightarrow> Some LookupMissing | Some (Some s') \<Rightarrow> lookup_steps S False steps s')"
      unfolding v json_object by simp
    show ?thesis
    proof (cases "bm_get step fs")
      case None
      then show ?thesis using fm unfold v by simp
    next
      case (Some u)
      then obtain r' where "find_member S step (members_text S fs @ ''}'' @ ''}'' @ r) = Some (Some (json_text S u @ r'))"
        using fm by auto
      moreover have "wf_val u" "strings_escaped S u" "numbers_exact S u"
        using bm_get_SomeD [OF Some] Cons.prems(1) laws by (auto simp: v)
      ultimately show ?thesis using Cons.IH [of u False r'] unfold v Some by simp
    qed
  next
    case False
    then have "expected S root (step # steps) v = (if root then LookupRootNotObject else LookupMissing)"
      by (cases v) simp_all
    then show ?thesis using json_not_object [OF False] json_tag [of S v r] by simp
  qed
qed

section \<open>Scalars are read exactly\<close>

lemma strip_prefix_append [simp]: "strip_prefix p (p @ s) = Some s"
  by (simp add: strip_prefix_def)

lemma strip_suffix_append [simp]: "strip_suffix p (s @ p) = Some s"
  by (simp add: strip_suffix_def)

lemma tagged_text:
  "render (tagged kind t) = tag_text @ kind @ ([CHR 0x22] @ '','' @ quoted ''value'' @ '':'') @ render t @ ''}''"
  by (simp add: tagged_def tag_text_def quoted_def)

lemma scalar_tagged:
  assumes "CHR 0x22 \<notin> set kind"
  shows "scalar (render (tagged kind t)) = scalar_value kind (render t)"
proof -
  let ?sep = "[CHR 0x22] @ '','' @ quoted ''value'' @ '':''"
  have kind: "takeWhile (\<lambda>b. b \<noteq> CHR 0x22) (kind @ ?sep @ render t @ ''}'') = kind"
    "dropWhile (\<lambda>b. b \<noteq> CHR 0x22) (kind @ ?sep @ render t @ ''}'') = ?sep @ render t @ ''}''"
    using assms by (auto simp: takeWhile_append dropWhile_append)
  have "render (tagged kind t) \<noteq> tag_text @ ''Null'' @ [CHR 0x22] @ ''}''"
  proof
    assume "render (tagged kind t) = tag_text @ ''Null'' @ [CHR 0x22] @ ''}''"
    then have eq: "kind @ ?sep @ render t @ ''}'' = ''Null'' @ [CHR 0x22] @ ''}''" unfolding tagged_text by simp
    have "?sep @ render t @ ''}'' = dropWhile (\<lambda>b. b \<noteq> CHR 0x22) (''Null'' @ [CHR 0x22] @ ''}'')"
      using arg_cong [OF eq, of "dropWhile (\<lambda>b. b \<noteq> CHR 0x22)"] unfolding kind(2) .
    then show False by simp
  qed
  moreover have "CHR 0x22 \<in> set (kind @ ?sep @ render t @ ''}'')" by simp
  ultimately show ?thesis
    unfolding scalar_def tagged_text strip_prefix_append bind.bind_lunit kind strip_suffix_append by simp
qed

lemma scalar_json:
  assumes "strings_escaped S v" and "numbers_exact S v" and "wf_val v" and "scalar (json_text S v) = Some w"
  shows "w = v"
proof (cases v)
  case Null
  then show ?thesis using assms(4) by (simp add: json_text_def scalar_def tag_text_def quoted_def)
next
  case (Boolean b)
  then show ?thesis using assms(4) by (simp add: json_text_def scalar_tagged scalar_value_def split: if_splits)
next
  case (Integer i)
  then show ?thesis
    using assms(3,4) parse_i64_show_int [of i]
    by (simp add: json_text_def scalar_tagged scalar_value_def split: if_splits)
next
  case (Number n)
  then show ?thesis
    using assms(2,4) by (simp add: json_text_def scalar_tagged scalar_value_def numbers_exact_def split: if_splits)
next
  case (String s)
  have q: "strip_prefix [CHR 0x22] (quoted x) = Some (x @ [CHR 0x22])" for x
    by (simp add: quoted_def strip_prefix_def starts_with_def)
  have "CHR 0x5C \<notin> set (sj_escape S s) \<and> w = String (sj_escape S s)"
    using assms(4) by (auto simp: String json_text_def scalar_tagged scalar_value_def q list_ex_iff split: if_splits)
  then show ?thesis using assms(1) String by (auto simp: strings_escaped_def escapes_def)
qed (use assms(4) in \<open>simp_all add: json_text_def scalar_tagged scalar_value_def\<close>)

section \<open>Fields are read exactly\<close>

text \<open>The members of a document along a path, as \<open>decode_field\<close> reads the decoded document.\<close>

definition field_of :: "document \<Rightarrow> string list \<Rightarrow> field_read" where
  "field_of doc p = (case path_value doc p of Inr (Some v) \<Rightarrow> FieldFound v | _ \<Rightarrow> FieldMissing)"

lemma parts_trans: "u \<in> parts v \<Longrightarrow> parts u \<subseteq> parts v"
proof (induction v)
  case (Object fs)
  show ?case
  proof (cases "u = Object fs")
    case False
    then obtain f where f: "f \<in> set fs" "u \<in> parts (snd f)" using Object.prems by auto
    then have "parts u \<subseteq> parts (snd f)" using Object.IH [of f "snd f"] by (cases f) (auto simp: snds.simps)
    then show ?thesis using f(1) by auto
  qed simp
next
  case (Array vs)
  show ?case
  proof (cases "u = Array vs")
    case False
    then obtain v where v: "v \<in> set vs" "u \<in> parts v" using Array.prems by auto
    then have "parts u \<subseteq> parts v" by (rule Array.IH)
    then show ?thesis using v(1) by auto
  qed simp
qed auto

lemma member_valid:
  assumes "bm_get k fs = Some u" and "nesting (Object fs) \<le> n" and "valid_leaves (Object fs)" and "wf_val (Object fs)"
  shows "nesting u \<le> n" and "valid_leaves u" and "wf_val u" and "u \<in> parts (Object fs)"
  using bm_get_SomeD [OF assms(1)] assms(2-4) by (force simp: max_or_zero_le)+

lemma path_non_object:
  assumes "\<not> (\<exists>fs. u = Object fs)" and "p \<noteq> []" and "bm_get k doc = Some u"
  shows "expected S root (k # p) (Object doc) = LookupMissing" and "\<exists>e. path_value doc (k # p) = Inl e"
proof -
  obtain j q where p: "p = j # q" using assms(2) by (cases p) auto
  show "expected S root (k # p) (Object doc) = LookupMissing"
    using assms(1,3) by (cases u) (simp_all add: p)
  show "\<exists>e. path_value doc (k # p) = Inl e"
    using assms by (cases u) simp_all
qed

definition path_read :: "serde \<Rightarrow> bool \<Rightarrow> string list \<Rightarrow> document \<Rightarrow> bool" where
  "path_read S root p doc \<longleftrightarrow>
     (case path_value doc p of
        Inr (Some u) \<Rightarrow> expected S root p (Object doc) = LookupFound (json_text S u) \<and> u \<in> parts (Object doc) \<and>
          wf_val u \<and> nesting u \<le> 64 \<and> valid_leaves u
      | _ \<Rightarrow> expected S root p (Object doc) = LookupMissing)"

lemma expected_path:
  "nesting (Object doc) \<le> 64 \<Longrightarrow> valid_leaves (Object doc) \<Longrightarrow> wf_val (Object doc) \<Longrightarrow> p \<noteq> [] \<Longrightarrow>
   path_read S root p doc"
proof (induction p arbitrary: doc root)
  case (Cons k p)
  show ?case
  proof (cases "bm_get k doc")
    case (Some u)
    note u = member_valid [OF Some Cons.prems(1-3)]
    consider "p = []" | fs where "p \<noteq> []" "u = Object fs" | "p \<noteq> []" "\<not> (\<exists>fs. u = Object fs)" by blast
    then show ?thesis
    proof cases
      case 1
      then show ?thesis using Some u by (simp add: path_read_def)
    next
      case 2
      have "expected S root (k # p) (Object doc) = expected S False p (Object fs)"
        and "path_value doc (k # p) = path_value fs p" using Some 2 by simp_all
      moreover have "path_read S False p fs" by (rule Cons.IH) (use u 2 in simp_all)
      ultimately show ?thesis
        using parts_trans [OF u(4)] 2(2) unfolding path_read_def
        by (auto simp del: parts.simps path_value.simps expected.simps split: sum.splits option.splits)
    next
      case 3
      then show ?thesis using path_non_object [OF 3(2,1) Some] by (auto simp: path_read_def simp del: path_value.simps expected.simps)
    qed
  qed (simp add: path_read_def)
qed simp

lemma lookup_document:
  assumes "strings_escaped S (Object doc)" and "numbers_exact S (Object doc)" and "wf_val (Object doc)" and "p \<noteq> []"
  shows "lookup S (magic @ json_text S (Object doc)) p = Some (expected S True p (Object doc))"
  using lookup_json [OF assms(3,1,2), of True p "[]"] assms(4) by (simp add: lookup_def)

lemma decode_json:
  assumes "strings_escaped S v" and "numbers_exact S v" and "values_written S v" and "nesting v \<le> 64"
  shows "utf8 (json_text S v)" and "decode_wire_json S (json_text S v) = Inr v"
proof -
  have "wire_scan 0 (json_text S v) = Inr ()"
    unfolding json_text_def
    by (rule wire_scan_render [OF layout_tree [OF assms(1,2,4)]]) (simp add: MAX_WIRE_DEPTH_def)
  then show "utf8 (json_text S v)" and "decode_wire_json S (json_text S v) = Inr v"
    using assms(3) by (simp_all add: decode_wire_json_def values_written_def)
qed

lemma parts_laws:
  assumes "u \<in> parts v"
  shows "strings_escaped S v \<Longrightarrow> strings_escaped S u" and "numbers_exact S v \<Longrightarrow> numbers_exact S u" and "values_written S v \<Longrightarrow> values_written S u"
    and "values_written S v \<Longrightarrow> concat (sj_writes S u) = json_text S u"
  using parts_trans [OF assms] assms unfolding strings_escaped_def numbers_exact_def values_written_def by blast+

lemma read_document:
  assumes S: "strings_escaped S (Object doc)" "numbers_exact S (Object doc)" "values_written S (Object doc)"
    and doc: "wf_val (Object doc)" "nesting (Object doc) \<le> 64" "valid_leaves (Object doc)" and p: "p \<noteq> []"
  shows "read_field S (magic @ json_text S (Object doc)) p = Some (field_of doc p)"
    and "read_encoded S (magic @ json_text S (Object doc)) p =
      Some (case field_of doc p of FieldFound v \<Rightarrow> EncodedFound (magic @ json_text S v) | _ \<Rightarrow> EncodedMissing)"
proof -
  note look = lookup_document [OF S(1,2) doc(1) p]
  have "read_field S (magic @ json_text S (Object doc)) p = Some (field_of doc p) \<and>
    read_encoded S (magic @ json_text S (Object doc)) p =
      Some (case field_of doc p of FieldFound v \<Rightarrow> EncodedFound (magic @ json_text S v) | _ \<Rightarrow> EncodedMissing)"
  proof (cases "\<exists>u. path_value doc p = Inr (Some u)")
    case True
    then obtain u where u: "path_value doc p = Inr (Some u)" by blast
    have e: "expected S True p (Object doc) = LookupFound (json_text S u)" and part: "u \<in> parts (Object doc)"
      and wf: "wf_val u" "nesting u \<le> 64" "valid_leaves u"
      using expected_path [OF doc(2,3,1) p, of S True] u by (simp_all add: path_read_def)
    have strings: "strings_escaped S u" and nums: "numbers_exact S u" and written: "values_written S u"
      using parts_laws [OF part] S by blast+
    have "(case scalar (json_text S u) of
        Some v \<Rightarrow> Some v
      | None \<Rightarrow>
          if \<not> utf8 (json_text S u) then None
          else case decode_wire_json S (json_text S u) of Inl _ \<Rightarrow> None | Inr v \<Rightarrow> Some v) = Some u"
      using scalar_json [OF strings nums wf(1)] decode_json [OF strings nums written wf(2)]
      by (cases "scalar (json_text S u)") simp_all
    moreover have "validate u = Inr ()" using wf by (simp add: validate_iff)
    ultimately show ?thesis using look u by (simp add: read_field_def read_encoded_def field_of_def e)
  next
    case False
    then have e: "expected S True p (Object doc) = LookupMissing" and f: "field_of doc p = FieldMissing"
      using expected_path [OF doc(2,3,1) p, of S True]
      by (auto simp: path_read_def field_of_def split: sum.splits option.splits)
    then show ?thesis using look by (simp add: read_field_def read_encoded_def)
  qed
  then show "read_field S (magic @ json_text S (Object doc)) p = Some (field_of doc p)"
    and "read_encoded S (magic @ json_text S (Object doc)) p =
      Some (case field_of doc p of FieldFound v \<Rightarrow> EncodedFound (magic @ json_text S v) | _ \<Rightarrow> EncodedMissing)"
    by blast+
qed

text \<open>C16: reading a field without decoding the document is exact. The stored bytes of a valid document, its
strings being UTF-8 as every \<open>String\<close> is, are decoded to it within the limit on nesting; the byte-level reader always recognises them and finds for every
path what the decoded document holds there, nothing when the path is missing or crosses a value that is no
object; and \<open>encoded_field\<close> returns for it the bytes that encoding the field would give.\<close>

theorem read_exact:
  assumes "strings_escaped S (Object doc)" and "numbers_exact S (Object doc)" and "values_written S (Object doc)"
    and "wf_val (Object doc)" and "encode_document (sj_writes S) doc = Inr bytes" and "p \<noteq> []"
  shows "decode S bytes = Inr (Object doc) \<and>
    read_field S bytes p = Some (field_of doc p) \<and> decode_field S bytes p = Inr (field_of doc p) \<and>
    encoded_field S bytes p =
      (case field_of doc p of
         FieldFound v \<Rightarrow> map_sum id EncodedFound (encode (sj_writes S) v)
       | _ \<Rightarrow> Inr EncodedMissing)"
proof -
  have valid: "validate (Object doc) = Inr ()"
    using assms(5) by (simp add: encode_document_def validate_document)
  then have nest: "nesting (Object doc) \<le> 64" "valid_leaves (Object doc)" by (simp_all only: validate_iff)
  have bytes: "bytes = magic @ json_text S (Object doc)"
    using assms(3,5) parts_self [of "Object doc"] by (simp add: encode_document_def values_written_def)
  note read = read_document [OF assms(1-4) nest assms(6), folded bytes]
  have "decode S bytes = Inr (Object doc)"
    using decode_json [OF assms(1-3) nest(1)] valid by (simp add: decode_def bytes)
  moreover have "map_sum id EncodedFound (encode (sj_writes S) v) = Inr (EncodedFound (magic @ json_text S v))"
    if v: "field_of doc p = FieldFound v" for v
  proof -
    have "path_value doc p = Inr (Some v)" using v by (auto simp: field_of_def split: sum.splits option.splits)
    then have "v \<in> parts (Object doc)" "nesting v \<le> 64" "valid_leaves v"
      using expected_path [OF nest assms(4,6), of S True] by (simp_all add: path_read_def)
    moreover have "concat (sj_writes S v) = json_text S v"
      using parts_laws(4) [OF \<open>v \<in> parts (Object doc)\<close> assms(3)] .
    moreover have "validate v = Inr ()" using \<open>nesting v \<le> 64\<close> \<open>valid_leaves v\<close> by (simp add: validate_iff)
    ultimately show ?thesis by (simp add: encode_def)
  qed
  ultimately show ?thesis
    using read by (simp add: decode_field_def encoded_field_def split: field_read.splits)
qed

text \<open>A concrete library on a concrete document.\<close>

fun sample_escape :: "string \<Rightarrow> string" where
  "sample_escape [] = []"
| "sample_escape (c # s) =
     (if c = CHR 0x22 \<or> c = CHR 0x5C then [CHR 0x5C, c] else [c]) @ sample_escape s"

fun sample_unescape :: "string \<Rightarrow> string" where
  "sample_unescape [] = []"
| "sample_unescape (c # cs) =
     (if c = CHR 0x5C then (case cs of [] \<Rightarrow> [] | d # ds \<Rightarrow> d # sample_unescape ds) else c # sample_unescape cs)"

definition sample_document :: document where
  "sample_document =
     [(''id'', Record \<lparr>rec_table = ''t'', rec_key = KeyInteger 1\<rparr>),
      (''n'', Object [([CHR 0x22], String ''x''), (''q'', Number 0x3FF8000000000000)])]"

definition sample_parts :: "val list" where
  "sample_parts = Object sample_document # map snd sample_document @ [String ''x'', Number 0x3FF8000000000000]"

definition sample_base :: serde where
  "sample_base =
     \<lparr>sj_writes = \<lambda>v. [], sj_escape = sample_escape, sj_number = \<lambda>n. ''1.5'',
      sj_key = \<lambda>q. Some (sample_unescape (butlast (tl q))), sj_parse = \<lambda>s. Inl (Encoding ''syntax''),
      sj_utf8_error = \<lambda>s. ''error''\<rparr>"

definition sample_serde :: serde where
  "sample_serde = sample_base
     \<lparr>sj_writes := \<lambda>v. [json_text sample_base v],
      sj_parse := \<lambda>s. case find (\<lambda>v. json_text sample_base v = s) sample_parts of
                        None \<Rightarrow> Inl (Encoding ''syntax'') | Some v \<Rightarrow> Inr v\<rparr>"

lemma sample_strings: "strings_escaped sample_serde (Object sample_document)"
proof -
  have "escaped (sample_escape s)" for s
    by (induction s) simp_all
  moreover have "CHR 0x5C \<in> set (sample_escape s) \<or> sample_escape s = s" for s
    by (induction s) auto
  moreover have "sample_unescape (sample_escape s) = s" for s
    by (induction s) simp_all
  ultimately have "escapes sample_serde s" for s
    by (simp add: escapes_def sample_serde_def sample_base_def quoted_def)
  moreover have "\<forall>u \<in> parts (Object sample_document). \<forall>s \<in> own_strings u. utf8 s" by code_simp
  ultimately show ?thesis by (simp add: strings_escaped_def)
qed

lemma sample_numbers: "numbers_exact sample_serde (Object sample_document)"
proof -
  have "list_all number_byte ''1.5'' \<and> parse_f64 ''1.5'' = Some 0x3FF8000000000000" by code_simp
  then show ?thesis
    by (auto simp: numbers_exact_def sample_document_def sample_serde_def sample_base_def)
qed

lemma sample_written: "values_written sample_serde (Object sample_document)"
  by code_simp

theorem read_exact_witness:
  "\<exists>bytes. encode_document (sj_writes sample_serde) sample_document = Inr bytes \<and>
     decode_field sample_serde bytes [''n'', ''q''] = Inr (FieldFound (Number 0x3FF8000000000000))"
proof -
  have "case encode_document (sj_writes sample_serde) sample_document of Inl _ \<Rightarrow> False | Inr _ \<Rightarrow> True" by code_simp
  then obtain bytes where bytes: "encode_document (sj_writes sample_serde) sample_document = Inr bytes"
    by (auto split: sum.splits)
  have wf: "wf_val (Object sample_document)" by code_simp
  have "field_of sample_document [''n'', ''q''] = FieldFound (Number 0x3FF8000000000000)"
    by (simp add: field_of_def sample_document_def)
  then show ?thesis
    using read_exact [OF sample_strings sample_numbers sample_written wf bytes, of "[''n'', ''q'']"] bytes by auto
qed

section \<open>Another key order\<close>

text \<open>
  On bytes whose keys are out of order the reader does not fall back to a full decode: a greater key in
  front ends the search, whatever follows it.
\<close>

definition reordered :: string where
  "reordered = magic @ object_text @ quoted ''b'' @ '':'' @ tag_text @ ''Null'' @ [CHR 0x22] @ ''},'' @
     quoted ''a'' @ '':'' @ tag_text @ ''Null'' @ [CHR 0x22] @ ''}}}''"

lemma reordered_missing:
  "decode_field S reordered [''a''] = Inr FieldMissing"
  "path_value [(''a'', Null), (''b'', Null)] [''a''] = Inr (Some Null)"
proof -
  have "find_member S ''a'' (quoted ''b'' @ '':'' @ s) = Some None" for s
    by (subst find_member.simps) (simp add: quoted_def compare_key_def cmp_def)
  then have "read_field S reordered [''a''] = Some FieldMissing"
    by (simp add: read_field_def lookup_def reordered_def)
  then show "decode_field S reordered [''a''] = Inr FieldMissing" by (simp add: decode_field_def)
qed simp

end
