(* ===== verification/Collections.thy ===== *)
theory Collections
  imports Budgets
begin

text \<open>
  The array and object functions, \<open>fastdb/frontend/src/collections.rs\<close>: \<open>array::len\<close>, \<open>distinct\<close>,
  \<open>flatten\<close>, \<open>contains\<close>, and \<open>doc::keys\<close>, \<open>values\<close>, \<open>entries\<close>, \<open>from_entries\<close>, with their limits on
  items and on the JSON bytes of input and output. What \<open>serde_json\<close> writes for a value is a parameter.
  The property: \<open>distinct\<close>, which compares encodings of normalised values, removes exactly the values
  that \<open>equal\<close> an earlier one.
\<close>

section \<open>Identity\<close>

fun normalize :: "val \<Rightarrow> val" where
  "normalize (Record r) = Record (r\<lparr>rec_table := to_ascii_lowercase (rec_table r)\<rparr>)"
| "normalize (Number n) = Number (if f64_eq n 0 then 0 else n)"
| "normalize (Object fs) = Object (map (\<lambda>f. (fst f, normalize (snd f))) fs)"
| "normalize (Array vs) = Array (map normalize vs)"
| "normalize v = v"

definition identity :: "(val \<Rightarrow> string list) \<Rightarrow> val \<Rightarrow> ferror + string" where
  "identity writes v = encode writes (normalize v)"

section \<open>Limits\<close>

definition MAX_ITEMS :: nat where "MAX_ITEMS = 100000"

definition MAX_BYTES :: nat where "MAX_BYTES = 64 * 1024 * 1024"

definition bounded_items :: "nat \<Rightarrow> ferror + unit" where
  "bounded_items n = (if MAX_ITEMS < n then Inl (Limit ''array/object helper exceeds 100000 items'') else Inr ())"

definition helper_charge :: "(val \<Rightarrow> string list) \<Rightarrow> fetch_budget \<Rightarrow> val \<Rightarrow> ferror + fetch_budget" where
  "helper_charge writes b v =
     (case fb_charge writes v b of
        (Inl _, _) \<Rightarrow> Inl (Limit ''array/object helper input and output exceed 64 MiB'')
      | (Inr _, b') \<Rightarrow> Inr b')"

definition helper_budget :: fetch_budget where
  "helper_budget = \<lparr>fb_used = 0, fb_limit = MAX_BYTES\<rparr>"

section \<open>The functions\<close>

fun distinct_loop :: "(val \<Rightarrow> string list) \<Rightarrow> string set \<Rightarrow> val list \<Rightarrow> val list \<Rightarrow> ferror + val list" where
  "distinct_loop writes seen result [] = Inr result"
| "distinct_loop writes seen result (v # vs) =
     rbind (identity writes v) (\<lambda>key.
       if key \<in> seen then distinct_loop writes seen result vs
       else distinct_loop writes (insert key seen) (result @ [v]) vs)"

fun flatten_loop :: "val list \<Rightarrow> val list \<Rightarrow> ferror + val list" where
  "flatten_loop result [] = Inr result"
| "flatten_loop result (v # vs) =
     (case v of
        Array us \<Rightarrow>
          rbind (bounded_items (min (length result + length us) usize_max)) (\<lambda>_. flatten_loop (result @ us) vs)
      | _ \<Rightarrow> rbind (bounded_items (length result + 1)) (\<lambda>_. flatten_loop (result @ [v]) vs))"

definition object_items :: "string \<Rightarrow> document \<Rightarrow> val list" where
  "object_items f doc =
     map (\<lambda>e. if f = ''object_keys'' then String (fst e)
              else if f = ''object_values'' then snd e
              else Array [String (fst e), snd e]) doc"

definition entry_error :: ferror where
  "entry_error = Validation ''doc::from_entries expects [string,value] pairs''"

fun from_entries_loop :: "document \<Rightarrow> val list \<Rightarrow> ferror + document" where
  "from_entries_loop doc [] = Inr doc"
| "from_entries_loop doc (e # es) =
     (case e of
        Array [String k, v] \<Rightarrow>
          if bm_contains k doc then Inl (Validation ''doc::from_entries rejects duplicate keys'')
          else from_entries_loop (bm_insert k v doc) es
      | _ \<Rightarrow> Inl entry_error)"

definition call_output :: "(val \<Rightarrow> string list) \<Rightarrow> string \<Rightarrow> val \<Rightarrow> ferror + val" where
  "call_output writes f input =
     (case input of
        Array vs \<Rightarrow>
          if f = ''array_len'' then Inr (Integer (int (length vs)))
          else if f = ''array_distinct''
          then rbind (bounded_items (length vs)) (\<lambda>_. map_sum id Array (distinct_loop writes {} [] vs))
          else if f = ''array_flatten''
          then rbind (bounded_items (length vs)) (\<lambda>_. map_sum id Array (flatten_loop [] vs))
          else if f = ''object_from_entries''
          then rbind (bounded_items (length vs)) (\<lambda>_. map_sum id Object (from_entries_loop [] vs))
          else Inl (Validation (''invalid '' @ f @ '' argument type''))
      | Object doc \<Rightarrow>
          if f \<in> {''object_keys'', ''object_values'', ''object_entries''}
          then rbind (bounded_items (length doc)) (\<lambda>_. Inr (Array (object_items f doc)))
          else Inl (Validation (''invalid '' @ f @ '' argument type''))
      | _ \<Rightarrow> Inl (Validation (''invalid '' @ f @ '' argument type'')))"

definition contains_found :: "val \<Rightarrow> val \<Rightarrow> ferror + bool" where
  "contains_found input needle =
     (case input of
        Null \<Rightarrow> Inr False
      | Array vs \<Rightarrow> rbind (bounded_items (length vs)) (\<lambda>_. Inr (list_ex (\<lambda>v. equal v needle) vs))
      | _ \<Rightarrow> Inl (Validation ''array::contains expects array or null''))"

definition contains_call :: "(val \<Rightarrow> string list) \<Rightarrow> val list \<Rightarrow> ferror + val" where
  "contains_call writes args =
     (case args of
        [input, needle] \<Rightarrow>
          rbind (encode_with_limit writes (Some (1024 * 1024)) needle) (\<lambda>_.
            rbind (helper_charge writes helper_budget input) (\<lambda>b.
              rbind (helper_charge writes b needle) (\<lambda>b.
                rbind (contains_found input needle) (\<lambda>found.
                  rbind (helper_charge writes b (Boolean found)) (\<lambda>_. Inr (Boolean found))))))
      | _ \<Rightarrow> Inl (Validation ''array::contains expects array and value''))"

definition collection_call :: "(val \<Rightarrow> string list) \<Rightarrow> string \<Rightarrow> val list \<Rightarrow> ferror + val" where
  "collection_call writes f args =
     (if f = ''array_contains'' then contains_call writes args
      else case args of
          [input] \<Rightarrow>
            rbind (helper_charge writes helper_budget input) (\<lambda>b.
              rbind (call_output writes f input) (\<lambda>out.
                rbind (validate out) (\<lambda>_.
                  rbind (helper_charge writes b out) (\<lambda>_. Inr out))))
        | _ \<Rightarrow> Inl (Validation (f @ '' expects one argument'')))"

section \<open>Normalised values are equal exactly when the values are\<close>

lemma f64_zero: "f64_eq n 0 \<longleftrightarrow> unat n mod 2 ^ 63 = 0"
proof
  assume z: "unat n mod 2 ^ 63 = 0"
  have "unat n mod 2 ^ 52 = unat n mod 2 ^ 63 mod 2 ^ 52" by (simp add: mod_mod_cancel)
  then have "\<not> f64_nan n" using z by (simp add: f64_nan_def)
  then show "f64_eq n 0" using z by (simp add: f64_eq_def f64_nan_def)
qed (auto simp: f64_eq_def)

lemma f64_normal:
  assumes "is_finite m" and "is_finite n"
  shows "f64_eq m n \<longleftrightarrow> (if f64_eq m 0 then 0 else m) = (if f64_eq n 0 then 0 else n)"
proof -
  have z: "unat (0 :: 64 word) mod 2 ^ 63 = 0" by simp
  have "\<not> f64_nan m" "\<not> f64_nan n" using assms by (simp_all add: f64_nan_def is_finite_def)
  then show ?thesis unfolding f64_zero using z by (auto simp: f64_eq_def)
qed

lemma bm_get_normalize:
  "bm_get k (map (\<lambda>f. (fst f, normalize (snd f))) fs) = map_option normalize (bm_get k fs)"
  by (induction fs) auto

lemma bm_wf_normalize: "bm_wf (map (\<lambda>f. (fst f, normalize (snd f))) fs) \<longleftrightarrow> bm_wf fs"
  by (simp add: bm_wf_def comp_def)

lemma same_keys:
  assumes "bm_wf l" "bm_wf r" "length l = length r" "fst ` set l \<subseteq> fst ` set r"
  shows "fst ` set l = fst ` set r"
proof -
  have "card (fst ` set l) = card (fst ` set r)"
    using assms(3) distinct_card [OF bm_wf_distinct [OF assms(1)]] distinct_card [OF bm_wf_distinct [OF assms(2)]] by simp
  then show ?thesis using assms(4) by (simp add: card_subset_eq)
qed

lemma map_eq_zip:
  "length xs = length ys \<Longrightarrow> map f xs = map f ys \<longleftrightarrow> list_all (\<lambda>p. f (fst p) = f (snd p)) (zip xs ys)"
  by (induction xs ys rule: list_induct2) simp_all

lemma record_update_eq:
  "(r\<lparr>rec_table := a\<rparr> :: record_ref) = s\<lparr>rec_table := b\<rparr> \<longleftrightarrow> a = b \<and> rec_key r = rec_key s"
  by (cases r; cases s) simp

lemma equal_normalize:
  "valid_leaves a \<Longrightarrow> valid_leaves b \<Longrightarrow> wf_val a \<Longrightarrow> wf_val b \<Longrightarrow> equal a b \<longleftrightarrow> normalize a = normalize b"
proof (induction a arbitrary: b)
  case (Number n)
  then show ?case by (cases b) (simp_all add: scalar_eq_def f64_normal)
next
  case (Record r)
  then show ?case by (cases b) (auto simp: scalar_eq_def eq_ignore_ascii_case_def record_update_eq)
next
  case (Array vs)
  show ?case
  proof (cases b)
    case (Array us)
    have "equal (fst p) (snd p) \<longleftrightarrow> normalize (fst p) = normalize (snd p)" if "p \<in> set (zip vs us)" for p
    proof -
      have "fst p \<in> set vs" "snd p \<in> set us" using set_zip_leftD [of "fst p" "snd p" vs us] set_zip_rightD [of "fst p" "snd p" vs us] that by simp_all
      then show ?thesis using Array.IH Array.prems \<open>b = Array us\<close> by simp
    qed
    then have all: "list_all (\<lambda>p. equal (fst p) (snd p)) (zip vs us) \<longleftrightarrow>
        list_all (\<lambda>p. normalize (fst p) = normalize (snd p)) (zip vs us)"
      by (simp add: list_all_iff)
    show ?thesis
    proof (cases "length vs = length us")
      case True
      then show ?thesis using \<open>b = Array us\<close> all map_eq_zip [OF True, of normalize] by simp
    next
      case False
      then have "map normalize vs \<noteq> map normalize us" by (metis length_map)
      then show ?thesis using \<open>b = Array us\<close> False by simp
    qed
  qed (simp_all add: scalar_eq_def)
next
  case (Object l)
  show ?case
  proof (cases b)
    case b: (Object r)
    let ?n = "\<lambda>fs. map (\<lambda>f. (fst f, normalize (snd f))) fs"
    have wf: "bm_wf l" "bm_wf r" using Object.prems b by simp_all
    have IH: "equal v w \<longleftrightarrow> normalize v = normalize w" if "bm_get k l = Some v" "bm_get k r = Some w" for k v w
      using bm_get_SomeD [OF that(1)] bm_get_SomeD [OF that(2)] Object.IH [of "(k, v)" v w] Object.prems b
      by (force simp: snds.simps)
    have "equal (Object l) (Object r) \<longleftrightarrow> ?n l = ?n r"
    proof
      assume eq: "equal (Object l) (Object r)"
      then have found: "\<exists>w. bm_get (fst f) r = Some w \<and> equal (snd f) w" if "f \<in> set l" for f
        using that by (auto simp: list_all_iff split: option.splits)
      then have "fst ` set l \<subseteq> fst ` set r" by (force dest: bm_get_SomeD)
      then have keys: "fst ` set l = fst ` set r" using same_keys [OF wf] eq by simp
      show "?n l = ?n r"
      proof (rule bm_ext)
        fix k
        show "bm_get k (?n l) = bm_get k (?n r)"
        proof (cases "bm_get k l")
          case None
          then have "bm_get k r = None" using keys by (simp add: bm_get_None)
          then show ?thesis using None by (simp add: bm_get_normalize)
        next
          case (Some v)
          then obtain w where "bm_get k r = Some w" "equal v w" using found [OF bm_get_SomeD [OF Some]] by auto
          then show ?thesis using IH [OF Some] Some by (simp add: bm_get_normalize)
        qed
      qed (use wf in \<open>simp_all only: bm_wf_normalize\<close>)
    next
      assume eq: "?n l = ?n r"
      have "case bm_get (fst f) r of None \<Rightarrow> False | Some w \<Rightarrow> equal (snd f) w" if f: "f \<in> set l" for f
      proof -
        have l: "bm_get (fst f) l = Some (snd f)" using bm_get_mem [OF wf(1), of "fst f" "snd f"] f by simp
        have "map_option normalize (bm_get (fst f) l) = map_option normalize (bm_get (fst f) r)"
          using arg_cong [OF eq, of "bm_get (fst f)"] by (simp only: bm_get_normalize)
        then show ?thesis using l IH [OF l] by (cases "bm_get (fst f) r") auto
      qed
      then show "equal (Object l) (Object r)" using arg_cong [OF eq, of length] by (simp add: list_all_iff)
    qed
    then show ?thesis using b by simp
  qed (simp_all add: scalar_eq_def)
next
  case Null
  then show ?case by (cases b) (simp_all add: scalar_eq_def)
next
  case (Boolean x)
  then show ?case by (cases b) (simp_all add: scalar_eq_def)
next
  case (Integer x)
  then show ?case by (cases b) (simp_all add: scalar_eq_def)
next
  case (String x)
  then show ?case by (cases b) (simp_all add: scalar_eq_def)
next
  case (Binary x)
  then show ?case by (cases b) (simp_all add: scalar_eq_def)
next
  case (Vector x)
  then show ?case by (cases b) (simp_all add: scalar_eq_def)
qed

section \<open>Normalising keeps values valid\<close>

lemma to_lower_zero: "to_lower c = CHR 0x00 \<longleftrightarrow> c = CHR 0x00"
proof (cases "65 \<le> byte c \<and> byte c \<le> 90")
  case True
  then have "byte (to_lower c) = byte c + 32" by (simp add: to_lower_def)
  then show ?thesis using True by auto
qed (auto simp: to_lower_def)

lemma canonical_lower: "canonical (to_ascii_lowercase s) = canonical s"
proof -
  have "CHR 0x00 \<in> set (to_ascii_lowercase s) \<longleftrightarrow> CHR 0x00 \<in> set s"
    unfolding to_ascii_lowercase_def set_map by (metis imageE image_eqI to_lower_zero)
  moreover have "to_ascii_lowercase s = [] \<longleftrightarrow> s = []" by (simp add: to_ascii_lowercase_def)
  ultimately show ?thesis by (simp add: canonical_def reserved_name_def)
qed

lemma normalize_valid: "valid_leaves v \<Longrightarrow> valid_leaves (normalize v)"
proof (induction v)
  case (Record r)
  have "to_ascii_lowercase (rec_table r) = [] \<longleftrightarrow> rec_table r = []" by (simp add: to_ascii_lowercase_def)
  then show ?case using Record by (auto simp: validate_record_def canonical_lower)
next
  case (Number n)
  then show ?case by (simp add: is_finite_def f64_exponent_def)
next
  case (Object fs)
  have "valid_leaves (normalize (snd f))" if "f \<in> set fs" for f
    using Object.IH [of f "snd f"] Object.prems that by (cases f) (auto simp: snds.simps)
  then show ?case by simp
qed simp_all

lemma normalize_nesting: "nesting (normalize v) = nesting v"
proof (induction v)
  case (Object fs)
  have "nesting (normalize (snd f)) = nesting (snd f)" if "f \<in> set fs" for f
    using Object.IH [of f "snd f"] that by (cases f) (auto simp: snds.simps)
  then have "map (\<lambda>f. Suc (nesting (normalize (snd f)))) fs = map (\<lambda>f. Suc (nesting (snd f))) fs" by simp
  then show ?case by (simp add: comp_def del: map_eq_conv)
next
  case (Array vs)
  then have "map (\<lambda>v. Suc (nesting (normalize v))) vs = map (\<lambda>v. Suc (nesting v)) vs" by simp
  then show ?case by (simp add: comp_def del: map_eq_conv)
qed simp_all

lemma identity_valid:
  assumes "valid_leaves v" and "nesting v \<le> 64"
  shows "identity writes v = Inr (magic @ concat (writes (normalize v)))"
  using assms by (simp add: identity_def encode_def validate_iff normalize_valid normalize_nesting)

section \<open>Removing duplicates\<close>

text \<open>The values at the places where no earlier value is equal.\<close>

definition first_of_each :: "val list \<Rightarrow> val list" where
  "first_of_each vs = nths vs {i. \<forall>j < i. \<not> equal (vs ! j) (vs ! i)}"

text \<open>\<open>serde_json\<close> writes different texts for different values.\<close>

definition texts_differ :: "(val \<Rightarrow> string list) \<Rightarrow> val list \<Rightarrow> bool" where
  "texts_differ writes vs \<longleftrightarrow>
     (\<forall>a \<in> set vs. \<forall>b \<in> set vs. concat (writes a) = concat (writes b) \<longrightarrow> a = b)"

definition json_bytes :: "(val \<Rightarrow> string list) \<Rightarrow> val \<Rightarrow> nat" where
  "json_bytes writes v = length (concat (writes v))"

lemma distinct_loop_keys:
  assumes "\<forall>v \<in> set vs. identity writes v = Inr (key v)"
  shows "distinct_loop writes seen result vs =
    Inr (result @ nths vs {i. key (vs ! i) \<notin> seen \<and> (\<forall>j < i. key (vs ! j) \<noteq> key (vs ! i))})"
  using assms
proof (induction vs arbitrary: seen result)
  case (Cons v vs)
  have tail: "{j. Suc j \<in> {i. key ((v # vs) ! i) \<notin> seen \<and> (\<forall>j < i. key ((v # vs) ! j) \<noteq> key ((v # vs) ! i))}} =
      {i. key (vs ! i) \<notin> insert (key v) seen \<and> (\<forall>j < i. key (vs ! j) \<noteq> key (vs ! i))}"
    by (auto simp: All_less_Suc2)
  show ?case
  proof (cases "key v \<in> seen")
    case True
    then have "insert (key v) seen = seen" by blast
    then show ?thesis using Cons True tail by (simp add: nths_Cons)
  next
    case False
    then show ?thesis using Cons tail by (simp add: nths_Cons)
  qed
qed simp

lemma nths_agree:
  assumes "\<And>i. i < length xs \<Longrightarrow> i \<in> A \<longleftrightarrow> i \<in> B"
  shows "nths xs A = nths xs B"
  unfolding nths_def using assms by (intro arg_cong [of _ _ "map fst"] filter_cong) (auto simp: set_zip)

lemma distinct_loop_exact:
  assumes "\<forall>v \<in> set vs. valid_leaves v \<and> wf_val v \<and> nesting v \<le> 64" and "texts_differ writes (map normalize vs)"
  shows "distinct_loop writes {} [] vs = Inr (first_of_each vs)"
proof -
  let ?key = "\<lambda>v. magic @ concat (writes (normalize v))"
  have same: "?key u = ?key v \<longleftrightarrow> equal u v" if "u \<in> set vs" "v \<in> set vs" for u v
    using that assms equal_normalize [of u v] by (auto simp: texts_differ_def)
  have "nths vs {i. \<forall>j < i. ?key (vs ! j) \<noteq> ?key (vs ! i)} = first_of_each vs"
    unfolding first_of_each_def by (rule nths_agree) (use same in \<open>auto simp del: same_append_eq\<close>)
  moreover have "distinct_loop writes {} [] vs = Inr (nths vs {i. \<forall>j < i. ?key (vs ! j) \<noteq> ?key (vs ! i)})"
    using distinct_loop_keys [of vs writes ?key "{}" "[]"] identity_valid assms(1) by simp
  ultimately show ?thesis by simp
qed

lemma first_of_each_subset: "set (first_of_each vs) \<subseteq> set vs"
  by (auto simp: first_of_each_def set_nths)

lemma helper_charge_iff:
  assumes "fb_used b \<le> fb_limit b"
  shows "helper_charge writes b v =
    (if fb_used b + json_bytes writes v \<le> fb_limit b then Inr (b\<lparr>fb_used := fb_used b + json_bytes writes v\<rparr>)
     else Inl (Limit ''array/object helper input and output exceed 64 MiB''))"
proof (cases "fb_used b + json_bytes writes v \<le> fb_limit b")
  case True
  then show ?thesis using fb_charge_ok [of b writes v] by (simp add: helper_charge_def json_bytes_def length_concat)
next
  case False
  then show ?thesis
    using fb_charge_err [OF assms, of writes v] by (auto simp: helper_charge_def json_bytes_def length_concat)
qed

section \<open>Entries and objects\<close>

lemma bm_insert_last: "\<forall>f \<in> set m. fst f < k \<Longrightarrow> bm_insert k v m = m @ [(k, v)]"
  by (induction k v m rule: bm_insert.induct) auto

text \<open>\<open>doc::from_entries\<close> is the inverse of \<open>doc::entries\<close>.\<close>

lemma from_entries_items:
  "bm_wf (doc @ fs) \<Longrightarrow> from_entries_loop doc (object_items ''object_entries'' fs) = Inr (doc @ fs)"
proof (induction fs arbitrary: doc)
  case (Cons f fs)
  have less: "\<forall>g \<in> set doc. fst g < fst f" using Cons.prems by (auto simp: bm_wf_def sorted_wrt_append)
  then have "\<not> bm_contains (fst f) doc" by (auto simp: bm_contains_def)
  moreover have "bm_insert (fst f) (snd f) doc = doc @ [f]" using bm_insert_last [OF less] by simp
  ultimately show ?case using Cons.IH [of "doc @ [f]"] Cons.prems by (simp add: object_items_def)
qed (simp add: object_items_def)

section \<open>Property\<close>

text \<open>C17: \<open>array::distinct\<close> keeps exactly the first of each group of equal values, in their order, although it
compares encodings of normalised values and not the values. For a valid array it fails only with a limit
error, and only when the array has more than 100000 items or the JSON of the array and of the result together
exceeds 64 MiB; and then it does fail.\<close>

theorem distinct_exact:
  assumes "wf_val (Array vs)" and "validate (Array vs) = Inr ()" and "texts_differ writes (map normalize vs)"
  shows "if length vs \<le> 100000 \<and>
      json_bytes writes (Array vs) + json_bytes writes (Array (first_of_each vs)) \<le> 64 * 1024 * 1024
    then collection_call writes ''array_distinct'' [Array vs] = Inr (Array (first_of_each vs))
    else \<exists>m. collection_call writes ''array_distinct'' [Array vs] = Inl (Limit m)"
proof -
  have valid: "nesting (Array vs) \<le> 64" "valid_leaves (Array vs)" using assms(2) by (simp_all only: validate_iff)
  then have "\<forall>v \<in> set vs. valid_leaves v \<and> wf_val v \<and> nesting v \<le> 64"
    using assms(1) by (auto simp: max_or_zero_le)
  note loop = distinct_loop_exact [OF this assms(3)]
  have out: "validate (Array (first_of_each vs)) = Inr ()"
    using valid first_of_each_subset [of vs] by (auto simp: validate_iff max_or_zero_le)
  have "helper_charge writes helper_budget (Array vs) =
    (if json_bytes writes (Array vs) \<le> MAX_BYTES then Inr \<lparr>fb_used = json_bytes writes (Array vs), fb_limit = MAX_BYTES\<rparr>
     else Inl (Limit ''array/object helper input and output exceed 64 MiB''))"
    by (simp add: helper_charge_iff helper_budget_def)
  moreover have "call_output writes ''array_distinct'' (Array vs) =
    (if MAX_ITEMS < length vs then Inl (Limit ''array/object helper exceeds 100000 items'') else Inr (Array (first_of_each vs)))"
    by (simp add: call_output_def bounded_items_def loop)
  ultimately show ?thesis
    using out by (simp add: collection_call_def helper_charge_iff MAX_ITEMS_def MAX_BYTES_def)
qed

definition sample_values :: "val list" where
  "sample_values = [Number 0, Number 0x8000000000000000, Boolean True, Number 0]"

definition sample_texts :: "val \<Rightarrow> string list" where
  "sample_texts v = (case v of Number _ \<Rightarrow> [''0''] | _ \<Rightarrow> [''true''])"

theorem distinct_exact_witness:
  "collection_call sample_texts ''array_distinct'' [Array sample_values] = Inr (Array [Number 0, Boolean True])"
proof -
  have wf: "wf_val (Array sample_values)" by (simp add: sample_values_def)
  have valid: "validate (Array sample_values) = Inr ()" by code_simp
  have differ: "texts_differ sample_texts (map normalize sample_values)" by code_simp
  have first: "first_of_each sample_values = [Number 0, Boolean True]"
  proof -
    have "equal (Number 0) (Number 0)" "equal (Number 0) (Number 0x8000000000000000)"
      "\<not> equal (Number 0) (Boolean True)" "\<not> equal (Number 0x8000000000000000) (Boolean True)" by code_simp+
    then show ?thesis by (simp add: first_of_each_def sample_values_def nths_Cons All_less_Suc2 del: equal.simps)
  qed
  have "length sample_values \<le> 100000 \<and>
      json_bytes sample_texts (Array sample_values) + json_bytes sample_texts (Array (first_of_each sample_values)) \<le> 64 * 1024 * 1024"
    by (simp add: sample_values_def json_bytes_def sample_texts_def)
  then show ?thesis using distinct_exact [OF wf valid differ] first by simp
qed

end
