(* ===== verification/Spec2Isabelle.thy ===== *)
theory Spec2Isabelle
  imports Statements Script Precedence Morton Admission Documents Graph_Source Schema Field_Reader Collections
begin

text \<open>
  A verification library for FastDB, a document and graph layer on top of the Turso SQL engine.

  \<^bold>\<open>The program.\<close> The sources under \<open>src/\<close> are the engine (\<open>core\<close>, \<open>sqlite\<close>, \<open>postgres\<close>, \<open>sync\<close>, the
  bindings and tools of upstream Turso) and FastDB's own code under \<open>src/fastdb\<close>, which this library is
  about. A request passes through it as follows. The service (\<open>service/src\<close>) admits it. The parser
  (\<open>parser/src\<close>) cuts a script into statements, tokenizes one and either returns a FastQL statement or
  leaves the text to the engine. The frontend (\<open>frontend/src\<close>) checks values, documents and catalog rules,
  computes fields, rewrites GRAPH sources and spatial predicates to SQL, runs the engine, and bounds what
  a query may read and return.

  \<^bold>\<open>Conventions.\<close> A \<open>str\<close> or byte slice is a list of 8-bit characters, so lengths and offsets count bytes. A
  \<open>BTreeMap\<close> is its strictly sorted list of entries. An \<open>i64\<close> is an integer with its range in the
  invariant \<open>wf_val\<close>, a \<open>usize\<close> a natural number with checked, wrapping or saturating steps written out
  where the code has them, an \<open>f64\<close> its 64 bits, and the bit tricks of the Morton code work on a
  \<open>64 word\<close>. A \<open>Result\<close> is a sum with the error on the left and \<open>rbind\<close> is the \<open>?\<close> operator. A panic (an
  overflow in the production profile, an \<open>expect\<close>, an \<open>unreachable!\<close>) is a value of its own: \<open>Panics\<close>,
  \<open>Panicked\<close> or \<open>None\<close>, as each theory says.

  \<^bold>\<open>Foundations.\<close>
  \<^item> \<open>Prelude\<close>: results, slices, ASCII case, trimming. \<open>Comparisons\<close>: \<open>std::cmp::Ordering\<close>. \<open>Numbers\<close>:
    \<open>str::parse\<close> for integers and doubles (exact decimal, rounded to nearest even) and decimal output.
  \<^item> \<open>Ordered_Map\<close>: sorted entry lists, with the locale \<open>ordered_map\<close> for the contract of a map and its
    interpretation on \<open>bm_get\<close>, \<open>bm_insert\<close>, \<open>bm_remove\<close>.

  \<^bold>\<open>The parser\<close> (\<open>fastdb/parser/src\<close>).
  \<^item> \<open>Tokens\<close> is \<open>tokenize\<close> of \<open>lib.rs\<close>: tokens tile an accepted input, offsets are character
    boundaries of valid UTF-8, quoted strings are read back.
  \<^item> \<open>Parser_State\<close> holds the parser's state and primitives and a weakest-precondition calculus for them;
    \<open>Expressions\<close> is the expression grammar (\<open>parse_expression\<close>), with the locale \<open>subparser\<close> for what the
    grammar needs of its recursive calls; \<open>Precedence\<close> shows that the climbing loop groups operators as
    their precedences say.
  \<^item> \<open>Statements\<close> is \<open>parse\<close>, one attempt per statement form, with the locale \<open>option_handler\<close> for the
    loops over index options; \<open>Graph_Parser\<close> is \<open>graph.rs\<close>; \<open>Script\<close> is \<open>script.rs\<close>.
  \<^item> Every loop takes the number of tokens left plus one as fuel. Each round consumes a token, so the fuel
    is enough: \<open>parse_total\<close>, \<open>parse_expression_total\<close> and \<open>parse_graph_total\<close> prove that the entry
    points return, with an error inside the input or a well-formed result.

  \<^bold>\<open>The service\<close> (\<open>fastdb/service/src/admission.rs\<close>). \<open>Admission\<close> has the state under the mutex, each passage
  through it with the notifications it sends, and a step relation for any interleaving of threads: counters,
  limits, outcomes; no wake-up is lost, and in every fair run the service winds down after \<open>stop\<close>.

  \<^bold>\<open>Values and documents\<close> (\<open>fastdb/frontend/src\<close>).
  \<^item> \<open>Vectors\<close> is the error type of \<open>lib.rs\<close> and \<open>vectors.rs\<close>; \<open>Values\<close> is \<open>value.rs\<close> up to the encoder,
    names of \<open>guard.rs\<close> and \<open>lib.rs\<close>, and value equality of \<open>collections.rs\<close>.
  \<^item> \<open>Budgets\<close> is \<open>budget.rs\<close>, the byte budget of \<open>links.rs\<close> and the encoder with a limit; the locale
    \<open>meter\<close> is the contract of a byte counter, interpreted for all three.
  \<^item> \<open>Field_Reader\<close> is the byte-level reader of \<open>value.rs\<close> with \<open>wire_json.rs\<close>; the locale \<open>text_walk\<close> is
    what walking over a JSON text means, interpreted for the search of a value's end and for the depth
    check. On stored bytes the reader agrees with a full decode.
  \<^item> \<open>Collections\<close> is \<open>collections.rs\<close>: values are equal exactly when their normalised forms are, so
    \<open>array::distinct\<close>, which compares encodings, keeps the first of each group of equal values, and
    \<open>doc::from_entries\<close> inverts \<open>doc::entries\<close>.
  \<^item> \<open>Documents\<close> is \<open>mutation.rs\<close>, \<open>patch.rs\<close> and the removal of \<open>omit.rs\<close>: mutations keep the id, patch operations
    undo each other, and a patch stays within its limits on operations and bytes.
  \<^item> \<open>Field_Rules\<close>, \<open>Computed\<close> and \<open>Schema\<close> are \<open>field_rules.rs\<close>, \<open>schema_rules.rs\<close>, \<open>computed.rs\<close> and
    \<open>validate_document\<close> of \<open>lib.rs\<close>: the verdict of a strict schema is that of the first million
    steps over the document, the plan of computed fields is a topological sort, and a checked catalog keeps the strict schema from panicking. The search of the
    plan takes one more than the number of fields as fuel; a path of the search has no field twice.

  \<^bold>\<open>Graphs\<close> (\<open>fastdb/frontend/src/graph\<close>).
  \<^item> \<open>Graph_Search\<close> is the traversal of \<open>query.rs\<close> with its limits, counters and caches: REACHABLE is
    breadth-first search with exact depths and valid paths, PATHS enumerates simple paths, and every
    traversal keeps its limits after each level or ends with the error of one, the row of the root
    excepted. No path it keeps is empty, so reading the end of one never fails. The walk along parents takes the number of
    visited nodes as fuel; parents were visited before their children.
  \<^item> \<open>Graph_Predicate\<close> is \<open>predicate.rs\<close>; \<open>Graph_Source\<close> rewrites GRAPH sources, resolves a query against
    the catalog and runs it.

  \<^bold>\<open>Spatial index\<close> (\<open>fastdb/frontend/src/spatial/morton.rs\<close>). \<open>Morton\<close> has keys, cells, ranges and covers; the
  locale \<open>classifier\<close> states what a cover needs of the classification of cells and is interpreted for
  windows. The descent goes one level down per round and the deepest level is 31, so 32 rounds of fuel are
  enough.

  \<^bold>\<open>Parameters.\<close> Code that is not in the repository or that is the engine's is an argument: the chunks
  \<open>serde_json\<close> writes and what it reads, the evaluation of an expression, the rows of an adjacency
  query, the catalog lookups, the keys of an index, the clock.

  \<^bold>\<open>Not modelled.\<close>
  \<^item> The SQL engine and its SQL parser, pager, WAL, MVCC, bytecode machine, JSON and vector functions: upstream
    code that FastDB calls through statements; here it is behind the parameters.
  \<^item> The SQL rewriting of \<open>select.rs\<close>, \<open>write.rs\<close>, \<open>functions.rs\<close>, \<open>check.rs\<close>, \<open>udf.rs\<close>, the spatial planner and
    the full-text and vector indexes: their meaning is the meaning of the SQL they produce.
  \<^item> Catalog storage, migration, transfer, backup and recovery: sequences of engine statements and file
    operations. \<open>Connection::define_schema\<close> and CHECK expressions belong here.
  \<^item> The HTTP service, command line, language bindings, synchronisation and test tools: input and output.
  \<^item> In modelled files: the engine conversions of \<open>vectors.rs\<close>, the SQL expansion of \<open>omit.rs\<close>, the name
    guards of \<open>guard.rs\<close>, and of \<open>morton.rs\<close> the quantization of coordinates and the classification of
    cells against polygons, which are floating-point geometry.
\<close>

end
